(* ===== verification/Prelude.thy ===== *)
theory Prelude
  imports Main "HOL-Library.Word" "HOL-Library.Multiset"
begin

text \<open>
  Shared vocabulary of the development.

  \<^item> \<open>outcome\<close>: what a Go call does.  It returns (\<open>Ret\<close>), it panics (\<open>Panic\<close>) or it
    never returns because it waits for a lock or a channel that nobody will release
    (\<open>Block\<close>).  All three carry the state that the call leaves behind, because other
    goroutines go on with that state.
  \<^item> Go's byte strings: \<open>strings.Split\<close> with a one-byte separator, \<open>strings.LastIndex\<close>,
    \<open>strings.Replace\<close> of one byte, and the slice expressions \<open>s[a:]\<close>, \<open>s[:b]\<close> with
    their run-time bounds check.
  \<^item> The named collections \<open>outcome_simps\<close> and \<open>go_string\<close> that the component
    theories hand to the simplifier.
\<close>

named_theorems outcome_simps \<open>evaluation of outcomes and their sequencing\<close>
named_theorems go_string \<open>laws of the modelled Go string functions\<close>

type_synonym i32 = "32 word"
type_synonym i64 = "64 word"
type_synonym u32 = "32 word"
type_synonym u64 = "64 word"
type_synonym byte = "8 word"

section \<open>Outcomes of Go calls\<close>

datatype ('s, 'a) outcome = Ret 's 'a | Panic 's | Block 's

fun obind :: "('s, 'a) outcome \<Rightarrow> ('s \<Rightarrow> 'a \<Rightarrow> ('s, 'b) outcome) \<Rightarrow> ('s, 'b) outcome" where
  "obind (Ret s a) f = f s a"
| "obind (Panic s) f = Panic s"
| "obind (Block s) f = Block s"

fun final_state :: "('s, 'a) outcome \<Rightarrow> 's" where
  "final_state (Ret s a) = s"
| "final_state (Panic s) = s"
| "final_state (Block s) = s"

fun returns :: "('s, 'a) outcome \<Rightarrow> bool" where
  "returns (Ret s a) = True"
| "returns (Panic s) = False"
| "returns (Block s) = False"

declare obind.simps [outcome_simps] final_state.simps [outcome_simps]
  returns.simps [outcome_simps]

lemma obind_Ret_iff [outcome_simps]:
  "obind m f = Ret t b \<longleftrightarrow> (\<exists>s a. m = Ret s a \<and> f s a = Ret t b)"
  by (cases m) auto

lemma obind_assoc: "obind (obind m f) g = obind m (\<lambda>s a. obind (f s a) g)"
  by (cases m) auto

lemma obind_cong [fundef_cong]:
  "m = m' \<Longrightarrow> (\<And>s a. m' = Ret s a \<Longrightarrow> f s a = g s a) \<Longrightarrow> obind m f = obind m' g"
  by (cases m') auto

lemma returns_iff: "returns m \<longleftrightarrow> (\<exists>s a. m = Ret s a)"
  by (cases m) auto

lemma nth_upd: "j < length xs \<Longrightarrow> xs[i := x] ! j = (if i = j then x else xs ! j)"
  by (simp add: nth_list_update)

lemma nth_upd_total: "xs[i := x] ! j = (if i = j \<and> j < length xs then x else xs ! j)"
  by (cases "i < length xs") (auto simp: nth_list_update not_less list_update_beyond)

section \<open>Go strings\<close>

text \<open>\<open>strings.Split(s, sep)\<close> for a separator of one byte.  It never returns an empty slice.\<close>

fun split_on :: "'a \<Rightarrow> 'a list \<Rightarrow> 'a list list" where
  "split_on c [] = [[]]"
| "split_on c (x # xs) =
     (if x = c then [] # split_on c xs
      else (case split_on c xs of [] \<Rightarrow> [[x]] | p # ps \<Rightarrow> (x # p) # ps))"

text \<open>\<open>strings.LastIndex(s, sep)\<close> for a separator of one byte: \<open>-1\<close> when it does not occur.\<close>

fun last_index :: "'a \<Rightarrow> 'a list \<Rightarrow> int" where
  "last_index c [] = -1"
| "last_index c (x # xs) =
     (let r = last_index c xs in if 0 \<le> r then r + 1 else if x = c then 0 else -1)"

text \<open>\<open>s[:b]\<close> and \<open>s[a:]\<close>; \<open>None\<close> is the run-time panic \<open>slice bounds out of range\<close>.\<close>

definition slice_to :: "'a list \<Rightarrow> int \<Rightarrow> 'a list option" where
  "slice_to s b = (if 0 \<le> b \<and> b \<le> int (length s) then Some (take (nat b) s) else None)"

definition slice_from :: "'a list \<Rightarrow> int \<Rightarrow> 'a list option" where
  "slice_from s a = (if 0 \<le> a \<and> a \<le> int (length s) then Some (drop (nat a) s) else None)"

text \<open>\<open>strings.Replace(s, old, new, -1)\<close> for \<open>old\<close> and \<open>new\<close> of one byte.\<close>

definition replace_all :: "'a \<Rightarrow> 'a \<Rightarrow> 'a list \<Rightarrow> 'a list" where
  "replace_all old new s = map (\<lambda>x. if x = old then new else x) s"

lemma split_on_not_Nil [simp]: "split_on c xs \<noteq> []"
  by (induction xs) (auto split: list.splits)

lemma split_on_no_sep [go_string]: "c \<notin> set xs \<Longrightarrow> split_on c xs = [xs]"
  by (induction xs) auto

lemma split_on_append_sep [go_string]:
  "split_on c (xs @ c # ys) = split_on c xs @ split_on c ys"
proof (induction xs)
  case (Cons x xs)
  then show ?case
    by (cases "split_on c xs") auto
qed simp

lemma set_split_on: "p \<in> set (split_on c xs) \<Longrightarrow> c \<notin> set p"
proof (induction xs arbitrary: p)
  case (Cons x xs)
  then show ?case
    by (cases "split_on c xs") (auto split: if_splits)
qed simp

lemma last_index_bounds: "-1 \<le> last_index c xs \<and> last_index c xs < int (length xs)"
  by (induction xs) (auto simp: Let_def)

lemma last_index_neg [go_string]: "last_index c xs = -1 \<longleftrightarrow> c \<notin> set xs"
proof (induction xs)
  case (Cons x xs)
  have "-1 \<le> last_index c xs" using last_index_bounds[of c xs] by simp
  with Cons show ?case by (auto simp: Let_def)
qed simp

lemma last_index_append_sep [go_string]:
  "c \<notin> set ys \<Longrightarrow> last_index c (xs @ c # ys) = int (length xs)"
proof (induction xs)
  case Nil
  then show ?case using last_index_neg[of c ys] by (simp add: Let_def)
qed (simp add: Let_def)

lemma last_index_split:
  assumes "c \<in> set xs"
  obtains ys zs where "xs = ys @ c # zs" and "c \<notin> set zs"
  using assms by (meson split_list_last)

end
