(* ===== verification/Queues.thy ===== *)
theory Queues
  imports Prelude
begin

text \<open>
  The two list-shaped containers: \<open>pkg/queue/queue.go\<close> (\<open>Queue\<close>, a mutex around Go's
  \<open>container/list\<close>, used for replica tasks) and \<open>sdfs/pipe.go\<close> (\<open>Pipe\<close>, the nodes a
  stream still has to visit).

  A Go \<open>interface{}\<close> is \<open>None\<close> for \<open>nil\<close> and \<open>Some v\<close> for a value.  Each method takes
  the mutex for its whole body, so a method is one atomic step and a concurrent
  history is a sequence of steps.

  The locale \<open>buffer\<close> states what both containers promise (nothing is lost, nothing is
  invented); \<open>fifo\<close> and \<open>lifo\<close> add the order.
\<close>

section \<open>Contracts\<close>

text \<open>
  \<open>take\<close> answers \<open>None\<close> for the sentinel (\<open>nil\<close>, the empty string) that the Go method
  returns on an empty container; \<open>invar\<close> says that the sentinel itself was never stored.
\<close>

locale buffer =
  fixes empty :: "'q"
    and put :: "'v \<Rightarrow> 'q \<Rightarrow> 'q"
    and take :: "'q \<Rightarrow> 'q \<times> 'v option"
    and content :: "'q \<Rightarrow> 'v list"
    and invar :: "'q \<Rightarrow> bool"
    and good :: "'v \<Rightarrow> bool"
  assumes invar_empty: "invar empty"
    and invar_put: "invar q \<Longrightarrow> good v \<Longrightarrow> invar (put v q)"
    and content_empty: "content empty = []"
    and put_end: "content (put v q) = content q @ [v]"
    and take_empty: "invar q \<Longrightarrow> content q = [] \<Longrightarrow> take q = (q, None)"
    and take_some: "invar q \<Longrightarrow> content q \<noteq> [] \<Longrightarrow>
      \<exists>v q'. take q = (q', Some v) \<and> invar q' \<and> mset (content q) = add_mset v (mset (content q'))"
begin

fun put_all :: "'v list \<Rightarrow> 'q \<Rightarrow> 'q" where
  "put_all [] q = q"
| "put_all (v # vs) q = put_all vs (put v q)"

fun drain :: "nat \<Rightarrow> 'q \<Rightarrow> 'v list" where
  "drain 0 q = []"
| "drain (Suc n) q = (case take q of (q', None) \<Rightarrow> [] | (q', Some v) \<Rightarrow> v # drain n q')"

lemma invar_put_all: "invar q \<Longrightarrow> \<forall>v \<in> set vs. good v \<Longrightarrow> invar (put_all vs q)"
  by (induction vs arbitrary: q) (simp_all add: invar_put)

lemma content_put_all: "content (put_all vs q) = content q @ vs"
  by (induction vs arbitrary: q) (simp_all add: put_end)

lemma mset_drain: "invar q \<Longrightarrow> length (content q) \<le> n \<Longrightarrow> mset (drain n q) = mset (content q)"
proof (induction n arbitrary: q)
  case (Suc n)
  show ?case
  proof (cases "content q = []")
    case True
    with Suc.prems show ?thesis by (simp add: take_empty)
  next
    case False
    with Suc.prems obtain v q' where t: "take q = (q', Some v)" "invar q'"
      and m: "mset (content q) = add_mset v (mset (content q'))"
      using take_some by blast
    from m have "length (content q) = Suc (length (content q'))"
      by (metis size_add_mset size_mset)
    with Suc t m show ?thesis by simp
  qed
qed simp

end

locale fifo = buffer +
  assumes take_front: "invar q \<Longrightarrow> content q \<noteq> [] \<Longrightarrow>
      \<exists>q'. take q = (q', Some (hd (content q))) \<and> invar q' \<and> content q' = tl (content q)"
begin

lemma drain_in_order: "invar q \<Longrightarrow> length (content q) \<le> n \<Longrightarrow> drain n q = content q"
proof (induction n arbitrary: q)
  case (Suc n)
  show ?case
  proof (cases "content q = []")
    case True
    with Suc.prems show ?thesis by (simp add: take_empty)
  next
    case False
    with Suc.prems obtain q' where
      "take q = (q', Some (hd (content q)))" "invar q'" "content q' = tl (content q)"
      using take_front by blast
    with False Suc show ?thesis by simp
  qed
qed simp

lemma put_all_drain:
  "\<forall>v \<in> set vs. good v \<Longrightarrow> drain (length vs) (put_all vs empty) = vs"
  by (simp add: drain_in_order invar_put_all invar_empty content_put_all content_empty)

end

locale lifo = buffer +
  assumes take_end: "invar q \<Longrightarrow> content q \<noteq> [] \<Longrightarrow>
      \<exists>q'. take q = (q', Some (last (content q))) \<and> invar q' \<and> content q' = butlast (content q)"
begin

lemma drain_reversed: "invar q \<Longrightarrow> length (content q) \<le> n \<Longrightarrow> drain n q = rev (content q)"
proof (induction n arbitrary: q)
  case (Suc n)
  show ?case
  proof (cases "content q = []")
    case True
    with Suc.prems show ?thesis by (simp add: take_empty)
  next
    case False
    with Suc.prems obtain q' where q': "take q = (q', Some (last (content q)))" "invar q'"
      "content q' = butlast (content q)"
      using take_end by blast
    obtain xs x where "content q = xs @ [x]" using False by (metis rev_exhaust)
    with Suc q' show ?thesis by simp
  qed
qed simp

lemma put_all_drain:
  "\<forall>v \<in> set vs. good v \<Longrightarrow> drain (length vs) (put_all vs empty) = rev vs"
  by (simp add: drain_reversed invar_put_all invar_empty content_put_all content_empty)

end

section \<open>Queue (\<open>pkg/queue/queue.go\<close>)\<close>

record 'v queue =
  ll :: "'v option list"

definition NewQueue :: "'v queue" where
  "NewQueue = \<lparr> ll = [] \<rparr>"

definition Queue_Push :: "'v queue \<Rightarrow> 'v option \<Rightarrow> 'v queue" where
  "Queue_Push q v = q\<lparr> ll := ll q @ [v] \<rparr>"

definition Queue_Pop :: "'v queue \<Rightarrow> 'v queue \<times> 'v option" where
  "Queue_Pop q = (case ll q of
       [] \<Rightarrow> (q, None)
     | f # rest \<Rightarrow> (q\<lparr> ll := rest \<rparr>, f))"

text \<open>Steps of concurrent producers and consumers, in the order in which they get the mutex.\<close>

datatype 'v qop = QPush 'v | QPop

fun queue_run :: "'v queue \<Rightarrow> 'v qop list \<Rightarrow> 'v queue \<times> 'v option list" where
  "queue_run q [] = (q, [])"
| "queue_run q (QPush v # ops) = queue_run (Queue_Push q (Some v)) ops"
| "queue_run q (QPop # ops) =
     (case Queue_Pop q of (q', r) \<Rightarrow>
        case queue_run q' ops of (q'', rs) \<Rightarrow> (q'', r # rs))"

fun pushed :: "'v qop list \<Rightarrow> 'v list" where
  "pushed [] = []"
| "pushed (QPush v # ops) = v # pushed ops"
| "pushed (QPop # ops) = pushed ops"

text \<open>The values taken out, in order; \<open>Pop\<close> on the empty queue returns \<open>nil\<close>.\<close>

definition received :: "'v option list \<Rightarrow> 'v list" where
  "received rs = map the (filter (\<lambda>r. r \<noteq> None) rs)"

lemma received_simps [simp]:
  "received [] = []" "received (None # rs) = received rs" "received (Some v # rs) = v # received rs"
  by (simp_all add: received_def)

lemma queue_run_conserves:
  assumes "None \<notin> set (ll q)" and "queue_run q ops = (q', rs)"
  shows "map the (ll q) @ pushed ops = received rs @ map the (ll q') \<and> None \<notin> set (ll q')"
  using assms
proof (induction ops arbitrary: q rs)
  case (Cons op ops)
  show ?case
  proof (cases op)
    case (QPush v)
    with Cons.prems Cons.IH[of "Queue_Push q (Some v)" rs] show ?thesis
      by (auto simp: Queue_Push_def)
  next
    case QPop
    show ?thesis
    proof (cases "ll q")
      case Nil
      with Cons.prems QPop Cons.IH[of q] show ?thesis
        by (auto simp: Queue_Pop_def split: prod.splits)
    next
      case (Cons f rest)
      then obtain v where "f = Some v" using Cons.prems(1) by (cases f) auto
      with Cons Cons.prems QPop Cons.IH[of "q\<lparr> ll := rest \<rparr>"] show ?thesis
        by (auto simp: Queue_Pop_def split: prod.splits)
    qed
  qed
qed auto

text \<open>A \<open>Queue\<close> that only receives values (never \<open>nil\<close>) meets the FIFO contract.\<close>

definition queue_content :: "'v queue \<Rightarrow> 'v list" where
  "queue_content q = map the (ll q)"

definition no_nil :: "'v queue \<Rightarrow> bool" where
  "no_nil q = (None \<notin> set (ll q))"

lemma no_nil_front:
  assumes "no_nil q" "queue_content q \<noteq> []"
  obtains v rest where "ll q = Some v # rest"
  using assms by (cases "ll q"; cases "hd (ll q)") (auto simp: queue_content_def no_nil_def)

interpretation qf: fifo NewQueue "\<lambda>v q. Queue_Push q (Some v)" Queue_Pop queue_content no_nil
  "\<lambda>_. True"
proof (unfold_locales, goal_cases)
  case (6 q)
  then obtain v rest where "ll q = Some v # rest" by (rule no_nil_front)
  with 6 show ?case by (auto simp: queue_content_def no_nil_def Queue_Pop_def)
next
  case (7 q)
  then obtain v rest where "ll q = Some v # rest" by (rule no_nil_front)
  with 7 show ?case by (auto simp: queue_content_def no_nil_def Queue_Pop_def)
qed (auto simp: NewQueue_def Queue_Push_def Queue_Pop_def queue_content_def no_nil_def)

section \<open>Pipe (\<open>sdfs/pipe.go\<close>)\<close>

record pipe =
  remainingNodes :: "string list"

definition Pipe_Push :: "pipe \<Rightarrow> string \<Rightarrow> pipe" where
  "Pipe_Push p node = p\<lparr> remainingNodes := remainingNodes p @ [node] \<rparr>"

definition Pipe_Pop :: "pipe \<Rightarrow> pipe \<times> string" where
  "Pipe_Pop p =
     (if 0 < length (remainingNodes p)
      then let result = remainingNodes p ! (length (remainingNodes p) - 1) in
           (p\<lparr> remainingNodes := take (length (remainingNodes p) - 1) (remainingNodes p) \<rparr>, result)
      else (p, ''''))"

definition pipe_take :: "pipe \<Rightarrow> pipe \<times> string option" where
  "pipe_take p = (case Pipe_Pop p of (p', r) \<Rightarrow> (p', if r = '''' then None else Some r))"

lemma Pipe_Pop_nonempty:
  "remainingNodes p \<noteq> [] \<Longrightarrow>
   Pipe_Pop p = (p\<lparr> remainingNodes := butlast (remainingNodes p) \<rparr>, last (remainingNodes p))"
  by (simp add: Pipe_Pop_def Let_def last_conv_nth butlast_conv_take)

interpretation pl: lifo "\<lparr> remainingNodes = [] \<rparr>" "\<lambda>v p. Pipe_Push p v" pipe_take
  remainingNodes "\<lambda>p. '''' \<notin> set (remainingNodes p)" "\<lambda>v. v \<noteq> ''''"
proof (unfold_locales, goal_cases)
  case (6 p)
  then obtain xs x where "remainingNodes p = xs @ [x]" by (metis rev_exhaust)
  with 6 show ?case by (auto simp: pipe_take_def Pipe_Pop_nonempty)
next
  case (7 p)
  then obtain xs x where "remainingNodes p = xs @ [x]" by (metis rev_exhaust)
  with 7 show ?case by (auto simp: pipe_take_def Pipe_Pop_nonempty)
qed (auto simp: Pipe_Push_def pipe_take_def Pipe_Pop_def)

fun pipe_pops :: "nat \<Rightarrow> pipe \<Rightarrow> string list" where
  "pipe_pops 0 p = []"
| "pipe_pops (Suc n) p = (case Pipe_Pop p of (p', r) \<Rightarrow> r # pipe_pops n p')"

lemma pipe_pops_rev:
  "n \<le> length (remainingNodes p) \<Longrightarrow> pipe_pops n p = take n (rev (remainingNodes p))"
proof (induction n arbitrary: p)
  case (Suc n)
  then obtain xs x where "remainingNodes p = xs @ [x]"
    by (metis list.size(3) not_less_eq_eq rev_exhaust zero_le)
  with Suc show ?case by (simp add: Pipe_Pop_nonempty)
qed simp

section \<open>Properties\<close>

lemma queue_run_snoc_pop:
  "queue_run q ops = (q', rs) \<Longrightarrow> queue_run q (ops @ [QPop]) = (fst (Queue_Pop q'), rs @ [snd (Queue_Pop q')])"
  by (induction q ops arbitrary: rs rule: queue_run.induct) (auto split: prod.splits)

text \<open>C32. In every interleaving of \<open>Push\<close> (of values) and \<open>Pop\<close> calls on a new queue, the values
  received, followed by the values still stored, are exactly the values pushed, in the order
  of the pushes: nothing is lost, duplicated or overtaken.  And a further \<open>Pop\<close> answers with the first value that has been pushed and not yet
  received; it answers \<open>nil\<close> exactly when all pushed values have been received.\<close>
theorem queue_history_fifo:
  "case queue_run NewQueue ops of (q, rs) \<Rightarrow> received rs @ map the (ll q) = pushed ops \<and>
     snd (queue_run NewQueue (ops @ [QPop])) =
       rs @ [if length (received rs) < length (pushed ops) then Some (pushed ops ! length (received rs)) else None]"
proof -
  obtain q rs where q: "queue_run NewQueue ops = (q, rs)" by force
  have c: "pushed ops = received rs @ map the (ll q)" "None \<notin> set (ll q)"
    using queue_run_conserves[of NewQueue ops, OF _ q] by (auto simp: NewQueue_def)
  have "snd (Queue_Pop q) = (if length (received rs) < length (pushed ops) then Some (pushed ops ! length (received rs)) else None)"
    using c by (cases "ll q") (auto simp: Queue_Pop_def)
  with q c(1) queue_run_snoc_pop[OF q] show ?thesis by simp
qed

text \<open>The nodes pushed on an empty pipe come out in reverse order, and once they are all out
  \<open>Pop\<close> answers the empty string: a pipe is a stack.\<close>
theorem pipe_pops_in_reverse:
  "pipe_pops (length ns) (fold (\<lambda>n p. Pipe_Push p n) ns \<lparr> remainingNodes = [] \<rparr>) = rev ns \<and>
   snd (Pipe_Pop \<lparr> remainingNodes = [] \<rparr>) = ''''"
proof -
  have "fold (\<lambda>n p. Pipe_Push p n) ns p = pl.put_all ns p" for p
    by (induction ns arbitrary: p) auto
  then show ?thesis
    by (simp add: pipe_pops_rev pl.content_put_all Pipe_Pop_def)
qed

end
