(* ===== verification/Codec.thy ===== *)
theory Codec
  imports Prelude
begin

text \<open>
  The commands of the replicated log and their wire format: \<open>raft/types.go\<close>,
  \<open>raft/addServer.go\<close>, \<open>raft/addNode.go\<close> and \<open>raft/file.go\<close>.

  A command travels as an \<open>Entry\<close> (type, term, bytes).  \<open>Serialize\<close> and \<open>Deserialize\<close> pick
  the converter from tables keyed by the Go type and by the entry type; a missing converter is
  a nil function, and calling it panics (\<open>None\<close> here).

  \<open>binary.Write\<close> and \<open>binary.Read\<close> of an \<open>int32\<close> in little-endian order are modelled with
  the reader's behaviour on short input: \<open>binary.Read\<close> consumes what is left and leaves the
  variable at its zero value, and every caller here ignores the error.
\<close>

unbundle bit_operations_syntax

type_synonym bytes = "byte list"

section \<open>Strings, bytes and binary integers\<close>

text \<open>The conversions \<open>[]byte(s)\<close> and \<open>string(b)\<close>.\<close>

definition to_bytes :: "string \<Rightarrow> bytes" where
  "to_bytes s = map (\<lambda>c. of_nat (of_char c)) s"

definition of_bytes :: "bytes \<Rightarrow> string" where
  "of_bytes b = map (\<lambda>x. char_of (unat x)) b"

definition write_int32 :: "i32 \<Rightarrow> bytes" where
  "write_int32 v = [ucast v, ucast (drop_bit 8 v), ucast (drop_bit 16 v), ucast (drop_bit 24 v)]"

text \<open>The value read and the bytes left in the reader.\<close>

fun read_int32 :: "bytes \<Rightarrow> i32 \<times> bytes" where
  "read_int32 (a # b # c # d # rest) =
     (ucast a OR push_bit 8 (ucast b) OR push_bit 16 (ucast c) OR push_bit 24 (ucast d), rest)"
| "read_int32 _ = (0, [])"

section \<open>Commands and entries\<close>

record add_server =
  ServerAddr :: string
  ServerId :: i32

record add_node =
  asnID :: i32
  NodeAddr :: string

record add_file =
  HostNum :: i32
  PathLength :: i32
  afHost :: "i32 list"
  afPath :: string
  afHash :: string

text \<open>The dynamic type of a command (\<open>reflect.TypeOf\<close>); \<open>CNil\<close> is the nil interface of the
  sentinel log entry.\<close>

datatype command = CNil | CAddServer add_server | CAddNode add_node | CAddFile add_file

datatype cmd_type = TNil | TAddServer | TAddNode | TAddFile

fun type_of :: "command \<Rightarrow> cmd_type" where
  "type_of CNil = TNil"
| "type_of (CAddServer a) = TAddServer"
| "type_of (CAddNode a) = TAddNode"
| "type_of (CAddFile a) = TAddFile"

record entry =
  eType :: i32
  eTerm :: u64
  eData :: bytes

record log_entry =
  Command :: command
  Term :: u64

section \<open>Converters\<close>

fun AddServerStructToEntry :: "command \<Rightarrow> entry option" where
  "AddServerStructToEntry (CAddServer a) =
     Some \<lparr> eType = 1, eTerm = 0, eData = write_int32 (ServerId a) @ to_bytes (ServerAddr a) \<rparr>"
| "AddServerStructToEntry _ = None"

definition EntryToAddServerStruct :: "entry \<Rightarrow> command option" where
  "EntryToAddServerStruct e =
     (let (v, r) = read_int32 (eData e) in Some (CAddServer \<lparr> ServerAddr = of_bytes r, ServerId = v \<rparr>))"

fun AddNodeStructToEntry :: "command \<Rightarrow> entry option" where
  "AddNodeStructToEntry (CAddNode a) =
     Some \<lparr> eType = 3, eTerm = 0, eData = write_int32 (asnID a) @ to_bytes (NodeAddr a) \<rparr>"
| "AddNodeStructToEntry _ = None"

definition EntryToAddNodeStruct :: "entry \<Rightarrow> command option" where
  "EntryToAddNodeStruct e =
     (let (v, r) = read_int32 (eData e) in Some (CAddNode \<lparr> asnID = v, NodeAddr = of_bytes r \<rparr>))"

fun AddFileStructToEntry :: "command \<Rightarrow> entry option" where
  "AddFileStructToEntry (CAddFile a) =
     Some \<lparr> eType = 2, eTerm = 0,
       eData = write_int32 (HostNum a) @ write_int32 (PathLength a) @
         concat (map write_int32 (afHost a)) @ to_bytes (afPath a) @ to_bytes (afHash a) \<rparr>"
| "AddFileStructToEntry _ = None"

text \<open>\<open>for i := 0; i < int(a.HostNum); i++\<close>: no iteration for a negative count.\<close>

fun read_hosts :: "nat \<Rightarrow> bytes \<Rightarrow> i32 list \<times> bytes" where
  "read_hosts 0 r = ([], r)"
| "read_hosts (Suc n) r =
     (let (v, r1) = read_int32 r; (vs, r2) = read_hosts n r1 in (v # vs, r2))"

definition EntryToAddFileStruct :: "entry \<Rightarrow> command option" where
  "EntryToAddFileStruct e =
     (let (hn, r1) = read_int32 (eData e);
          (pl, r2) = read_int32 r1;
          (hosts, r3) = read_hosts (nat (sint hn)) r2 in
      case (slice_from r3 (sint pl), slice_to r3 (sint pl)) of
        (Some hash, Some path) \<Rightarrow>
          Some (CAddFile \<lparr> HostNum = hn, PathLength = pl, afHost = hosts, afPath = of_bytes path,
            afHash = of_bytes hash \<rparr>)
      | _ \<Rightarrow> None)"

section \<open>The registry\<close>

record registry =
  cmdEntryHandler :: "cmd_type \<rightharpoonup> (command \<Rightarrow> entry option)"
  entryCmdHandler :: "i32 \<rightharpoonup> (entry \<Rightarrow> command option)"
  cmdEntryId :: "cmd_type \<rightharpoonup> i32"
  entryCmdId :: "i32 \<rightharpoonup> cmd_type"
  cmdIdExecutor :: "i32 \<rightharpoonup> cmd_type"

text \<open>\<open>cmdIdExecutor\<close> holds function values; they are named by the command type whose executor
  they are, and \<open>Raft_Exec\<close> gives the executors themselves.\<close>

definition RegisterCommandConversionHandler ::
  "i32 \<Rightarrow> cmd_type \<Rightarrow> (command \<Rightarrow> entry option) \<Rightarrow> (entry \<Rightarrow> command option) \<Rightarrow> cmd_type
   \<Rightarrow> registry \<Rightarrow> registry" where
  "RegisterCommandConversionHandler cid t ceh ech ce r =
     \<lparr> cmdEntryHandler = (cmdEntryHandler r)(t \<mapsto> ceh),
       entryCmdHandler = (entryCmdHandler r)(cid \<mapsto> ech),
       cmdEntryId = (cmdEntryId r)(t \<mapsto> cid),
       entryCmdId = (entryCmdId r)(cid \<mapsto> t),
       cmdIdExecutor = (cmdIdExecutor r)(cid \<mapsto> ce) \<rparr>"

definition init_registry :: registry where
  "init_registry =
     RegisterCommandConversionHandler 1 TAddServer AddServerStructToEntry EntryToAddServerStruct TAddServer
       (RegisterCommandConversionHandler 3 TAddNode AddNodeStructToEntry EntryToAddNodeStruct TAddNode
         \<lparr> cmdEntryHandler = Map.empty, entryCmdHandler = Map.empty, cmdEntryId = Map.empty,
           entryCmdId = Map.empty, cmdIdExecutor = Map.empty \<rparr>)"

definition Serialize :: "log_entry \<Rightarrow> entry option" where
  "Serialize le = (case cmdEntryHandler init_registry (type_of (Command le)) of
       Some f \<Rightarrow> f (Command le)
     | None \<Rightarrow> None)"

definition Deserialize :: "entry \<Rightarrow> command option" where
  "Deserialize e = (case entryCmdHandler init_registry (eType e) of
       Some f \<Rightarrow> f e
     | None \<Rightarrow> None)"

text \<open>A Go map read of a missing key gives the zero value.\<close>

definition EntryType :: "command \<Rightarrow> i32" where
  "EntryType v = (case cmdEntryId init_registry (type_of v) of Some i \<Rightarrow> i | None \<Rightarrow> 0)"

section \<open>Round trips\<close>

lemma of_to_bytes [simp]: "of_bytes (to_bytes s) = s"
proof -
  have "unat (of_nat (of_char c) :: byte) = of_char c" for c
    using nat_of_char_less_256[of c] by (simp add: unat_of_nat)
  then show ?thesis by (simp add: of_bytes_def to_bytes_def comp_def)
qed

lemma length_to_bytes [simp]: "length (to_bytes s) = length s"
  by (simp add: to_bytes_def)

lemma read_write_int32 [simp]: "read_int32 (write_int32 v @ r) = (v, r)"
proof -
  have "ucast (ucast v :: byte) OR push_bit 8 (ucast (ucast (drop_bit 8 v) :: byte)) OR
    push_bit 16 (ucast (ucast (drop_bit 16 v) :: byte)) OR
    push_bit 24 (ucast (ucast (drop_bit 24 v) :: byte)) = v"
    (is "?l = v")
  proof (rule bit_word_eqI)
    fix n assume "n < LENGTH(32)"
    then show "bit ?l n \<longleftrightarrow> bit v n" by (cases "n < 8"; cases "n < 16"; cases "n < 24") (auto simp: bit_simps)
  qed
  then show ?thesis by (simp add: write_int32_def)
qed

lemma length_write_int32 [simp]: "length (write_int32 v) = 4"
  by (simp add: write_int32_def)

lemma read_hosts_concat [simp]:
  "read_hosts (length hs) (concat (map write_int32 hs) @ r) = (hs, r)"
  by (induction hs) simp_all

text \<open>
  The contract between a command type and the log: a converter pair with its entry type.
  \<open>wf\<close> are the commands whose redundant length fields are right.
\<close>

locale codec =
  fixes enc :: "command \<Rightarrow> entry option"
    and dec :: "entry \<Rightarrow> command option"
    and tag :: i32
    and kind :: cmd_type
    and wf :: "command \<Rightarrow> bool"
  assumes enc_total: "type_of c = kind \<Longrightarrow> \<exists>e. enc c = Some e \<and> eType e = tag \<and> eTerm e = 0"
    and round_trip: "type_of c = kind \<Longrightarrow> wf c \<Longrightarrow> enc c = Some e \<Longrightarrow> dec e = Some c"
    and dec_kind: "dec e = Some c \<Longrightarrow> type_of c = kind"
begin

lemma enc_inj:
  assumes "type_of c = kind" "type_of d = kind" "wf c" "wf d" "enc c = enc d"
  shows "c = d"
proof -
  obtain e where "enc c = Some e" using enc_total[OF assms(1)] by blast
  moreover from this have "enc d = Some e" using assms(5) by simp
  ultimately have "dec e = Some c" "dec e = Some d" using round_trip assms(1-4) by blast+
  then show ?thesis by simp
qed

lemma enc_dec_ex:
  assumes "type_of c = kind" "wf c"
  obtains e where "enc c = Some e" "eType e = tag" "eTerm e = 0" "dec e = Some c"
  using enc_total[OF assms(1)] round_trip[OF assms] by blast

end

definition file_wf :: "command \<Rightarrow> bool" where
  "file_wf c = (case c of CAddFile a \<Rightarrow>
       sint (HostNum a) = int (length (afHost a)) \<and> sint (PathLength a) = int (length (afPath a))
     | _ \<Rightarrow> True)"

interpretation server_codec: codec AddServerStructToEntry EntryToAddServerStruct 1 TAddServer "\<lambda>_. True"
proof (unfold_locales, goal_cases)
  case (1 c)
  then show ?case by (cases c) auto
next
  case (2 c e)
  then show ?case by (cases c) (auto simp: EntryToAddServerStruct_def)
qed (auto simp: EntryToAddServerStruct_def split: prod.splits)

interpretation node_codec: codec AddNodeStructToEntry EntryToAddNodeStruct 3 TAddNode "\<lambda>_. True"
proof (unfold_locales, goal_cases)
  case (1 c)
  then show ?case by (cases c) auto
next
  case (2 c e)
  then show ?case by (cases c) (auto simp: EntryToAddNodeStruct_def)
qed (auto simp: EntryToAddNodeStruct_def split: prod.splits)

interpretation file_codec: codec AddFileStructToEntry EntryToAddFileStruct 2 TAddFile file_wf
proof (unfold_locales, goal_cases)
  case (1 c)
  then show ?case by (cases c) auto
next
  case (2 c e)
  then obtain a where "c = CAddFile a" by (cases c) auto
  with 2 show ?case
    by (auto simp: EntryToAddFileStruct_def file_wf_def slice_from_def slice_to_def)
qed (auto simp: EntryToAddFileStruct_def split: prod.splits option.splits)

section \<open>Properties\<close>

lemma handler_of:
  "cmdEntryHandler init_registry t =
     (case t of TAddServer \<Rightarrow> Some AddServerStructToEntry | TAddNode \<Rightarrow> Some AddNodeStructToEntry
      | _ \<Rightarrow> None)"
  by (cases t) (simp_all add: init_registry_def RegisterCommandConversionHandler_def)

lemma decoder_of:
  "entryCmdHandler init_registry i =
     (if i = 1 then Some EntryToAddServerStruct else if i = 3 then Some EntryToAddNodeStruct else None)"
  by (simp add: init_registry_def RegisterCommandConversionHandler_def)

lemma Serialize_cases:
  "Serialize \<lparr> Command = CAddServer a, Term = t \<rparr> = AddServerStructToEntry (CAddServer a)"
  "Serialize \<lparr> Command = CAddNode n, Term = t \<rparr> = AddNodeStructToEntry (CAddNode n)"
  "Serialize \<lparr> Command = CAddFile f, Term = t \<rparr> = None"
  "Serialize \<lparr> Command = CNil, Term = t \<rparr> = None"
  by (simp_all add: Serialize_def handler_of)

definition registered :: "command \<Rightarrow> bool" where
  "registered c = (type_of c = TAddServer \<or> type_of c = TAddNode)"

lemma registered_simps [simp]: "registered (CAddNode a)" "registered (CAddServer b)"
  "\<not> registered (CAddFile f)" "\<not> registered CNil"
  by (simp_all add: registered_def)

lemma Serialize_registered:
  assumes "registered c"
  shows "\<exists>e. Serialize \<lparr> Command = c, Term = t \<rparr> = Some e \<and> Deserialize e = Some c \<and>
    eType e = EntryType c \<and> eTerm e = 0"
proof (cases c)
  case (CAddServer a)
  with server_codec.enc_dec_ex[of c] show ?thesis
    by (auto simp: Serialize_cases Deserialize_def decoder_of EntryType_def init_registry_def
        RegisterCommandConversionHandler_def EntryToAddServerStruct_def)
next
  case (CAddNode n)
  with node_codec.enc_dec_ex[of c] show ?thesis
    by (auto simp: Serialize_cases Deserialize_def decoder_of EntryType_def init_registry_def
        RegisterCommandConversionHandler_def EntryToAddNodeStruct_def)
qed (use assms in \<open>simp_all add: registered_def\<close>)

text \<open>C19. The log's wire format loses no command: what \<open>Serialize\<close> makes of an \<open>AddServer\<close> or
  \<open>AddNode\<close> command, \<open>Deserialize\<close> turns back into the same command, under the registered entry
  type.  It does lose the term: every entry that leaves a master carries term 0, whatever the term
  of the log entry.\<close>
theorem Serialize_round_trip:
  assumes "registered c"
  shows "\<exists>e. Serialize \<lparr> Command = c, Term = t \<rparr> = Some e \<and> Deserialize e = Some c \<and>
    eType e = EntryType c \<and> eTerm e = 0"
  by (rule Serialize_registered[OF assms])

theorem Serialize_round_trip_witness:
  "\<exists>e. Serialize \<lparr> Command = CAddNode \<lparr> asnID = 5, NodeAddr = ''h'' \<rparr>, Term = 9 \<rparr> = Some e \<and> eTerm e = 0"
  using Serialize_round_trip[of "CAddNode \<lparr> asnID = 5, NodeAddr = ''h'' \<rparr>" 9]
  by (auto simp: registered_def)

text \<open>The converters of \<open>AddFile\<close> commands are inverse to each other when the two length fields
  match the host list and the path; with a path length that exceeds the bytes present, decoding
  panics.  No table knows the type: serialising or receiving an \<open>AddFile\<close> command panics.\<close>
theorem AddFile_codec:
  assumes "file_wf (CAddFile a)" and "int (length r) < sint pl"
  shows "(\<exists>e. AddFileStructToEntry (CAddFile a) = Some e \<and> EntryToAddFileStruct e = Some (CAddFile a) \<and>
      Deserialize e = None) \<and>
    Serialize \<lparr> Command = CAddFile a, Term = t \<rparr> = None \<and>
    EntryToAddFileStruct \<lparr> eType = 2, eTerm = 0, eData = write_int32 0 @ write_int32 pl @ r \<rparr> = None"
proof -
  obtain e where "AddFileStructToEntry (CAddFile a) = Some e" "eType e = 2"
    "EntryToAddFileStruct e = Some (CAddFile a)"
    using file_codec.enc_dec_ex[of "CAddFile a"] assms(1) by auto
  then show ?thesis
    using assms(2)
    by (auto simp: Deserialize_def decoder_of Serialize_cases EntryToAddFileStruct_def
        slice_from_def slice_to_def)
qed

theorem AddFile_codec_witness:
  "\<exists>e. AddFileStructToEntry (CAddFile \<lparr> HostNum = 2, PathLength = 1, afHost = [4, -1],
      afPath = ''/'', afHash = ''AB'' \<rparr>) = Some e \<and>
    EntryToAddFileStruct e = Some (CAddFile \<lparr> HostNum = 2, PathLength = 1, afHost = [4, -1],
      afPath = ''/'', afHash = ''AB'' \<rparr>)"
  using AddFile_codec[of "\<lparr> HostNum = 2, PathLength = 1, afHost = [4, -1],
      afPath = ''/'', afHash = ''AB'' \<rparr>" "[]" 1]
  by (auto simp: file_wf_def)

end
