(* ===== verification/Raft_Model.thy ===== *)
theory Raft_Model
  imports Codec
begin

text \<open>
  \<open>raft/raft.go\<close> and the executors of \<open>raft/addServer.go\<close>, \<open>raft/addNode.go\<close>: the
  consensus module of a master.

  One server is the record \<open>server\<close>.  A goroutine of the Go code is a sequence of the steps
  below, in the order of the code, other steps running in between: an election is
  \<open>startElection\<close>, then for each peer \<open>vote_request\<close> (what is sent) and \<open>vote_reply\<close> (what is
  done with the answer); a heartbeat round is \<open>leaderSendHeartbeats\<close>, then for each peer
  \<open>hb_request\<close> and \<open>hb_response\<close>; an election timer is \<open>timer_start\<close> and its ticks.  The
  handlers \<open>AppendEntries\<close>, \<open>RequestVote\<close> and \<open>Submit\<close> hold the mutex for their whole body.

  The mutex \<open>cm.mu\<close> is the flag \<open>cmu\<close>.  Taking it while it is set is \<open>Block\<close>.
  \<open>cm.newCommitReadyChan\<close> is nil: no code of the repository assigns it, so that a send on it
  is \<open>Block\<close> (with the mutex held).  Time and the results of \<open>rand\<close> and of \<open>grpc.Dial\<close> are
  arguments.  \<open>float64\<close> values, which the code only stores, are their bit patterns.
\<close>

section \<open>Data\<close>

datatype cm_state = FOLLOWER | LEADER | CANDIDATE | DEAD

fun CMState_String :: "cm_state \<Rightarrow> string" where
  "CMState_String FOLLOWER = ''FOLLOWER''"
| "CMState_String LEADER = ''LEADER''"
| "CMState_String CANDIDATE = ''CANDIDATE''"
| "CMState_String DEAD = ''DEAD''"

text \<open>An election timer goroutine: started by \<open>go\<close> but not yet run, ticking with the term and the
  duration it has read, or finished.\<close>

datatype timer = TSpawned | TRunning u64 int | TDone

record consensus_module =
  cmId :: i32
  peerIds :: "i32 list"
  nextIndex :: "i32 \<rightharpoonup> u64"
  matchIndex :: "i32 \<rightharpoonup> u64"
  lastApplied :: u64
  currentTerm :: u64
  votedFor :: i32
  cmLog :: "log_entry list"
  currentLeader :: i32
  commitIndex :: u64
  cmState :: cm_state
  electionResetEvent :: int
  cmu :: bool
  timers :: "timer list"
  elections :: "(u64 \<times> nat) list"
  hbLoops :: nat

text \<open>\<open>elections\<close> holds, for each call of \<open>startElection\<close>, its local variables
  \<open>savedCurrentTerm\<close> and \<open>voteReceived\<close>, which its goroutines share; \<open>hbLoops\<close> counts the
  running heartbeat goroutines.\<close>

record node =
  nAddr :: string
  nID :: i32
  CpuUsage :: u64
  MemUsage :: u64
  nSize :: i64
  Disk :: i64
  LastHeartbeat :: i64

text \<open>A peer's client is the address it was dialled with; \<open>None\<close> inside the map is a client on
  a nil connection (the dial failed).  \<open>nodes\<close> and \<open>nodeAddr\<close> point at node objects.\<close>

record server =
  cm :: consensus_module
  sAddr :: string
  peers :: "i32 \<rightharpoonup> string option"
  peerAddr :: "i32 \<rightharpoonup> string"
  nodes :: "i32 \<rightharpoonup> nat"
  nodeAddr :: "string \<rightharpoonup> nat"
  nodeObjs :: "node list"
  logFile :: "entry list"

record append_request =
  aeTerm :: u64
  aeLeaderId :: i32
  aePrevLogIndex :: u64
  aePrevLogTerm :: u64
  aeEntries :: "entry list"
  aeLeaderCommit :: u64

record append_response =
  arTerm :: u64
  arSuccess :: bool
  arLeaderId :: i32

record vote_req =
  rvTerm :: u64
  rvCandidateId :: i32
  rvLastLogIndex :: u64
  rvLastLogTerm :: u64

record vote_resp =
  vrTerm :: u64
  vrGranted :: bool

definition upd_cm :: "(consensus_module \<Rightarrow> consensus_module) \<Rightarrow> server \<Rightarrow> server" where
  "upd_cm f s = s\<lparr> cm := f (cm s) \<rparr>"

definition with_cm_lock :: "(server \<Rightarrow> (server, 'a) outcome) \<Rightarrow> server \<Rightarrow> (server, 'a) outcome" where
  "with_cm_lock body s =
     (if cmu (cm s) then Block s
      else case body (upd_cm (cmu_update (\<lambda>_. True)) s) of
        Ret t a \<Rightarrow> Ret (upd_cm (cmu_update (\<lambda>_. False)) t) a
      | Panic t \<Rightarrow> Panic (upd_cm (cmu_update (\<lambda>_. False)) t)
      | Block t \<Rightarrow> Block t)"

text \<open>A Go map read: the zero value for a missing key.\<close>

definition map_get :: "('k \<rightharpoonup> u64) \<Rightarrow> 'k \<Rightarrow> u64" where
  "map_get m k = (case m k of Some v \<Rightarrow> v | None \<Rightarrow> 0)"

section \<open>Construction and getters\<close>

definition NewConsensusModule :: "i32 \<Rightarrow> consensus_module" where
  "NewConsensusModule rnd =
     \<lparr> cmId = rnd, peerIds = [], nextIndex = Map.empty, matchIndex = Map.empty, lastApplied = 0, currentTerm = 0,
       votedFor = -1, cmLog = [\<lparr> Command = CNil, Term = 0 \<rparr>], currentLeader = 0, commitIndex = 0,
       cmState = FOLLOWER, electionResetEvent = 0, cmu = False, timers = [], elections = [],
       hbLoops = 0 \<rparr>"

text \<open>The goroutine that waits for \<open>ready\<close>: it resets the clock and becomes an election timer.\<close>

definition cm_ready :: "int \<Rightarrow> server \<Rightarrow> (server, unit) outcome" where
  "cm_ready now s =
     (if cmu (cm s) then Block s
      else Ret (upd_cm (\<lambda>c. c\<lparr> electionResetEvent := now, timers := timers c @ [TSpawned] \<rparr>) s) ())"

definition CurrentLeader :: "server \<Rightarrow> (server, i32) outcome" where
  "CurrentLeader s = (if cmu (cm s) then Block s else Ret s (currentLeader (cm s)))"

definition CM_State :: "server \<Rightarrow> (server, cm_state) outcome" where
  "CM_State s = (if cmu (cm s) then Block s else Ret s (cmState (cm s)))"

definition lastLogIndexAndTerm :: "consensus_module \<Rightarrow> u64 \<times> u64" where
  "lastLogIndexAndTerm c =
     (if 0 < length (cmLog c)
      then let lastIndex = length (cmLog c) - 1 in (of_nat lastIndex, Term (cmLog c ! lastIndex))
      else (0, 0))"

definition Submit :: "command \<Rightarrow> server \<Rightarrow> (server, bool \<times> i32) outcome" where
  "Submit cmd = with_cm_lock (\<lambda>s.
     if cmState (cm s) = LEADER then
       (let le = \<lparr> Command = cmd, Term = currentTerm (cm s) \<rparr>;
            s1 = upd_cm (\<lambda>c. c\<lparr> cmLog := cmLog c @ [le] \<rparr>) s in
        case Serialize le of
          None \<Rightarrow> Panic s1
        | Some e \<Rightarrow> Ret (s1\<lparr> logFile := logFile s1 @ [e] \<rparr>) (True, cmId (cm s1)))
     else Ret s (False, currentLeader (cm s)))"

section \<open>Roles\<close>

definition becomeFollower :: "int \<Rightarrow> u64 \<Rightarrow> i32 \<Rightarrow> consensus_module \<Rightarrow> consensus_module" where
  "becomeFollower now term leader c =
     c\<lparr> cmState := FOLLOWER, currentTerm := term, currentLeader := leader, votedFor := -1,
        electionResetEvent := now, timers := timers c @ [TSpawned] \<rparr>"

definition startLeader :: "server \<Rightarrow> (server, unit) outcome" where
  "startLeader s =
     (let s1 = upd_cm (cmState_update (\<lambda>_. LEADER)) s in
      if cmu (cm s1) then Block s1
      else Ret (upd_cm (\<lambda>c. c\<lparr> currentLeader := cmId c, hbLoops := hbLoops c + 1 \<rparr>) s1) ())"

text \<open>\<open>startElection\<close> writes the fields without the mutex and starts one goroutine per peer; the
  result lists them as peer and index of the election.\<close>

definition startElection :: "int \<Rightarrow> server \<Rightarrow> (server, (i32 \<times> nat) list) outcome" where
  "startElection now s =
     (let s1 = upd_cm (\<lambda>c. c\<lparr> cmState := CANDIDATE, currentTerm := currentTerm c + 1,
                 electionResetEvent := now, votedFor := cmId c,
                 elections := elections c @ [(currentTerm c + 1, 1)] \<rparr>) s in
      if peerIds (cm s1) = [] then obind (startLeader s1) (\<lambda>s2 _. Ret s2 [])
      else Ret s1 (map (\<lambda>p. (p, length (elections (cm s)))) (peerIds (cm s1))))"

text \<open>The first half of the goroutine of one peer, up to the call.  The mutex has been released when the client is used;
  a call through a missing client, or through a client on a nil connection, panics.\<close>

definition vote_request :: "i32 \<Rightarrow> nat \<Rightarrow> server \<Rightarrow> (server, vote_req) outcome" where
  "vote_request peerId el s =
     (if cmu (cm s) then Block s
      else case lastLogIndexAndTerm (cm s) of (savedLastLogIndex, savedLastLogTerm) \<Rightarrow>
        case peers s peerId of
          Some (Some client) \<Rightarrow>
            Ret s \<lparr> rvTerm = fst (elections (cm s) ! el), rvCandidateId = cmId (cm s),
                    rvLastLogIndex = savedLastLogIndex, rvLastLogTerm = savedLastLogTerm \<rparr>
        | _ \<Rightarrow> Panic s)"

text \<open>The answer to a vote request.  The branch \<open>reply.Term < savedCurrentTerm\<close> returns without
  \<open>Unlock\<close>.\<close>

definition vote_reply :: "int \<Rightarrow> i32 \<Rightarrow> nat \<Rightarrow> vote_resp \<Rightarrow> server \<Rightarrow> (server, unit) outcome" where
  "vote_reply now peerId el reply s =
     (let c = cm s; savedCurrentTerm = fst (elections c ! el); voteReceived = snd (elections c ! el) in
      if cmu c then Block s
      else if cmState c \<noteq> CANDIDATE then Ret s ()
      else if vrTerm reply > savedCurrentTerm then
        Ret (upd_cm (becomeFollower now (vrTerm reply) peerId) s) ()
      else if vrTerm reply = savedCurrentTerm then
        if vrGranted reply then
          (let s1 = upd_cm (\<lambda>c. c\<lparr> elections := (elections c)[el := (savedCurrentTerm, voteReceived + 1)] \<rparr>) s in
           if (voteReceived + 1) * 2 > length (peerIds c) + 1 then startLeader s1 else Ret s1 ())
        else Ret s ()
      else Ret (upd_cm (cmu_update (\<lambda>_. True)) s) ())"

section \<open>Election timers\<close>

text \<open>In milliseconds; \<open>force\<close> is whether \<open>RAFT_FORCE_MORE_REELECTION\<close> is set, \<open>r3\<close> and \<open>r\<close> are the
  results of \<open>rand.Intn(3)\<close> and \<open>rand.Intn(maxRTT)\<close>.\<close>

definition maxRTT :: int where
  "maxRTT = 500"

definition electionTimeout :: "bool \<Rightarrow> int \<Rightarrow> int \<Rightarrow> int" where
  "electionTimeout force r3 r = (if force \<and> r3 = 0 then maxRTT else 8 * maxRTT + r)"

definition timer_start :: "int \<Rightarrow> nat \<Rightarrow> server \<Rightarrow> (server, unit) outcome" where
  "timer_start timeoutDuration i s =
     (if cmu (cm s) then Block s
      else Ret (upd_cm (\<lambda>c. c\<lparr> timers := (timers c)[i := TRunning (currentTerm c) timeoutDuration] \<rparr>) s) ())"

definition timer_tick :: "int \<Rightarrow> nat \<Rightarrow> server \<Rightarrow> (server, (i32 \<times> nat) list) outcome" where
  "timer_tick now i s = (case timers (cm s) ! i of
       TRunning termStarted timeoutDuration \<Rightarrow>
         (let stop = upd_cm (\<lambda>c. c\<lparr> timers := (timers c)[i := TDone] \<rparr>) s in
          if cmu (cm s) then Block s
          else if cmState (cm s) \<noteq> CANDIDATE \<and> cmState (cm s) \<noteq> FOLLOWER then Ret stop []
          else if termStarted \<noteq> currentTerm (cm s) then Ret stop []
          else if now - electionResetEvent (cm s) \<ge> timeoutDuration then startElection now stop
          else Ret s [])
     | _ \<Rightarrow> Ret s [])"

section \<open>Executors\<close>

text \<open>\<open>AddServerExecutor\<close> runs without the mutex; \<open>dial\<close> says whether \<open>grpc.Dial\<close> of an address
  succeeds.\<close>

fun AddServerExecutor :: "(string \<Rightarrow> bool) \<Rightarrow> command \<Rightarrow> server \<Rightarrow> (server, unit) outcome" where
  "AddServerExecutor dial (CAddServer a) s =
     (if cmId (cm s) = ServerId a then Ret s ()
      else
        let s1 = upd_cm (\<lambda>c. c\<lparr> peerIds := peerIds c @ [ServerId a] \<rparr>) s in
        Ret (s1\<lparr> peers := (peers s1)(ServerId a \<mapsto>
               (if dial (ServerAddr a) then Some (ServerAddr a) else None)) \<rparr>) ())"
| "AddServerExecutor dial _ s = Panic s"

definition add_node_obj :: "node \<Rightarrow> server \<Rightarrow> server" where
  "add_node_obj n s =
     s\<lparr> nodeObjs := nodeObjs s @ [n],
        nodeAddr := (nodeAddr s)(nAddr n \<mapsto> length (nodeObjs s)),
        nodes := (nodes s)(nID n \<mapsto> length (nodeObjs s)) \<rparr>"

fun AddNodeExecutor :: "command \<Rightarrow> server \<Rightarrow> (server, unit) outcome" where
  "AddNodeExecutor (CAddNode a) s =
     with_cm_lock (\<lambda>s. Ret (add_node_obj \<lparr> nAddr = NodeAddr a, nID = asnID a, CpuUsage = 0,
        MemUsage = 0, nSize = 0, Disk = 0, LastHeartbeat = 0 \<rparr> s) ()) s"
| "AddNodeExecutor _ s = Panic s"

definition Execute :: "(string \<Rightarrow> bool) \<Rightarrow> entry \<Rightarrow> server \<Rightarrow> (server, command) outcome" where
  "Execute dial e s = (case Deserialize e of
       None \<Rightarrow> Panic s
     | Some og \<Rightarrow>
         obind (case cmdIdExecutor init_registry (eType e) of
             Some TAddServer \<Rightarrow> AddServerExecutor dial og s
           | Some TAddNode \<Rightarrow> AddNodeExecutor og s
           | _ \<Rightarrow> Panic s) (\<lambda>s1 _. Ret s1 og))"

section \<open>AppendEntries\<close>

text \<open>The consistency check of the request against the log.\<close>

definition prev_ok :: "append_request \<Rightarrow> log_entry list \<Rightarrow> bool" where
  "prev_ok req lg \<longleftrightarrow>
     aePrevLogIndex req = 0 \<or>
     unat (aePrevLogIndex req) < length lg \<and> aePrevLogTerm req = Term (lg ! unat (aePrevLogIndex req))"

text \<open>The loop that skips the entries the log already has: \<open>li\<close> is \<open>logInsertIndex\<close>, \<open>ni\<close> is
  \<open>newEntriesIndex\<close>.\<close>

function match_entries :: "log_entry list \<Rightarrow> entry list \<Rightarrow> nat \<Rightarrow> nat \<Rightarrow> nat \<times> nat" where
  "match_entries lg es li ni =
     (if length lg \<le> li \<or> length es \<le> ni then (li, ni)
      else if Term (lg ! li) \<noteq> eTerm (es ! ni) then (li, ni)
      else match_entries lg es (Suc li) (Suc ni))"
  by pat_completeness auto
termination
  by (relation "measure (\<lambda>(lg, es, li, ni). length es - ni)") auto

text \<open>The local function \<open>f\<close>: each entry is written to the log file and executed.\<close>

fun apply_entries :: "(string \<Rightarrow> bool) \<Rightarrow> entry list \<Rightarrow> server \<Rightarrow> (server, log_entry list) outcome" where
  "apply_entries dial [] s = Ret s []"
| "apply_entries dial (k # ks) s =
     obind (Execute dial k (s\<lparr> logFile := logFile s @ [k] \<rparr>)) (\<lambda>s1 og.
       obind (apply_entries dial ks s1) (\<lambda>s2 r.
         Ret s2 (\<lparr> Command = og, Term = eTerm k \<rparr> # r)))"

definition append_new :: "(string \<Rightarrow> bool) \<Rightarrow> append_request \<Rightarrow> server \<Rightarrow> (server, unit) outcome" where
  "append_new dial req s =
     (case match_entries (cmLog (cm s)) (aeEntries req) (unat (aePrevLogIndex req + 1)) 0 of
        (logInsertIndex, newEntriesIndex) \<Rightarrow>
          if newEntriesIndex < length (aeEntries req) then
            obind (apply_entries dial (drop newEntriesIndex (aeEntries req)) s) (\<lambda>s1 r.
              Ret (upd_cm (\<lambda>c. c\<lparr> cmLog := take logInsertIndex (cmLog (cm s)) @ r \<rparr>) s1) ())
          else Ret s ())"

definition follow_commit :: "append_request \<Rightarrow> server \<Rightarrow> (server, unit) outcome" where
  "follow_commit req s =
     (if aeLeaderCommit req > commitIndex (cm s) then
        (if of_nat (length (cmLog (cm s))) - 1 < aeLeaderCommit req
         then Block (upd_cm (\<lambda>c. c\<lparr> commitIndex := of_nat (length (cmLog c) - 1) \<rparr>) s)
         else Ret (upd_cm (\<lambda>c. c\<lparr> commitIndex := aeLeaderCommit req \<rparr>) s) ())
      else Ret s ())"

definition AE_terms :: "int \<Rightarrow> append_request \<Rightarrow> consensus_module \<Rightarrow> consensus_module" where
  "AE_terms now req c =
     (let c1 = if aeTerm req > currentTerm c then becomeFollower now (aeTerm req) (aeLeaderId req) c else c in
      if aeTerm req = currentTerm c1 then
        (let c2 = if cmState c1 \<noteq> FOLLOWER then becomeFollower now (aeTerm req) (aeLeaderId req) c1 else c1 in
         c2\<lparr> electionResetEvent := now \<rparr>)
      else c1)"

definition AppendEntries :: "(string \<Rightarrow> bool) \<Rightarrow> int \<Rightarrow> append_request \<Rightarrow> server \<Rightarrow> (server, append_response) outcome" where
  "AppendEntries dial now req = with_cm_lock (\<lambda>s.
     let s1 = upd_cm (AE_terms now req) s;
         leader = (if aeTerm req < currentTerm (cm s1) then currentLeader (cm s1) else 0);
         resp = (\<lambda>ok t. \<lparr> arTerm = currentTerm (cm t), arSuccess = ok, arLeaderId = leader \<rparr>) in
     if prev_ok req (cmLog (cm s1)) then
       obind (append_new dial req s1) (\<lambda>s2 _.
         obind (follow_commit req s2) (\<lambda>s3 _. Ret s3 (resp True s3)))
     else Ret s1 (resp False s1))"

section \<open>RequestVote\<close>

text \<open>The part under the mutex.  It returns the reply and the arguments of the deferred
  \<open>becomeFollower\<close>, which runs after \<open>Unlock\<close>: another handler can run in between.\<close>

definition up_to_date :: "vote_req \<Rightarrow> consensus_module \<Rightarrow> bool" where
  "up_to_date req c =
     (case lastLogIndexAndTerm c of (lastLogIndex, lastLogTerm) \<Rightarrow>
        rvLastLogTerm req > lastLogTerm \<or>
        rvLastLogTerm req = lastLogTerm \<and> rvLastLogIndex req \<ge> lastLogIndex)"

definition RequestVote_locked ::
  "int \<Rightarrow> vote_req \<Rightarrow> server \<Rightarrow> (server, vote_resp \<times> (u64 \<times> i32) option) outcome" where
  "RequestVote_locked now req = with_cm_lock (\<lambda>s.
     let newer = rvTerm req > currentTerm (cm s);
         s1 = (if newer then upd_cm (currentTerm_update (\<lambda>_. rvTerm req)) s else s);
         granted = (currentTerm (cm s1) = rvTerm req \<and>
           (votedFor (cm s1) = -1 \<or> votedFor (cm s1) = rvCandidateId req) \<and> up_to_date req (cm s1));
         s2 = (if granted then upd_cm (electionResetEvent_update (\<lambda>_. now)) s1 else s1) in
     Ret s2 (\<lparr> vrTerm = currentTerm (cm s2), vrGranted = granted \<rparr>,
             if newer then Some (rvTerm req, rvCandidateId req) else None))"

definition run_deferred :: "int \<Rightarrow> (u64 \<times> i32) option \<Rightarrow> server \<Rightarrow> server" where
  "run_deferred now d s = (case d of
       Some (term, leader) \<Rightarrow> upd_cm (becomeFollower now term leader) s
     | None \<Rightarrow> s)"

text \<open>The handler with nothing in between.\<close>

definition RequestVote :: "int \<Rightarrow> vote_req \<Rightarrow> server \<Rightarrow> (server, vote_resp) outcome" where
  "RequestVote now req s =
     obind (RequestVote_locked now req s) (\<lambda>s1 (resp, d). Ret (run_deferred now d s1) resp)"

section \<open>Heartbeats of a leader\<close>

definition leaderSendHeartbeats :: "server \<Rightarrow> (server, (i32 \<times> u64) list) outcome" where
  "leaderSendHeartbeats s =
     (if cmu (cm s) then Block s
      else if cmState (cm s) \<noteq> LEADER then Ret s []
      else Ret s (map (\<lambda>p. (p, currentTerm (cm s))) (peerIds (cm s))))"

text \<open>The check of the heartbeat goroutine after a tick: it ends when the server no longer leads.\<close>

definition hb_loop_check :: "server \<Rightarrow> (server, bool) outcome" where
  "hb_loop_check s =
     (if cmu (cm s) then Block s
      else if cmState (cm s) \<noteq> LEADER then Ret (upd_cm (\<lambda>c. c\<lparr> hbLoops := hbLoops c - 1 \<rparr>) s) False
      else Ret s True)"

text \<open>\<open>None\<close>: some command cannot be serialised.\<close>

fun serialize_all :: "log_entry list \<Rightarrow> entry list option" where
  "serialize_all [] = Some []"
| "serialize_all (v # vs) = (case Serialize v of
       None \<Rightarrow> None
     | Some e \<Rightarrow> (case serialize_all vs of None \<Rightarrow> None | Some es \<Rightarrow> Some (e # es)))"

text \<open>The first half of the goroutine of one peer: the request and \<open>ni\<close>.  A run-time panic while
  the mutex is held does not release it; at the call itself it has been released, and there a missing
  client or one on a nil connection panics.  \<open>uint64(int64(ni)-1)\<close> and \<open>uint64(int(-1))\<close> are
  the words \<open>ni - 1\<close> and \<open>-1\<close>; \<open>prevLogIndex >= 0\<close> is a signed comparison.\<close>

definition hb_request :: "i32 \<Rightarrow> u64 \<Rightarrow> server \<Rightarrow> (server, append_request \<times> u64) outcome" where
  "hb_request peerId savedCurrentTerm s =
     (if cmu (cm s) then Block s
      else
        let s1 = (case nextIndex (cm s) peerId of
                Some ni \<Rightarrow> s
              | None \<Rightarrow> upd_cm (\<lambda>c. c\<lparr> nextIndex := (nextIndex c)(peerId \<mapsto> 1),
                                   matchIndex := (matchIndex c)(peerId \<mapsto> 0) \<rparr>) s);
            ni = map_get (nextIndex (cm s1)) peerId;
            lg = cmLog (cm s1);
            crash = Panic (upd_cm (cmu_update (\<lambda>_. True)) s1) in
        if 0 \<le> sint (ni - 1) \<and> length lg \<le> unat (ni - 1) then crash
        else if length lg < unat ni then crash
        else case serialize_all (drop (unat ni) lg) of
          None \<Rightarrow> crash
        | Some entry \<Rightarrow>
            (case peers s1 peerId of
               Some (Some client) \<Rightarrow>
                 Ret s1 (\<lparr> aeTerm = savedCurrentTerm, aeLeaderId = cmId (cm s1),
                    aePrevLogIndex = ni - 1,
                    aePrevLogTerm = (if 0 \<le> sint (ni - 1) then Term (lg ! unat (ni - 1)) else -1),
                    aeEntries = entry, aeLeaderCommit = commitIndex (cm s1) \<rparr>, ni)
             | _ \<Rightarrow> Panic s1))"

text \<open>The scan that advances the commit index of the leader.\<close>

definition match_count :: "consensus_module \<Rightarrow> nat \<Rightarrow> nat" where
  "match_count c i = 1 + length (filter (\<lambda>p. i \<le> unat (map_get (matchIndex c) p)) (peerIds c))"

definition commit_scan :: "consensus_module \<Rightarrow> consensus_module" where
  "commit_scan c =
     c\<lparr> commitIndex := fold (\<lambda>i ci. if match_count c i * 2 > length (peerIds c) + 1 then of_nat i else ci)
          [unat (commitIndex c + 1) ..< length (cmLog c)] (commitIndex c) \<rparr>"

definition hb_response :: "int \<Rightarrow> i32 \<Rightarrow> u64 \<Rightarrow> u64 \<Rightarrow> nat \<Rightarrow> append_response \<Rightarrow> server \<Rightarrow> (server, unit) outcome" where
  "hb_response now peerId savedCurrentTerm ni n resp = with_cm_lock (\<lambda>s.
     if arTerm resp > savedCurrentTerm then
       Ret (upd_cm (becomeFollower now (arTerm resp) (arLeaderId resp)) s) ()
     else if cmState (cm s) = LEADER \<and> savedCurrentTerm = arTerm resp then
       if arSuccess resp then
         (let s1 = upd_cm (\<lambda>c. c\<lparr> nextIndex := (nextIndex c)(peerId \<mapsto> ni + of_nat n),
                      matchIndex := (matchIndex c)(peerId \<mapsto> ni + of_nat n - 1) \<rparr>) s in
          Ret (upd_cm commit_scan s1) ())
       else Ret (upd_cm (\<lambda>c. c\<lparr> nextIndex := (nextIndex c)(peerId \<mapsto> ni - 1) \<rparr>) s) ()
     else Ret s ())"

section \<open>Delivery of committed entries\<close>

text \<open>One iteration of the loop of \<open>commitChanSender\<close>.  \<open>readyChan\<close> and \<open>outChan\<close> say whether \<open>newCommitReadyChan\<close> and
  \<open>commitChan\<close> have been made: a receive from a nil channel and a send on one never return.  (On made channels the
  iteration has received its signal and has a receiver for what it sends.)  The entries are sent after the mutex has been released.  A
  Go slice may reach beyond the length of \<open>cm.log\<close> into its array: \<open>spare\<close> is the content of the array there.  A panic
  of the slice expression leaves the mutex locked.  The term sent is that of the module, not that of the entry.\<close>

record commit_entry =
  ceCommand :: command
  ceIndex :: u64
  ceTerm :: u64

definition commitChanSender :: "bool \<Rightarrow> bool \<Rightarrow> log_entry list \<Rightarrow> server \<Rightarrow> (server, commit_entry list) outcome" where
  "commitChanSender readyChan outChan spare s =
     (let c = cm s; savedTerm = currentTerm c; savedLastApplied = lastApplied c;
          lo = unat (lastApplied c + 1); hi = unat (commitIndex c + 1) in
      if \<not> readyChan then Block s
      else if cmu c then Block s
      else if commitIndex c > lastApplied c then
        if hi < lo \<or> length (cmLog c @ spare) < hi then Panic (upd_cm (cmu_update (\<lambda>_. True)) s)
        else
          let s1 = upd_cm (\<lambda>c. c\<lparr> lastApplied := commitIndex c \<rparr>) s;
              entries = drop lo (take hi (cmLog c @ spare)) in
          if entries \<noteq> [] \<and> \<not> outChan then Block s1
          else Ret s1 (map (\<lambda>(i, entry). \<lparr> ceCommand = Command entry, ceIndex = savedLastApplied + of_nat i + 1, ceTerm = savedTerm \<rparr>)
                 (enumerate 0 entries))
      else Ret s [])"

text \<open>In the program no code makes the channels (and none starts the goroutine).\<close>

lemma commitChanSender_never_runs: "commitChanSender False outChan spare s = Block s"
  by (simp add: commitChanSender_def)

section \<open>The gRPC handlers of the server\<close>

definition Server_AppendEntries :: "(string \<Rightarrow> bool) \<Rightarrow> int \<Rightarrow> append_request \<Rightarrow> server \<Rightarrow> (server, append_response) outcome" where
  "Server_AppendEntries dial now req s = AppendEntries dial now req s"

definition Server_RequestVote :: "int \<Rightarrow> vote_req \<Rightarrow> server \<Rightarrow> (server, vote_resp) outcome" where
  "Server_RequestVote now req s = RequestVote now req s"

end
