(* ===== verification/Raft_Log.thy ===== *)
theory Raft_Log
  imports Raft_Model
begin

text \<open>
  Replication: what \<open>AppendEntries\<close> makes of a follower's log, and which entries a leader
  commits.

  \<open>merge_log\<close> is the reference: walk along the old log and the new entries while the terms
  agree, and from the first conflict on take the new entries.  \<open>AppendEntries\<close> with its index
  loop, its truncation and its execution of the entries refines it.
\<close>

declare match_entries.simps [simp del]

lemma cm_upd_cm [simp]: "cm (upd_cm f s) = f (cm s)"
  by (simp add: upd_cm_def)

lemma upd_cm_frame [simp]:
  "peers (upd_cm f s) = peers s" "peerAddr (upd_cm f s) = peerAddr s" "nodes (upd_cm f s) = nodes s"
  "nodeAddr (upd_cm f s) = nodeAddr s" "nodeObjs (upd_cm f s) = nodeObjs s"
  "logFile (upd_cm f s) = logFile s" "sAddr (upd_cm f s) = sAddr s"
  by (simp_all add: upd_cm_def)

lemma upd_cm_upd_cm [simp]: "upd_cm f (upd_cm g s) = upd_cm (\<lambda>c. f (g c)) s"
  by (simp add: upd_cm_def)

section \<open>Reference merge\<close>

fun merge_log :: "log_entry list \<Rightarrow> log_entry list \<Rightarrow> log_entry list" where
  "merge_log (x # xs) (n # ns) = (if Term x = Term n then x # merge_log xs ns else n # ns)"
| "merge_log [] ns = ns"
| "merge_log xs [] = xs"

lemma merge_log_Nil [simp]: "merge_log xs [] = xs"
  by (cases xs) auto

lemma merge_log_terms: "j < length ns \<Longrightarrow> j < length (merge_log xs ns) \<and> Term (merge_log xs ns ! j) = Term (ns ! j)"
proof (induction xs ns arbitrary: j rule: merge_log.induct)
  case (1 x xs n ns)
  then show ?case by (cases j) auto
qed auto

lemma length_merge_log: "length ns \<le> length (merge_log xs ns)"
  by (induction xs ns rule: merge_log.induct) auto

lemma merge_log_idem: "merge_log (merge_log xs ns) ns = merge_log xs ns"
proof -
  have self: "merge_log ms ms = ms" for ms by (induction ms) auto
  show ?thesis by (induction xs ns rule: merge_log.induct) (auto simp: self)
qed

definition agree :: "log_entry list \<Rightarrow> entry list \<Rightarrow> nat" where
  "agree xs es = length (takeWhile (\<lambda>(x, e). Term x = eTerm e) (zip xs es))"

lemma agree_simps [simp]:
  "agree [] es = 0" "agree xs [] = 0"
  "agree (x # xs) (e # es) = (if Term x = eTerm e then Suc (agree xs es) else 0)"
  by (simp_all add: agree_def)

lemma agree_le: "agree xs es \<le> length xs \<and> agree xs es \<le> length es"
  by (induction xs es rule: list_induct2') auto

lemma match_entries_agree:
  assumes "li \<le> length lg" "ni \<le> length es"
  shows "match_entries lg es li ni =
    (li + agree (drop li lg) (drop ni es), ni + agree (drop li lg) (drop ni es))"
  using assms
proof (induction lg es li ni rule: match_entries.induct)
  case (1 lg es li ni)
  show ?case
  proof (cases "length lg \<le> li \<or> length es \<le> ni")
    case True
    with 1 show ?thesis by (auto simp: match_entries.simps)
  next
    case False
    then have d: "drop li lg = lg ! li # drop (Suc li) lg" "drop ni es = es ! ni # drop (Suc ni) es"
      by (simp_all add: Cons_nth_drop_Suc)
    show ?thesis
    proof (cases "Term (lg ! li) = eTerm (es ! ni)")
      case True
      with False "1.IH" show ?thesis by (simp add: match_entries.simps[of lg es li ni] d)
    next
      case ne: False
      with False show ?thesis by (simp add: match_entries.simps[of lg es li ni] d)
    qed
  qed
qed

definition decoded :: "entry \<Rightarrow> log_entry" where
  "decoded e = \<lparr> Command = the (Deserialize e), Term = eTerm e \<rparr>"

lemma merge_log_agree:
  "merge_log xs (map decoded es) =
    (if agree xs es < length es then take (agree xs es) xs @ map decoded (drop (agree xs es) es) else xs)"
proof (induction xs es rule: list_induct2')
  case (4 x xs e es)
  then show ?case by (auto simp: decoded_def)
qed auto

lemma Term_decoded [simp]: "Term (decoded e) = eTerm e"
  by (simp add: decoded_def)

lemma agree_merge: "agree (merge_log xs (map decoded es)) es = length es"
proof -
  have self: "agree (map decoded fs) fs = length fs" for fs by (induction fs) simp_all
  show ?thesis by (induction xs es rule: list_induct2') (simp_all add: self)
qed

section \<open>Executing AddServer entries\<close>

definition is_server :: "entry \<Rightarrow> bool" where
  "is_server e = (eType e = 1)"

definition server_id :: "entry \<Rightarrow> i32" where
  "server_id e = fst (read_int32 (eData e))"

definition joined :: "i32 \<Rightarrow> entry list \<Rightarrow> i32 list" where
  "joined me es = filter (\<lambda>i. i \<noteq> me) (map server_id es)"

lemma Deserialize_server:
  "is_server e \<Longrightarrow> Deserialize e =
     Some (CAddServer \<lparr> ServerAddr = of_bytes (snd (read_int32 (eData e))), ServerId = server_id e \<rparr>)"
  by (simp add: is_server_def Deserialize_def decoder_of EntryToAddServerStruct_def server_id_def split_beta)

lemma executor_of:
  "cmdIdExecutor init_registry i = (if i = 1 then Some TAddServer else if i = 3 then Some TAddNode else None)"
  by (simp add: init_registry_def RegisterCommandConversionHandler_def)

lemma Execute_server:
  assumes "is_server e"
  obtains s' where "Execute dial e s = Ret s' (Command (decoded e))"
    "cm s' = (cm s)\<lparr> peerIds := peerIds (cm s) @ joined (cmId (cm s)) [e] \<rparr>"
    "dom (peers s') = dom (peers s) \<union> set (joined (cmId (cm s)) [e])"
    "logFile s' = logFile s" "nodes s' = nodes s"
  using assms
  by (cases "cmId (cm s) = server_id e")
    (auto simp: Execute_def Deserialize_server executor_of is_server_def decoded_def joined_def Let_def)

lemma apply_servers:
  assumes "\<forall>e \<in> set es. is_server e"
  obtains s' where "apply_entries dial es s = Ret s' (map decoded es)"
    "cm s' = (cm s)\<lparr> peerIds := peerIds (cm s) @ joined (cmId (cm s)) es \<rparr>"
    "dom (peers s') = dom (peers s) \<union> set (joined (cmId (cm s)) es)"
    "logFile s' = logFile s @ es" "nodes s' = nodes s"
  using assms
proof (induction es arbitrary: s thesis)
  case Nil
  then show ?case by (simp add: joined_def)
next
  case (Cons e es)
  let ?s = "s\<lparr> logFile := logFile s @ [e] \<rparr>"
  obtain s1 where s1: "Execute dial e ?s = Ret s1 (Command (decoded e))"
    "cm s1 = (cm s)\<lparr> peerIds := peerIds (cm s) @ joined (cmId (cm s)) [e] \<rparr>"
    "dom (peers s1) = dom (peers s) \<union> set (joined (cmId (cm s)) [e])"
    "logFile s1 = logFile s @ [e]" "nodes s1 = nodes s"
    using Execute_server[of e dial ?s] Cons.prems by auto
  obtain s2 where s2: "apply_entries dial es s1 = Ret s2 (map decoded es)"
    "cm s2 = (cm s1)\<lparr> peerIds := peerIds (cm s1) @ joined (cmId (cm s1)) es \<rparr>"
    "dom (peers s2) = dom (peers s1) \<union> set (joined (cmId (cm s1)) es)"
    "logFile s2 = logFile s1 @ es" "nodes s2 = nodes s1"
    using Cons.IH[of s1] Cons.prems by auto
  have "apply_entries dial (e # es) s = Ret s2 (map decoded (e # es))"
    using s1(1) s2(1) by (simp add: decoded_def)
  then show ?case
    by (rule Cons.prems(1)) (use s1 s2 in \<open>auto simp: joined_def\<close>)
qed

section \<open>AppendEntries refines the merge\<close>

lemma AE_terms_frame [simp]:
  "cmLog (AE_terms now req c) = cmLog c" "commitIndex (AE_terms now req c) = commitIndex c"
  "cmu (AE_terms now req c) = cmu c" "peerIds (AE_terms now req c) = peerIds c"
  "cmId (AE_terms now req c) = cmId c"
  "currentTerm (AE_terms now req c) = max (currentTerm c) (aeTerm req)"
  by (auto simp: AE_terms_def becomeFollower_def Let_def max_def)

lemma AE_terms_follower: "currentTerm c \<le> aeTerm req \<Longrightarrow> cmState (AE_terms now req c) = FOLLOWER"
  by (auto simp: AE_terms_def becomeFollower_def Let_def)

text \<open>The result of the merge on a whole log.\<close>

definition merged :: "append_request \<Rightarrow> log_entry list \<Rightarrow> log_entry list" where
  "merged req lg =
     (let p = Suc (unat (aePrevLogIndex req)) in
      take p lg @ merge_log (drop p lg) (map decoded (aeEntries req)))"

definition new_part :: "append_request \<Rightarrow> log_entry list \<Rightarrow> entry list" where
  "new_part req lg = drop (agree (drop (Suc (unat (aePrevLogIndex req))) lg) (aeEntries req)) (aeEntries req)"

lemma prev_index:
  assumes "prev_ok req lg" "lg \<noteq> []" "length lg < 2 ^ 64"
  shows "unat (aePrevLogIndex req + 1) = Suc (unat (aePrevLogIndex req))"
    and "Suc (unat (aePrevLogIndex req)) \<le> length lg"
proof -
  show le: "Suc (unat (aePrevLogIndex req)) \<le> length lg"
    using assms(1,2) by (cases lg) (auto simp: prev_ok_def)
  with assms(3) have "unat (aePrevLogIndex req) + unat (1 :: u64) < 2 ^ LENGTH(64)" by simp
  then show "unat (aePrevLogIndex req + 1) = Suc (unat (aePrevLogIndex req))"
    by (subst unat_add_lem[THEN iffD1]) simp_all
qed

lemma append_new_merges:
  assumes ok: "prev_ok req (cmLog (cm s))" "cmLog (cm s) \<noteq> []" "length (cmLog (cm s)) < 2 ^ 64"
    and srv: "\<forall>e \<in> set (new_part req (cmLog (cm s))). is_server e"
  obtains s' where "append_new dial req s = Ret s' ()"
    "cm s' = (cm s)\<lparr> peerIds := peerIds (cm s) @ joined (cmId (cm s)) (new_part req (cmLog (cm s))),
                     cmLog := merged req (cmLog (cm s)) \<rparr>"
    "dom (peers s') = dom (peers s) \<union> set (joined (cmId (cm s)) (new_part req (cmLog (cm s))))"
    "logFile s' = logFile s @ new_part req (cmLog (cm s))"
proof -
  let ?lg = "cmLog (cm s)" and ?es = "aeEntries req" and ?p = "Suc (unat (aePrevLogIndex req))"
  let ?m = "agree (drop ?p ?lg) ?es"
  note p = prev_index[OF ok]
  have m: "match_entries ?lg ?es (unat (aePrevLogIndex req + 1)) 0 = (?p + ?m, ?m)"
    using match_entries_agree[OF p(2), of 0 ?es] p(1) by simp
  have np: "new_part req ?lg = drop ?m ?es" by (simp add: new_part_def)
  show thesis
  proof (cases "?m < length ?es")
    case True
    obtain s1 where s1: "apply_entries dial (drop ?m ?es) s = Ret s1 (map decoded (drop ?m ?es))"
      "cm s1 = (cm s)\<lparr> peerIds := peerIds (cm s) @ joined (cmId (cm s)) (drop ?m ?es) \<rparr>"
      "dom (peers s1) = dom (peers s) \<union> set (joined (cmId (cm s)) (drop ?m ?es))"
      "logFile s1 = logFile s @ drop ?m ?es" "nodes s1 = nodes s"
      by (rule apply_servers[of "drop ?m ?es" dial s]) (use srv np in simp)
    have "merged req ?lg = take (?p + ?m) ?lg @ map decoded (drop ?m ?es)"
      using True by (simp only: merged_def merge_log_agree Let_def take_add if_True append_assoc)
    with True s1 show thesis
      by (intro that[of "upd_cm (\<lambda>c. c\<lparr> cmLog := take (?p + ?m) ?lg @ map decoded (drop ?m ?es) \<rparr>) s1"])
        (simp_all add: append_new_def m np)
  next
    case False
    then have "merged req ?lg = ?lg" by (simp add: merged_def merge_log_agree Let_def)
    moreover have "new_part req ?lg = []" using False np by simp
    ultimately show thesis using False
      by (intro that[of s]) (simp_all add: append_new_def m joined_def)
  qed
qed

text \<open>The request does not run into the send on the nil channel.\<close>

definition commit_covered :: "append_request \<Rightarrow> server \<Rightarrow> bool" where
  "commit_covered req s \<longleftrightarrow>
     aeLeaderCommit req \<le> commitIndex (cm s) \<or>
     unat (aeLeaderCommit req) < length (merged req (cmLog (cm s)))"

lemma merged_nonempty: "lg \<noteq> [] \<Longrightarrow> merged req lg \<noteq> []"
  by (cases lg) (simp_all add: merged_def Let_def)

lemma follow_commit_covered:
  assumes "aeLeaderCommit req \<le> commitIndex (cm s) \<or> unat (aeLeaderCommit req) < length (cmLog (cm s))"
    and "cmLog (cm s) \<noteq> []" "length (cmLog (cm s)) < 2 ^ 64"
  shows "follow_commit req s =
    Ret (upd_cm (commitIndex_update (\<lambda>_. max (commitIndex (cm s)) (aeLeaderCommit req))) s) ()"
proof -
  have n: "unat (of_nat (length (cmLog (cm s))) - 1 :: u64) = length (cmLog (cm s)) - 1"
    using assms(2,3) by (cases "cmLog (cm s)") (simp_all add: unat_of_nat)
  have "\<not> of_nat (length (cmLog (cm s))) - 1 < aeLeaderCommit req"
    if "unat (aeLeaderCommit req) < length (cmLog (cm s))"
    using that n by (simp add: word_less_nat_alt)
  with assms(1) show ?thesis
    by (auto simp: follow_commit_def max_def upd_cm_def)
qed

lemma AppendEntries_merges:
  assumes free: "\<not> cmu (cm s)"
    and ok: "prev_ok req (cmLog (cm s))" "cmLog (cm s) \<noteq> []" "length (merged req (cmLog (cm s))) < 2 ^ 64"
      "length (cmLog (cm s)) < 2 ^ 64"
    and srv: "\<forall>e \<in> set (new_part req (cmLog (cm s))). is_server e"
    and cov: "commit_covered req s"
  obtains s' resp where "AppendEntries dial now req s = Ret s' resp"
    "arSuccess resp" "arTerm resp = max (currentTerm (cm s)) (aeTerm req)"
    "cmLog (cm s') = merged req (cmLog (cm s))"
    "commitIndex (cm s') = max (commitIndex (cm s)) (aeLeaderCommit req)"
    "currentTerm (cm s') = max (currentTerm (cm s)) (aeTerm req)"
    "peerIds (cm s') = peerIds (cm s) @ joined (cmId (cm s)) (new_part req (cmLog (cm s)))"
    "dom (peers s') = dom (peers s) \<union> set (joined (cmId (cm s)) (new_part req (cmLog (cm s))))"
    "logFile s' = logFile s @ new_part req (cmLog (cm s))"
    "cmId (cm s') = cmId (cm s)" "\<not> cmu (cm s')"
    "currentTerm (cm s) \<le> aeTerm req \<longrightarrow> cmState (cm s') = FOLLOWER"
proof -
  let ?s1 = "upd_cm (AE_terms now req) (upd_cm (cmu_update (\<lambda>_. True)) s)"
  have lg: "cmLog (cm ?s1) = cmLog (cm s)" by simp
  obtain s2 where s2: "append_new dial req ?s1 = Ret s2 ()"
    "cm s2 = (cm ?s1)\<lparr> peerIds := peerIds (cm s) @ joined (cmId (cm s)) (new_part req (cmLog (cm s))),
                     cmLog := merged req (cmLog (cm s)) \<rparr>"
    "dom (peers s2) = dom (peers s) \<union> set (joined (cmId (cm s)) (new_part req (cmLog (cm s))))"
    "logFile s2 = logFile s @ new_part req (cmLog (cm s))"
    by (rule append_new_merges[of req ?s1 dial]) (use ok srv in \<open>simp_all add: lg\<close>)
  have fc: "follow_commit req s2 =
    Ret (upd_cm (commitIndex_update (\<lambda>_. max (commitIndex (cm s)) (aeLeaderCommit req))) s2) ()"
    using follow_commit_covered[of req s2] s2(2) cov ok(3) merged_nonempty[OF ok(2), of req]
    by (simp add: commit_covered_def)
  let ?s' = "upd_cm (cmu_update (\<lambda>_. False)) (upd_cm (commitIndex_update (\<lambda>_. max (commitIndex (cm s)) (aeLeaderCommit req))) s2)"
  obtain resp where "AppendEntries dial now req s = Ret ?s' resp" "arSuccess resp"
    "arTerm resp = max (currentTerm (cm s)) (aeTerm req)"
    using free ok(1) s2 fc by (simp add: AppendEntries_def with_cm_lock_def Let_def)
  then show thesis
    by (rule that) (use s2 in \<open>simp_all add: AE_terms_follower\<close>)
qed

section \<open>The leader's commit index\<close>

text \<open>Quorums: any two of them share a member.\<close>

locale quorums =
  fixes members :: "'a set" and quorum :: "'a set \<Rightarrow> bool"
  assumes finite_members: "finite members"
    and quorum_members: "quorum Q \<Longrightarrow> Q \<subseteq> members"
    and quorum_large: "quorum Q \<Longrightarrow> card members < 2 * card Q"
begin

lemma quorums_meet:
  assumes "quorum Q" "quorum R"
  shows "Q \<inter> R \<noteq> {}"
proof
  assume "Q \<inter> R = {}"
  moreover have "finite Q" "finite R"
    using assms quorum_members finite_members finite_subset by metis+
  ultimately have "card (Q \<union> R) = card Q + card R" by (simp add: card_Un_disjoint)
  moreover have "card (Q \<union> R) \<le> card members"
    using assms quorum_members by (intro card_mono finite_members) blast
  ultimately show False using quorum_large[OF assms(1)] quorum_large[OF assms(2)] by linarith
qed

lemma quorum_nonempty: "quorum Q \<Longrightarrow> Q \<noteq> {}"
  using quorums_meet[of Q Q] by blast

end

definition cluster :: "consensus_module \<Rightarrow> i32 set" where
  "cluster c = insert (cmId c) (set (peerIds c))"

definition majority :: "consensus_module \<Rightarrow> i32 set \<Rightarrow> bool" where
  "majority c Q \<longleftrightarrow> Q \<subseteq> cluster c \<and> length (peerIds c) + 1 < 2 * card Q"

interpretation maj: quorums "cluster c" "majority c" for c
proof (unfold_locales, goal_cases)
  case (3 Q)
  have "card (cluster c) \<le> Suc (card (set (peerIds c)))"
    unfolding cluster_def by (rule card_insert_le_m1) simp_all
  also have "\<dots> \<le> Suc (length (peerIds c))" by (simp add: card_length)
  finally show ?case using 3 by (simp add: majority_def)
qed (auto simp: cluster_def majority_def)

text \<open>The servers a leader believes to hold its log up to \<open>i\<close>: itself and the matching peers.\<close>

definition holders :: "consensus_module \<Rightarrow> nat \<Rightarrow> i32 set" where
  "holders c i = insert (cmId c) {p \<in> set (peerIds c). i \<le> unat (map_get (matchIndex c) p)}"

lemma card_holders:
  assumes "distinct (peerIds c)" "cmId c \<notin> set (peerIds c)"
  shows "card (holders c i) = match_count c i"
proof -
  have "card {p \<in> set (peerIds c). i \<le> unat (map_get (matchIndex c) p)} =
        length (filter (\<lambda>p. i \<le> unat (map_get (matchIndex c) p)) (peerIds c))"
    using distinct_card[OF distinct_filter[OF assms(1)], of "\<lambda>p. i \<le> unat (map_get (matchIndex c) p)"]
    by simp
  with assms(2) show ?thesis by (simp add: holders_def match_count_def)
qed

lemma fold_last_match:
  "fold (\<lambda>i z. if P i then f i else z) xs z0 =
   (if filter P xs = [] then z0 else f (last (filter P xs)))"
  by (induction xs rule: rev_induct) auto

lemma last_sorted_filter:
  assumes "filter P [a..<b] \<noteq> []"
  shows "P (last (filter P [a..<b])) \<and> a \<le> last (filter P [a..<b]) \<and> last (filter P [a..<b]) < b \<and>
    (\<forall>i. a \<le> i \<longrightarrow> i < b \<longrightarrow> P i \<longrightarrow> i \<le> last (filter P [a..<b]))"
proof -
  have "last (filter P [a..<b]) \<in> set (filter P [a..<b])" using assms by (rule last_in_set)
  moreover have "i \<le> last (filter P [a..<b])" if "a \<le> i" "i < b" "P i" for i
  proof -
    have "i \<in> set (filter P [a..<b])" using that by simp
    moreover have "sorted (filter P [a..<b])" by (simp add: sorted_wrt_filter)
    ultimately show ?thesis
      by (metis in_set_conv_nth last_conv_nth sorted_nth_mono assms diff_less length_greater_0_conv
          less_Suc_eq_le Suc_pred' zero_less_one)
  qed
  ultimately show ?thesis by auto
qed

definition quorum_at :: "consensus_module \<Rightarrow> nat \<Rightarrow> bool" where
  "quorum_at c i = (length (peerIds c) + 1 < match_count c i * 2)"

lemma commit_scan_cases:
  assumes len: "length (cmLog c) < 2 ^ 64" and ci: "unat (commitIndex c) < length (cmLog c)"
  defines "n \<equiv> unat (commitIndex (commit_scan c))"
  shows "n = unat (commitIndex c) \<and> (\<forall>i. unat (commitIndex c) < i \<longrightarrow> i < length (cmLog c) \<longrightarrow> \<not> quorum_at c i) \<or>
    unat (commitIndex c) < n \<and> n < length (cmLog c) \<and> quorum_at c n \<and>
    (\<forall>i. n < i \<longrightarrow> i < length (cmLog c) \<longrightarrow> \<not> quorum_at c i)"
proof -
  have "unat (commitIndex c) + unat (1 :: u64) < 2 ^ LENGTH(64)" using len ci by simp
  then have st: "unat (commitIndex c + 1) = Suc (unat (commitIndex c))"
    by (subst unat_add_lem[THEN iffD1]) simp_all
  let ?xs = "filter (quorum_at c) [Suc (unat (commitIndex c))..<length (cmLog c)]"
  have n: "n = (if ?xs = [] then unat (commitIndex c) else unat (of_nat (last ?xs) :: u64))"
    unfolding n_def commit_scan_def st fold_last_match quorum_at_def[symmetric] by simp
  show ?thesis
  proof (cases "?xs = []")
    case True
    then have "\<forall>i. Suc (unat (commitIndex c)) \<le> i \<longrightarrow> i < length (cmLog c) \<longrightarrow> \<not> quorum_at c i"
      by (simp add: filter_empty_conv)
    with True n show ?thesis by (simp add: Suc_le_eq)
  next
    case False
    note l = last_sorted_filter[OF False]
    then have "last ?xs < 2 ^ 64" using len by linarith
    then have "n = last ?xs" using n False by (simp add: unat_of_nat)
    with l show ?thesis by (metis Suc_le_eq less_le_trans not_less order.strict_trans)
  qed
qed

end
