(* ===== verification/Raft_Props.thy ===== *)
theory Raft_Props
  imports Raft_Log
begin

text \<open>
  Properties of the consensus module: replication, commit, votes and terms, and the places where
  the code leaves Raft (votes that are not recorded, terms that are not sent, a mutex taken twice,
  a send on a nil channel).
\<close>

section \<open>Concrete servers for the examples\<close>

definition fresh_server :: "i32 \<Rightarrow> i32 list \<Rightarrow> server" where
  "fresh_server me ps =
     \<lparr> cm = (NewConsensusModule me)\<lparr> peerIds := ps \<rparr>, sAddr = ''m'',
       peers = (\<lambda>p. if p \<in> set ps then Some (Some ''peer'') else None), peerAddr = Map.empty,
       nodes = Map.empty, nodeAddr = Map.empty, nodeObjs = [], logFile = [] \<rparr>"

definition server_entry :: "i32 \<Rightarrow> u64 \<Rightarrow> entry" where
  "server_entry i t = \<lparr> eType = 1, eTerm = t, eData = write_int32 i \<rparr>"

definition node_entry :: "i32 \<Rightarrow> u64 \<Rightarrow> entry" where
  "node_entry i t = \<lparr> eType = 3, eTerm = t, eData = write_int32 i \<rparr>"

lemma server_id_entry [simp]: "server_id (server_entry i t) = i" "is_server (server_entry i t)"
  "eTerm (server_entry i t) = t"
  using read_write_int32[of i "[]"] by (simp_all add: server_id_def server_entry_def is_server_def)

lemma fresh_cm [simp]:
  "cmLog (cm (fresh_server me ps)) = [\<lparr> Command = CNil, Term = 0 \<rparr>]" "\<not> cmu (cm (fresh_server me ps))"
  "commitIndex (cm (fresh_server me ps)) = 0" "currentTerm (cm (fresh_server me ps)) = 0"
  "votedFor (cm (fresh_server me ps)) = -1" "cmState (cm (fresh_server me ps)) = FOLLOWER"
  "peerIds (cm (fresh_server me ps)) = ps" "cmId (cm (fresh_server me ps)) = me"
  "elections (cm (fresh_server me ps)) = []"
  by (simp_all add: fresh_server_def NewConsensusModule_def)

definition first_append :: append_request where
  "first_append = \<lparr> aeTerm = 1, aeLeaderId = 7, aePrevLogIndex = 0, aePrevLogTerm = 0,
     aeEntries = [server_entry 9 0], aeLeaderCommit = 0 \<rparr>"

lemmas ae_evals = prev_ok_def merged_def new_part_def commit_covered_def first_append_def

section \<open>Replication\<close>

text \<open>C7. \<open>AppendEntries\<close> implements the log merge of Raft, for a request whose previous entry matches, whose new entries
  are registrations of masters (an \<open>AddNode\<close> entry deadlocks the handler) and whose commit index lies within the merged log or is
  not news (beyond the log the handler hangs).  It is answered with success; the log becomes the old log up to the previous index followed by the merge of
  the rest with the new entries, truncating only at the first term conflict; every appended entry is
  written to the log file and executed, each new master becomes a peer with a client; the commit index
  becomes the greater of its old value and the leader's, the term the greater of the two terms, and
  the mutex is released.\<close>
theorem AppendEntries_refines_merge:
  assumes "\<not> cmu (cm s)"
    and "prev_ok req (cmLog (cm s))" "cmLog (cm s) \<noteq> []" "length (merged req (cmLog (cm s))) < 2 ^ 64"
      "length (cmLog (cm s)) < 2 ^ 64"
    and "\<forall>e \<in> set (new_part req (cmLog (cm s))). is_server e"
    and "commit_covered req s"
  shows "\<exists>s' resp. AppendEntries dial now req s = Ret s' resp \<and>
    arSuccess resp \<and> arTerm resp = max (currentTerm (cm s)) (aeTerm req) \<and>
    cmLog (cm s') = merged req (cmLog (cm s)) \<and>
    commitIndex (cm s') = max (commitIndex (cm s)) (aeLeaderCommit req) \<and>
    currentTerm (cm s') = max (currentTerm (cm s)) (aeTerm req) \<and>
    peerIds (cm s') = peerIds (cm s) @ joined (cmId (cm s)) (new_part req (cmLog (cm s))) \<and>
    dom (peers s') = dom (peers s) \<union> set (joined (cmId (cm s)) (new_part req (cmLog (cm s)))) \<and>
    logFile s' = logFile s @ new_part req (cmLog (cm s)) \<and> \<not> cmu (cm s')"
  by (rule AppendEntries_merges[OF assms, of dial now]) auto

theorem AppendEntries_refines_merge_witness:
  "\<exists>s' resp. AppendEntries (\<lambda>_. True) 0 first_append (fresh_server 5 [7]) = Ret s' resp \<and>
     arSuccess resp \<and> peerIds (cm s') = [7, 9] \<and> length (cmLog (cm s')) = 2"
  using AppendEntries_refines_merge[of "fresh_server 5 [7]" first_append "\<lambda>_. True" 0]
  by (force simp: ae_evals joined_def)

text \<open>A request that brings nothing new to a follower.\<close>

lemma AppendEntries_known:
  assumes free: "\<not> cmu (cm s)" and ok: "prev_ok req (cmLog (cm s))" "cmLog (cm s) \<noteq> []" "length (cmLog (cm s)) < 2 ^ 64"
    and np: "new_part req (cmLog (cm s)) = []" and ci: "aeLeaderCommit req \<le> commitIndex (cm s)"
    and tm: "aeTerm req \<le> currentTerm (cm s)" "aeTerm req = currentTerm (cm s) \<longrightarrow> cmState (cm s) = FOLLOWER"
  shows "\<exists>r. AppendEntries dial now req s =
      Ret (upd_cm (\<lambda>c. c\<lparr> electionResetEvent := (if aeTerm req = currentTerm c then now else electionResetEvent c) \<rparr>) s) r \<and>
    arSuccess r"
proof -
  let ?lg = "cmLog (cm s)" and ?p = "Suc (unat (aePrevLogIndex req))"
  let ?m = "agree (drop ?p ?lg) (aeEntries req)"
  note p = prev_index[OF ok]
  have m: "match_entries ?lg (aeEntries req) (unat (aePrevLogIndex req + 1)) 0 = (?p + ?m, ?m)"
    using match_entries_agree[OF p(2), of 0 "aeEntries req"] p(1) by simp
  have "\<not> ?m < length (aeEntries req)" using np by (simp add: new_part_def)
  then have an: "append_new dial req t = Ret t ()" if "cmLog (cm t) = ?lg" for t
    using that by (simp add: append_new_def m)
  have at: "upd_cm (\<lambda>c. (AE_terms now req (c\<lparr> cmu := True \<rparr>))\<lparr> cmu := False \<rparr>) s =
      upd_cm (\<lambda>c. c\<lparr> electionResetEvent := (if aeTerm req = currentTerm c then now else electionResetEvent c) \<rparr>) s"
    using free tm by (cases "cm s") (auto simp: upd_cm_def AE_terms_def Let_def)
  show ?thesis
    using free ok(1) an leD[OF ci] by (simp add: AppendEntries_def with_cm_lock_def Let_def follow_commit_def at)
qed

text \<open>C23. A request of the kind of \<open>AppendEntries_refines_merge\<close> (new entries that register masters, commit index within the merged
  log) can be delivered twice: the second delivery succeeds again and leaves the whole server as the first left it, except
  that a request of the current term restarts the election timeout.\<close>
theorem AppendEntries_retransmission:
  assumes "\<not> cmu (cm s)"
    and "prev_ok req (cmLog (cm s))" "cmLog (cm s) \<noteq> []" "length (merged req (cmLog (cm s))) < 2 ^ 64"
      "length (cmLog (cm s)) < 2 ^ 64"
    and "\<forall>e \<in> set (new_part req (cmLog (cm s))). is_server e"
    and "commit_covered req s"
    and "AppendEntries dial now req s = Ret s1 r1"
  shows "\<exists>r2. AppendEntries dial now' req s1 =
      Ret (upd_cm (\<lambda>c. c\<lparr> electionResetEvent := (if aeTerm req = currentTerm c then now' else electionResetEvent c) \<rparr>) s1) r2 \<and>
    arSuccess r2"
proof -
  let ?p = "Suc (unat (aePrevLogIndex req))"
  have s1: "cmLog (cm s1) = merged req (cmLog (cm s))" "\<not> cmu (cm s1)"
    "commitIndex (cm s1) = max (commitIndex (cm s)) (aeLeaderCommit req)"
    "currentTerm (cm s1) = max (currentTerm (cm s)) (aeTerm req)"
    "currentTerm (cm s) \<le> aeTerm req \<longrightarrow> cmState (cm s1) = FOLLOWER"
    using AppendEntries_merges[OF assms(1-7), of dial now] assms(8) by auto
  have p: "?p \<le> length (cmLog (cm s))" by (rule prev_index(2)[OF assms(2,3,5)])
  have tk: "take ?p (cmLog (cm s1)) = take ?p (cmLog (cm s))"
    and dr: "drop ?p (cmLog (cm s1)) = merge_log (drop ?p (cmLog (cm s))) (map decoded (aeEntries req))"
    using p by (simp_all add: s1 merged_def Let_def)
  have "agree (drop ?p (cmLog (cm s1))) (aeEntries req) = length (aeEntries req)"
    unfolding dr by (rule agree_merge)
  then have np: "new_part req (cmLog (cm s1)) = []" by (simp add: new_part_def)
  have ok: "prev_ok req (cmLog (cm s1))"
    using assms(2) p tk by (auto simp: prev_ok_def s1 merged_def Let_def nth_append)
  show ?thesis
    by (rule AppendEntries_known[OF s1(2) ok _ _ np])
      (use s1 merged_nonempty[OF assms(3), of req] assms(4) in \<open>auto simp: max_def split: if_splits\<close>)
qed

theorem AppendEntries_retransmission_witness:
  "\<exists>s1 r1 s2 r2. AppendEntries (\<lambda>_. True) 0 first_append (fresh_server 5 [7]) = Ret s1 r1 \<and>
     AppendEntries (\<lambda>_. True) 1 first_append s1 = Ret s2 r2 \<and> peerIds (cm s2) = peerIds (cm s1) \<and> logFile s2 = logFile s1"
proof -
  let ?s = "fresh_server 5 [7]"
  obtain s1 r1 where s1: "AppendEntries (\<lambda>_. True) 0 first_append ?s = Ret s1 r1"
    by (rule AppendEntries_merges[of ?s first_append "\<lambda>_. True" 0]) (auto simp: ae_evals)
  have "\<exists>s2 r2. AppendEntries (\<lambda>_. True) 1 first_append s1 = Ret s2 r2 \<and> peerIds (cm s2) = peerIds (cm s1) \<and> logFile s2 = logFile s1"
    using AppendEntries_retransmission[of ?s first_append "\<lambda>_. True" 0 s1 r1 1] s1
    by (auto simp: ae_evals)
  with s1 show ?thesis by blast
qed

text \<open>C13. After an \<open>AppendEntries\<close> answer the commit index of a leader whose peer ids are distinct and not its own is the greatest
  log index that a majority holds (or stays where it was): the servers that hold the new index are a majority of the
  cluster, any other majority contains one of them, and no greater index has a majority.\<close>
theorem commit_index_is_greatest_majority:
  assumes "length (cmLog c) < 2 ^ 64" and "unat (commitIndex c) < length (cmLog c)"
    and "distinct (peerIds c)" "cmId c \<notin> set (peerIds c)"
    and "n = unat (commitIndex (commit_scan c))"
  shows "unat (commitIndex c) \<le> n \<and> n < length (cmLog c) \<and>
    (unat (commitIndex c) < n \<longrightarrow> majority c (holders c n) \<and>
       (\<forall>Q. majority c Q \<longrightarrow> Q \<inter> holders c n \<noteq> {})) \<and>
    (\<forall>i. n < i \<longrightarrow> i < length (cmLog c) \<longrightarrow> \<not> majority c (holders c i))"
proof -
  have q: "majority c (holders c i) \<longleftrightarrow> quorum_at c i" for i
    using card_holders[OF assms(3,4), of i]
    by (auto simp: majority_def quorum_at_def holders_def cluster_def mult.commute)
  show ?thesis
    using commit_scan_cases[OF assms(1,2)] assms(2) maj.quorums_meet[of c _ "holders c n"]
    unfolding assms(5)[symmetric] q[symmetric] by fastforce
qed

theorem commit_index_is_greatest_majority_witness:
  "majority ((NewConsensusModule 1)\<lparr> peerIds := [2, 3], cmLog := replicate 3 \<lparr> Command = CNil, Term = 0 \<rparr>,
       matchIndex := [2 \<mapsto> 2] \<rparr>)
     (holders ((NewConsensusModule 1)\<lparr> peerIds := [2, 3], cmLog := replicate 3 \<lparr> Command = CNil, Term = 0 \<rparr>,
       matchIndex := [2 \<mapsto> 2] \<rparr>) 2)"
proof -
  let ?c = "(NewConsensusModule 1)\<lparr> peerIds := [2, 3], cmLog := replicate 3 \<lparr> Command = CNil, Term = 0 \<rparr>,
       matchIndex := [2 \<mapsto> 2] \<rparr>"
  have "[Suc 0..<3] = [1, 2]" by (simp add: numeral_3_eq_3 numeral_2_eq_2 upt_rec)
  then have "unat (commitIndex (commit_scan ?c)) = 2"
    by (simp add: commit_scan_def match_count_def map_get_def NewConsensusModule_def)
  with commit_index_is_greatest_majority[of ?c 2] show ?thesis
    by (simp add: NewConsensusModule_def)
qed

text \<open>Distinct peer ids are not an invariant of the program: \<open>AddServerExecutor\<close> appends the id of an entry without looking
  whether it is known.  A peer that is listed twice counts twice: in a cluster of four, the leader and this one
  peer commit an entry that the other two do not have.\<close>

lemma duplicate_peer_is_counted_twice:
  defines "c \<equiv> (NewConsensusModule 1)\<lparr> peerIds := [2, 2, 3, 4], cmLog := replicate 2 \<lparr> Command = CNil, Term = 0 \<rparr>,
       matchIndex := [2 \<mapsto> 1] \<rparr>"
  shows "commitIndex (commit_scan c) = 1" "\<not> majority c (holders c 1)"
proof -
  have "[Suc 0..<2] = [1]" by (simp add: numeral_2_eq_2 upt_rec)
  then show "commitIndex (commit_scan c) = 1"
    by (simp add: c_def commit_scan_def match_count_def map_get_def NewConsensusModule_def)
  have "holders c 1 \<subseteq> {1, 2}" by (auto simp: c_def holders_def map_get_def NewConsensusModule_def)
  then have "card (holders c 1) \<le> 2" using card_mono[of "{1, 2 :: i32}" "holders c 1"] by simp
  then show "\<not> majority c (holders c 1)" by (simp add: majority_def c_def)
qed

section \<open>Votes and terms\<close>

lemma RequestVote_free:
  assumes "\<not> cmu (cm s)"
  shows "\<exists>s' reply. RequestVote now req s = Ret s' reply \<and>
    vrTerm reply = max (currentTerm (cm s)) (rvTerm req) \<and>
    vrGranted reply = (currentTerm (cm s) \<le> rvTerm req \<and>
      (votedFor (cm s) = -1 \<or> votedFor (cm s) = rvCandidateId req) \<and> up_to_date req (cm s)) \<and>
    currentTerm (cm s') = max (currentTerm (cm s)) (rvTerm req) \<and> \<not> cmu (cm s') \<and>
    votedFor (cm s') = (if currentTerm (cm s) < rvTerm req then -1 else votedFor (cm s)) \<and>
    cmState (cm s') = (if currentTerm (cm s) < rvTerm req then FOLLOWER else cmState (cm s)) \<and>
    cmLog (cm s') = cmLog (cm s) \<and> peerIds (cm s') = peerIds (cm s) \<and> commitIndex (cm s') = commitIndex (cm s)"
  using assms
  by (cases "rvTerm req" "currentTerm (cm s)" rule: linorder_cases)
    (auto simp: RequestVote_def RequestVote_locked_def with_cm_lock_def run_deferred_def Let_def
      becomeFollower_def up_to_date_def lastLogIndexAndTerm_def max_def)

lemma up_to_date_cong: "cmLog c = cmLog c' \<Longrightarrow> up_to_date req c = up_to_date req c'"
  by (simp add: up_to_date_def lastLogIndexAndTerm_def)

text \<open>C25. \<open>RequestVote\<close> answers at once with the greater of the two terms, adopts it, and grants
  the vote exactly when the request's term is not older, no vote for another candidate is recorded and
  the candidate's log is at least as up to date.  Log and commit index do not change.  Its answer is
  never older than the request, so that \<open>vote_reply\<close> never takes the branch that keeps the mutex.\<close>
theorem RequestVote_rule:
  assumes "\<not> cmu (cm s)" and "rvTerm req = fst (elections (cm cand) ! el)" and "\<not> cmu (cm cand)"
  shows "\<exists>s' reply. RequestVote now req s = Ret s' reply \<and>
    vrTerm reply = max (currentTerm (cm s)) (rvTerm req) \<and> currentTerm (cm s') = vrTerm reply \<and>
    (vrGranted reply \<longleftrightarrow> currentTerm (cm s) \<le> rvTerm req \<and>
      (votedFor (cm s) = -1 \<or> votedFor (cm s) = rvCandidateId req) \<and> up_to_date req (cm s)) \<and>
    cmLog (cm s') = cmLog (cm s) \<and> commitIndex (cm s') = commitIndex (cm s) \<and>
    (\<exists>cand'. vote_reply now' p el reply cand = Ret cand' () \<and> \<not> cmu (cm cand'))"
proof -
  obtain s' reply where r: "RequestVote now req s = Ret s' reply"
    "vrTerm reply = max (currentTerm (cm s)) (rvTerm req)" "currentTerm (cm s') = vrTerm reply"
    "vrGranted reply \<longleftrightarrow> currentTerm (cm s) \<le> rvTerm req \<and>
      (votedFor (cm s) = -1 \<or> votedFor (cm s) = rvCandidateId req) \<and> up_to_date req (cm s)"
    "cmLog (cm s') = cmLog (cm s)" "commitIndex (cm s') = commitIndex (cm s)"
    using RequestVote_free[OF assms(1), of now req] by metis
  have "\<exists>cand'. vote_reply now' p el reply cand = Ret cand' () \<and> \<not> cmu (cm cand')"
    using assms(2,3) r(2)
    by (auto simp: vote_reply_def startLeader_def becomeFollower_def Let_def max_def split: if_splits)
  with r show ?thesis by blast
qed

theorem RequestVote_rule_witness:
  "\<exists>s' reply. RequestVote 0 \<lparr> rvTerm = 1, rvCandidateId = 1, rvLastLogIndex = 0, rvLastLogTerm = 0 \<rparr>
      (fresh_server 3 [1]) = Ret s' reply \<and> vrGranted reply"
  using RequestVote_rule[of "fresh_server 3 [1]"
      "\<lparr> rvTerm = 1, rvCandidateId = 1, rvLastLogIndex = 0, rvLastLogTerm = 0 \<rparr>"
      "upd_cm (elections_update (\<lambda>_. [(1, 1)])) (fresh_server 1 [3])" 0 0 0 3]
  by (auto simp: up_to_date_def lastLogIndexAndTerm_def)

text \<open>A vote is not recorded: a server that has just granted its vote in a new term to one
  candidate grants it in the same term to any other candidate whose log is up to date.\<close>
theorem vote_granted_twice:
  assumes "\<not> cmu (cm s)" "currentTerm (cm s) < rvTerm r1" "votedFor (cm s) = -1"
    and "up_to_date r1 (cm s)" "rvTerm r2 = rvTerm r1" "up_to_date r2 (cm s)"
  shows "\<exists>s1 v1 s2 v2. RequestVote now r1 s = Ret s1 v1 \<and> vrGranted v1 \<and>
    RequestVote now r2 s1 = Ret s2 v2 \<and> vrGranted v2 \<and> vrTerm v1 = vrTerm v2"
proof -
  obtain s1 v1 where s1: "RequestVote now r1 s = Ret s1 v1" "vrGranted v1" "vrTerm v1 = rvTerm r1"
    "currentTerm (cm s1) = rvTerm r1" "\<not> cmu (cm s1)" "votedFor (cm s1) = -1" "cmLog (cm s1) = cmLog (cm s)"
    using RequestVote_free[OF assms(1), of now r1] assms(2-4) by (auto simp: max_def)
  obtain s2 v2 where "RequestVote now r2 s1 = Ret s2 v2" "vrGranted v2" "vrTerm v2 = rvTerm r2"
    using RequestVote_free[OF s1(5), of now r2] s1 assms(5,6) up_to_date_cong[of "cm s1" "cm s" r2] by auto
  with s1 assms(5) show ?thesis by auto
qed

theorem vote_granted_twice_witness:
  "\<exists>s1 v1 s2 v2. RequestVote 0 \<lparr> rvTerm = 1, rvCandidateId = 1, rvLastLogIndex = 0, rvLastLogTerm = 0 \<rparr>
       (fresh_server 3 [1, 2]) = Ret s1 v1 \<and> vrGranted v1 \<and>
     RequestVote 0 \<lparr> rvTerm = 1, rvCandidateId = 2, rvLastLogIndex = 0, rvLastLogTerm = 0 \<rparr> s1 = Ret s2 v2 \<and>
     vrGranted v2"
  using vote_granted_twice[of "fresh_server 3 [1, 2]"
      "\<lparr> rvTerm = 1, rvCandidateId = 1, rvLastLogIndex = 0, rvLastLogTerm = 0 \<rparr>"
      "\<lparr> rvTerm = 1, rvCandidateId = 2, rvLastLogIndex = 0, rvLastLogTerm = 0 \<rparr>" 0]
  by (auto simp: up_to_date_def lastLogIndexAndTerm_def)

text \<open>One candidate asks one voter: the timer of the candidate has expired.\<close>

definition vote_round :: "i32 \<Rightarrow> server \<Rightarrow> server \<Rightarrow> (server \<times> server) option" where
  "vote_round voterId cand voter =
     (case startElection 0 cand of
        Ret c1 tasks \<Rightarrow>
          (case vote_request voterId (length (elections (cm cand))) c1 of
             Ret c2 req \<Rightarrow>
               (case RequestVote 0 req voter of
                  Ret v reply \<Rightarrow>
                    (case vote_reply 0 voterId (length (elections (cm cand))) reply c2 of
                       Ret c3 u \<Rightarrow> Some (c3, v)
                     | _ \<Rightarrow> None)
                | _ \<Rightarrow> None)
           | _ \<Rightarrow> None)
      | _ \<Rightarrow> None)"

lemma fresh_vote_round:
  assumes "currentTerm (cm v) \<le> 1" "\<not> cmu (cm v)" "votedFor (cm v) = -1"
    "cmLog (cm v) = [\<lparr> Command = CNil, Term = 0 \<rparr>]"
  shows "\<exists>c' v'. vote_round q (fresh_server me [p, q]) v = Some (c', v') \<and>
    cmState (cm c') = LEADER \<and> currentTerm (cm c') = 1 \<and> cmId (cm c') = me \<and>
    currentTerm (cm v') = 1 \<and> \<not> cmu (cm v') \<and> votedFor (cm v') = -1 \<and>
    cmLog (cm v') = [\<lparr> Command = CNil, Term = 0 \<rparr>]"
proof -
  let ?c = "fresh_server me [p, q]"
  let ?req = "\<lparr> rvTerm = 1, rvCandidateId = me, rvLastLogIndex = 0, rvLastLogTerm = 0 \<rparr>"
  obtain c1 where c1: "startElection 0 ?c = Ret c1 [(p, 0), (q, 0)]" "cmState (cm c1) = CANDIDATE"
    "elections (cm c1) = [(1, 1)]" "peerIds (cm c1) = [p, q]" "\<not> cmu (cm c1)" "currentTerm (cm c1) = 1"
    "cmId (cm c1) = me" "cmLog (cm c1) = [\<lparr> Command = CNil, Term = 0 \<rparr>]" "peers c1 q = Some (Some ''peer'')"
    by (simp add: startElection_def Let_def) (simp add: fresh_server_def)
  then have req: "vote_request q 0 c1 = Ret c1 ?req"
    by (auto simp: vote_request_def lastLogIndexAndTerm_def)
  have "up_to_date ?req (cm v)" using assms(4) by (simp add: up_to_date_def lastLogIndexAndTerm_def)
  then obtain v' r where v': "RequestVote 0 ?req v = Ret v' r" "vrTerm r = 1" "vrGranted r"
    "currentTerm (cm v') = 1" "\<not> cmu (cm v')" "votedFor (cm v') = -1" "cmLog (cm v') = cmLog (cm v)"
    using RequestVote_free[OF assms(2), of 0 ?req] assms(1,3) by (auto simp: max_def)
  obtain c2 where "vote_reply 0 q 0 r c1 = Ret c2 ()" "cmState (cm c2) = LEADER" "currentTerm (cm c2) = 1"
    "cmId (cm c2) = me"
    using c1 v' by (auto simp: vote_reply_def startLeader_def Let_def)
  with c1 req v' assms(4) show ?thesis by (simp add: vote_round_def)
qed

text \<open>C33. Election safety fails: in a cluster of three new masters, two candidates that ask the third
  one after the other both win the election of term 1.\<close>
theorem two_leaders_in_one_term:
  "\<exists>a b v1 v2. vote_round 3 (fresh_server 1 [2, 3]) (fresh_server 3 [1, 2]) = Some (a, v1) \<and>
     vote_round 3 (fresh_server 2 [1, 3]) v1 = Some (b, v2) \<and>
     cmState (cm a) = LEADER \<and> cmState (cm b) = LEADER \<and>
     currentTerm (cm a) = 1 \<and> currentTerm (cm b) = 1 \<and> cmId (cm a) \<noteq> cmId (cm b)"
proof -
  obtain a v1 where a: "vote_round 3 (fresh_server 1 [2, 3]) (fresh_server 3 [1, 2]) = Some (a, v1)"
    "cmState (cm a) = LEADER" "currentTerm (cm a) = 1" "cmId (cm a) = 1"
    and v1: "currentTerm (cm v1) = 1" "\<not> cmu (cm v1)" "votedFor (cm v1) = -1"
      "cmLog (cm v1) = [\<lparr> Command = CNil, Term = 0 \<rparr>]"
    using fresh_vote_round[of "fresh_server 3 [1, 2]" 3 1 2] by auto
  obtain b v2 where "vote_round 3 (fresh_server 2 [1, 3]) v1 = Some (b, v2)"
    "cmState (cm b) = LEADER" "currentTerm (cm b) = 1" "cmId (cm b) = 2"
    using fresh_vote_round[of v1 3 2 1] v1 by auto
  with a show ?thesis by auto
qed

text \<open>A server that voted for itself in an earlier election refuses the candidate of a later term
  once, however good its log, although that very request clears the vote: sent again, it is granted.\<close>
theorem own_vote_blocks_next_term:
  assumes "\<not> cmu (cm s)" "currentTerm (cm s) < rvTerm req" "up_to_date req (cm s)"
    and "votedFor (cm s) = cmId (cm s)" "cmId (cm s) \<noteq> -1" "rvCandidateId req \<noteq> cmId (cm s)"
  shows "\<exists>s1 v1 s2 v2. RequestVote now req s = Ret s1 v1 \<and> \<not> vrGranted v1 \<and>
    RequestVote now req s1 = Ret s2 v2 \<and> vrGranted v2"
proof -
  obtain s1 v1 where s1: "RequestVote now req s = Ret s1 v1" "\<not> vrGranted v1"
    "currentTerm (cm s1) = rvTerm req" "\<not> cmu (cm s1)" "votedFor (cm s1) = -1" "cmLog (cm s1) = cmLog (cm s)"
    using RequestVote_free[OF assms(1), of now req] assms(3-6) less_imp_le[OF assms(2)] assms(2)
    by (auto simp: max_absorb2)
  obtain s2 v2 where "RequestVote now req s1 = Ret s2 v2" "vrGranted v2"
    using RequestVote_free[OF s1(4), of now req] s1 assms(3) up_to_date_cong[of "cm s1" "cm s" req] by auto
  with s1 show ?thesis by auto
qed

theorem own_vote_blocks_next_term_witness:
  "\<exists>s1 v1. RequestVote 0 \<lparr> rvTerm = 2, rvCandidateId = 1, rvLastLogIndex = 0, rvLastLogTerm = 0 \<rparr>
       (upd_cm (votedFor_update (\<lambda>_. 3)) (fresh_server 3 [1, 2])) = Ret s1 v1 \<and> \<not> vrGranted v1"
  using own_vote_blocks_next_term[of "upd_cm (votedFor_update (\<lambda>_. 3)) (fresh_server 3 [1, 2])"
      "\<lparr> rvTerm = 2, rvCandidateId = 1, rvLastLogIndex = 0, rvLastLogTerm = 0 \<rparr>" 0]
  by (auto simp: up_to_date_def lastLogIndexAndTerm_def)

text \<open>What any call of a handler keeps, however it ends.\<close>

lemma final_obind: "final_state (obind m f) = (case m of Ret s a \<Rightarrow> final_state (f s a) | _ \<Rightarrow> final_state m)"
  by (cases m) simp_all

lemma Execute_term: "currentTerm (cm (final_state (Execute dial e s))) = currentTerm (cm s)"
proof (cases "Deserialize e")
  case (Some og)
  then show ?thesis
    by (cases og)
      (auto simp: Execute_def executor_of final_obind with_cm_lock_def add_node_obj_def Let_def)
qed (simp add: Execute_def)

lemma apply_entries_term:
  "currentTerm (cm (final_state (apply_entries dial es s))) = currentTerm (cm s)"
proof (induction es arbitrary: s)
  case (Cons e es)
  let ?s = "s\<lparr> logFile := logFile s @ [e] \<rparr>"
  have t: "currentTerm (cm (final_state (Execute dial e ?s))) = currentTerm (cm s)"
    using Execute_term[of dial e ?s] by simp
  show ?case
  proof (cases "Execute dial e ?s")
    case (Ret s1 og)
    with t Cons[of s1] show ?thesis by (cases "apply_entries dial es s1") simp_all
  qed (use t in simp_all)
qed simp

lemma append_new_term: "currentTerm (cm (final_state (append_new dial req s))) = currentTerm (cm s)"
proof -
  obtain li ni where m: "match_entries (cmLog (cm s)) (aeEntries req) (unat (aePrevLogIndex req + 1)) 0 = (li, ni)"
    by force
  show ?thesis
    using apply_entries_term[of dial "drop ni (aeEntries req)" s]
    by (auto simp: append_new_def m final_obind split: outcome.split)
qed

lemma follow_commit_term: "currentTerm (cm (final_state (follow_commit req s))) = currentTerm (cm s)"
  by (simp add: follow_commit_def)

lemma with_cm_lock_term:
  assumes "\<And>t. currentTerm (cm (final_state (body t))) = f (currentTerm (cm t))" "\<not> cmu (cm s)"
  shows "currentTerm (cm (final_state (with_cm_lock body s))) = f (currentTerm (cm s))"
  using assms(1)[of "upd_cm (cmu_update (\<lambda>_. True)) s"] assms(2)
  by (auto simp: with_cm_lock_def split: outcome.splits)

lemma AppendEntries_term:
  assumes "\<not> cmu (cm s)"
  shows "currentTerm (cm (final_state (AppendEntries dial now req s))) = max (currentTerm (cm s)) (aeTerm req)"
  unfolding AppendEntries_def
proof (rule with_cm_lock_term[OF _ assms])
  fix t
  let ?t = "upd_cm (AE_terms now req) t"
  show "currentTerm (cm (final_state (let s1 = ?t;
         leader = if aeTerm req < currentTerm (cm s1) then currentLeader (cm s1) else 0;
         resp = \<lambda>ok t. \<lparr> arTerm = currentTerm (cm t), arSuccess = ok, arLeaderId = leader \<rparr> in
     if prev_ok req (cmLog (cm s1)) then
       obind (append_new dial req s1) (\<lambda>s2 _.
         obind (follow_commit req s2) (\<lambda>s3 _. Ret s3 (resp True s3)))
     else Ret s1 (resp False s1)))) = max (currentTerm (cm t)) (aeTerm req)"
  proof (cases "append_new dial req ?t")
    case (Ret s2 u)
    then show ?thesis
      using append_new_term[of dial req ?t] follow_commit_term[of req s2]
      by (auto simp: Let_def final_obind split: outcome.splits)
  qed (use append_new_term[of dial req ?t] in \<open>auto simp: Let_def\<close>)
qed

text \<open>C34. Terms never go back while \<open>AppendEntries\<close> and \<open>RequestVote\<close> run one after the other: for every request, stale ones
  included, and however the call ends, the term becomes the greater of the server's and the request's.  But the deferred \<open>becomeFollower\<close> of \<open>RequestVote\<close> runs after the mutex is
  released: if a request of a greater term is served in between, the server falls back to the smaller
  term.\<close>
theorem terms_and_the_deferred_step_down:
  assumes "\<not> cmu (cm s)"
  shows "currentTerm (cm (final_state (RequestVote now rv s))) = max (currentTerm (cm s)) (rvTerm rv) \<and>
    currentTerm (cm (final_state (AppendEntries dial now req s))) = max (currentTerm (cm s)) (aeTerm req) \<and>
    (currentTerm (cm s) < rvTerm r1 \<longrightarrow> rvTerm r1 < rvTerm r2 \<longrightarrow> (\<exists>s1 v1 d1 s2 v2. RequestVote_locked now r1 s = Ret s1 (v1, d1) \<and>
       RequestVote now r2 s1 = Ret s2 v2 \<and> currentTerm (cm s2) = rvTerm r2 \<and>
       currentTerm (cm (run_deferred now d1 s2)) = rvTerm r1))"
proof -
  obtain s0 v0 where s0: "RequestVote now rv s = Ret s0 v0"
    "currentTerm (cm s0) = max (currentTerm (cm s)) (rvTerm rv)"
    using RequestVote_free[OF assms, of now rv] by blast
  have "\<exists>s1 v1 d1 s2 v2. RequestVote_locked now r1 s = Ret s1 (v1, d1) \<and>
       RequestVote now r2 s1 = Ret s2 v2 \<and> currentTerm (cm s2) = rvTerm r2 \<and>
       currentTerm (cm (run_deferred now d1 s2)) = rvTerm r1" if lt: "currentTerm (cm s) < rvTerm r1" "rvTerm r1 < rvTerm r2"
  proof -
    obtain s1 v1 where s1: "RequestVote_locked now r1 s = Ret s1 (v1, Some (rvTerm r1, rvCandidateId r1))"
      "\<not> cmu (cm s1)" "currentTerm (cm s1) = rvTerm r1"
      using assms lt(1) by (auto simp: RequestVote_locked_def with_cm_lock_def Let_def)
    obtain s2 v2 where "RequestVote now r2 s1 = Ret s2 v2" "currentTerm (cm s2) = rvTerm r2"
      using RequestVote_free[OF s1(2), of now r2] s1(3) lt(2) by (auto simp: max_absorb2 less_imp_le)
    with s1 show ?thesis by (auto simp: run_deferred_def becomeFollower_def)
  qed
  with s0 AppendEntries_term[OF assms, of dial now req] show ?thesis by simp
qed

theorem terms_and_the_deferred_step_down_witness:
  "\<exists>s1 v1 d1 s2 v2. RequestVote_locked 0 \<lparr> rvTerm = 1, rvCandidateId = 1, rvLastLogIndex = 0, rvLastLogTerm = 0 \<rparr>
       (fresh_server 3 [1, 2]) = Ret s1 (v1, d1) \<and>
     RequestVote 0 \<lparr> rvTerm = 2, rvCandidateId = 2, rvLastLogIndex = 0, rvLastLogTerm = 0 \<rparr> s1 = Ret s2 v2 \<and>
     currentTerm (cm (run_deferred 0 d1 s2)) = 1"
  using terms_and_the_deferred_step_down[of "fresh_server 3 [1, 2]" 0
      "\<lparr> rvTerm = 1, rvCandidateId = 1, rvLastLogIndex = 0, rvLastLogTerm = 0 \<rparr>" "\<lambda>_. True" first_append
      "\<lparr> rvTerm = 1, rvCandidateId = 1, rvLastLogIndex = 0, rvLastLogTerm = 0 \<rparr>"
      "\<lparr> rvTerm = 2, rvCandidateId = 2, rvLastLogIndex = 0, rvLastLogTerm = 0 \<rparr>"]
  by auto

section \<open>Where the module stops for ever\<close>

definition stuck :: "server \<Rightarrow> bool" where
  "stuck s \<longleftrightarrow> cmu (cm s)"

lemma stuck_all:
  assumes "stuck s"
  shows "AppendEntries dial now req s = Block s \<and> RequestVote now rv s = Block s \<and>
    Submit cmd s = Block s \<and> hb_request p t s = Block s \<and> leaderSendHeartbeats s = Block s \<and>
    CM_State s = Block s \<and> CurrentLeader s = Block s"
  using assms
  by (simp add: stuck_def AppendEntries_def RequestVote_def RequestVote_locked_def Submit_def
      with_cm_lock_def hb_request_def leaderSendHeartbeats_def CM_State_def CurrentLeader_def)

lemma AppendEntries_blocks:
  assumes free: "\<not> cmu (cm s)" and ok: "prev_ok req (cmLog (cm s))"
    and blk: "append_new dial req (upd_cm (AE_terms now req) (upd_cm (cmu_update (\<lambda>_. True)) s)) = Block t"
  shows "AppendEntries dial now req s = Block t"
  using free ok blk by (simp add: AppendEntries_def with_cm_lock_def Let_def)

lemma append_new_node_blocks:
  assumes ok: "prev_ok req (cmLog (cm s))" "cmLog (cm s) \<noteq> []" "length (cmLog (cm s)) < 2 ^ 64"
    and np: "new_part req (cmLog (cm s)) = e # rest" "eType e = 3" and mu: "cmu (cm s)"
  shows "append_new dial req s = Block (s\<lparr> logFile := logFile s @ [e] \<rparr>)"
proof -
  let ?lg = "cmLog (cm s)" and ?p = "Suc (unat (aePrevLogIndex req))"
  let ?m = "agree (drop ?p ?lg) (aeEntries req)"
  note p = prev_index[OF ok]
  have m: "match_entries ?lg (aeEntries req) (unat (aePrevLogIndex req + 1)) 0 = (?p + ?m, ?m)"
    using match_entries_agree[OF p(2), of 0 "aeEntries req"] p(1) by simp
  have d: "drop ?m (aeEntries req) = e # rest" using np(1) by (simp add: new_part_def)
  then have "?m < length (aeEntries req)" by (metis drop_all list.distinct(1) not_less)
  moreover have "Execute dial e (s\<lparr> logFile := logFile s @ [e] \<rparr>) = Block (s\<lparr> logFile := logFile s @ [e] \<rparr>)"
    using np(2) mu
    by (auto simp: Execute_def Deserialize_def decoder_of EntryToAddNodeStruct_def executor_of
        with_cm_lock_def split_beta)
  ultimately show ?thesis by (simp add: append_new_def m d)
qed

text \<open>The same anywhere among the new entries: what is before the \<open>AddNode\<close> entry is executed, then the handler waits, and the
  log is as before.\<close>

lemma apply_entries_node_blocks:
  assumes "cmu (cm s)" "\<forall>e \<in> set es. eType e = 1 \<or> eType e = 3" "\<exists>e \<in> set es. eType e = 3"
  shows "\<exists>t ps. apply_entries dial es s = Block t \<and> cm t = (cm s)\<lparr> peerIds := ps \<rparr>"
  using assms
proof (induction es arbitrary: s)
  case (Cons e es)
  let ?s = "s\<lparr> logFile := logFile s @ [e] \<rparr>"
  show ?case
  proof (cases "eType e = 3")
    case True
    then have "Execute dial e ?s = Block ?s"
      using Cons.prems(1)
      by (auto simp: Execute_def Deserialize_def decoder_of EntryToAddNodeStruct_def executor_of with_cm_lock_def split_beta)
    then show ?thesis by (intro exI[of _ ?s] exI[of _ "peerIds (cm s)"]) simp
  next
    case False
    with Cons.prems have e: "is_server e" "\<exists>e \<in> set es. eType e = 3" by (auto simp: is_server_def)
    obtain s1 where s1: "Execute dial e ?s = Ret s1 (Command (decoded e))"
      "cm s1 = (cm s)\<lparr> peerIds := peerIds (cm s) @ joined (cmId (cm s)) [e] \<rparr>"
      by (rule Execute_server[OF e(1), of dial ?s]) simp
    have "\<exists>t ps. apply_entries dial es s1 = Block t \<and> cm t = (cm s1)\<lparr> peerIds := ps \<rparr>"
      using Cons.IH[of s1] Cons.prems e(2) s1(2) by simp
    then show ?thesis using s1 by force
  qed
qed simp

lemma AppendEntries_node_blocks:
  assumes free: "\<not> cmu (cm s)" and ok: "prev_ok req (cmLog (cm s))" "cmLog (cm s) \<noteq> []" "length (cmLog (cm s)) < 2 ^ 64"
    and np: "\<forall>e \<in> set (new_part req (cmLog (cm s))). eType e = 1 \<or> eType e = 3"
      "\<exists>e \<in> set (new_part req (cmLog (cm s))). eType e = 3"
  obtains t where "AppendEntries dial now req s = Block t" "cmu (cm t)" "cmLog (cm t) = cmLog (cm s)"
    "currentTerm (cm t) = max (currentTerm (cm s)) (aeTerm req)"
proof -
  let ?s = "upd_cm (AE_terms now req) (upd_cm (cmu_update (\<lambda>_. True)) s)"
  let ?lg = "cmLog (cm s)" and ?p = "Suc (unat (aePrevLogIndex req))"
  let ?m = "agree (drop ?p ?lg) (aeEntries req)"
  note p = prev_index[OF ok]
  have m: "match_entries ?lg (aeEntries req) (unat (aePrevLogIndex req + 1)) 0 = (?p + ?m, ?m)"
    using match_entries_agree[OF p(2), of 0 "aeEntries req"] p(1) by simp
  have d: "new_part req ?lg = drop ?m (aeEntries req)" by (simp add: new_part_def)
  with np(2) have lt: "?m < length (aeEntries req)" by (metis drop_all empty_iff empty_set not_less)
  obtain t ps where t: "apply_entries dial (drop ?m (aeEntries req)) ?s = Block t" "cm t = (cm ?s)\<lparr> peerIds := ps \<rparr>"
    using apply_entries_node_blocks[of ?s "drop ?m (aeEntries req)" dial] np d by auto
  have "append_new dial req ?s = Block t" using lt m t(1) by (simp add: append_new_def)
  then have "AppendEntries dial now req s = Block t" by (rule AppendEntries_blocks[OF free ok(1)])
  then show thesis by (rule that) (simp_all add: t(2))
qed

text \<open>C37. A follower that receives a new \<open>AddNode\<close> entry deadlocks: \<open>AppendEntries\<close> holds the mutex
  and \<open>AddNodeExecutor\<close> locks it again.  The call never returns, and neither does any later call that
  needs the mutex.\<close>
theorem AddNode_entry_deadlocks:
  assumes "\<not> cmu (cm s)" "prev_ok req (cmLog (cm s))" "cmLog (cm s) \<noteq> []" "length (cmLog (cm s)) < 2 ^ 64"
    and "new_part req (cmLog (cm s)) = e # rest" "eType e = 3"
  shows "\<exists>t. AppendEntries dial now req s = Block t \<and>
    (\<forall>now' req' rv cmd. AppendEntries dial now' req' t = Block t \<and> RequestVote now' rv t = Block t \<and>
      Submit cmd t = Block t \<and> leaderSendHeartbeats t = Block t)"
proof -
  let ?s = "upd_cm (AE_terms now req) (upd_cm (cmu_update (\<lambda>_. True)) s)"
  let ?t = "?s\<lparr> logFile := logFile ?s @ [e] \<rparr>"
  have "append_new dial req ?s = Block ?t"
    using assms by (intro append_new_node_blocks[of req ?s e rest]) simp_all
  then have "AppendEntries dial now req s = Block ?t" by (rule AppendEntries_blocks[OF assms(1,2)])
  moreover have "stuck ?t" by (simp add: stuck_def)
  ultimately show ?thesis using stuck_all by blast
qed

theorem AddNode_entry_deadlocks_witness:
  "\<exists>t. AppendEntries (\<lambda>_. True) 0 (first_append\<lparr> aeEntries := [node_entry 4 0] \<rparr>) (fresh_server 5 [7]) = Block t"
  using AddNode_entry_deadlocks[of "fresh_server 5 [7]" "first_append\<lparr> aeEntries := [node_entry 4 0] \<rparr>"
      "node_entry 4 0" "[]" "\<lambda>_. True" 0]
  by (auto simp: ae_evals node_entry_def)

text \<open>A follower whose log is shorter than the leader's commit index hangs: it clamps the commit
  index, then sends on the channel \<open>newCommitReadyChan\<close>, which is nil, while it holds the mutex.\<close>
theorem commit_beyond_log_hangs:
  assumes "\<not> cmu (cm s)" "prev_ok req (cmLog (cm s))" "cmLog (cm s) \<noteq> []" "length (cmLog (cm s)) < 2 ^ 64"
    and "new_part req (cmLog (cm s)) = []"
    and "commitIndex (cm s) < aeLeaderCommit req" "length (cmLog (cm s)) \<le> unat (aeLeaderCommit req)"
  shows "\<exists>t. AppendEntries dial now req s = Block t \<and>
    commitIndex (cm t) = of_nat (length (cmLog (cm s)) - 1) \<and>
    (\<forall>now' req' rv cmd. AppendEntries dial now' req' t = Block t \<and> RequestVote now' rv t = Block t \<and>
      Submit cmd t = Block t)"
proof -
  let ?s = "upd_cm (AE_terms now req) (upd_cm (cmu_update (\<lambda>_. True)) s)"
  obtain s2 where s2: "append_new dial req ?s = Ret s2 ()"
    "cm s2 = (cm ?s)\<lparr> peerIds := peerIds (cm ?s) @ joined (cmId (cm ?s)) (new_part req (cmLog (cm ?s))),
      cmLog := merged req (cmLog (cm ?s)) \<rparr>"
    "dom (peers s2) = dom (peers ?s) \<union> set (joined (cmId (cm ?s)) (new_part req (cmLog (cm ?s))))"
    "logFile s2 = logFile ?s @ new_part req (cmLog (cm ?s))"
    by (rule append_new_merges[of req ?s dial]) (use assms(2-5) in simp_all)
  have lg: "merged req (cmLog (cm s)) = cmLog (cm s)"
    using assms(5) by (auto simp: merged_def new_part_def merge_log_agree Let_def)
  have n: "unat (of_nat (length (cmLog (cm s))) - 1 :: u64) = length (cmLog (cm s)) - 1"
    using assms(3,4) by (cases "cmLog (cm s)") (simp_all add: unat_of_nat)
  have "of_nat (length (cmLog (cm s))) - 1 < aeLeaderCommit req"
    unfolding word_less_nat_alt n using assms(3,7) by (cases "cmLog (cm s)") auto
  with s2 lg assms(6) have "follow_commit req s2 =
      Block (upd_cm (\<lambda>c. c\<lparr> commitIndex := of_nat (length (cmLog c) - 1) \<rparr>) s2)" (is "_ = Block ?t")
    by (simp add: follow_commit_def)
  with s2 assms(1,2) have "AppendEntries dial now req s = Block ?t"
    by (simp add: AppendEntries_def with_cm_lock_def Let_def)
  moreover have "stuck ?t" "commitIndex (cm ?t) = of_nat (length (cmLog (cm s)) - 1)"
    using s2 lg by (simp_all add: stuck_def)
  ultimately show ?thesis using stuck_all by blast
qed

theorem commit_beyond_log_hangs_witness:
  "\<exists>t. AppendEntries (\<lambda>_. True) 0 (first_append\<lparr> aeEntries := [], aeLeaderCommit := 1 \<rparr>) (fresh_server 5 [7]) = Block t"
  using commit_beyond_log_hangs[of "fresh_server 5 [7]" "first_append\<lparr> aeEntries := [], aeLeaderCommit := 1 \<rparr>"
      "\<lambda>_. True" 0]
  by (auto simp: ae_evals)

section \<open>The leader's side\<close>

lemma serialize_all_registered:
  assumes "\<forall>v \<in> set vs. registered (Command v)"
  shows "\<exists>es. serialize_all vs = Some es \<and> map eTerm es = map (\<lambda>_. 0) vs \<and>
    map Deserialize es = map (\<lambda>v. Some (Command v)) vs"
  using assms
proof (induction vs)
  case (Cons v vs)
  have "v = \<lparr> Command = Command v, Term = Term v \<rparr>" by simp
  with Serialize_registered[of "Command v" "Term v"] Cons obtain e es where
    "Serialize v = Some e" "Deserialize e = Some (Command v)" "eTerm e = 0"
    "serialize_all vs = Some es" "map eTerm es = map (\<lambda>_. 0) vs"
    "map Deserialize es = map (\<lambda>v. Some (Command v)) vs" by auto
  then show ?case by simp
qed simp

lemma sint_small:
  assumes "unat (x :: u64) < 2 ^ 63"
  shows "0 \<le> sint x"
proof -
  have "\<not> bit (unat x) 63" using assms by (simp add: bit_iff_odd)
  then have "\<not> bit x 63" by (simp add: bit_unsigned_iff)
  then show ?thesis by (simp add: sint_uint signed_take_bit_nonnegative_iff bit_simps)
qed

lemma unat_pred: "0 < unat (x :: u64) \<Longrightarrow> unat (x - 1) = unat x - 1"
  by (subst unat_minus_one) (auto simp: unat_gt_0)

lemma hb_request_ok:
  assumes free: "\<not> cmu (cm s)" and ni: "nextIndex (cm s) p = Some ni"
    and rng: "1 \<le> unat ni" "unat ni \<le> length (cmLog (cm s))" "length (cmLog (cm s)) < 2 ^ 63"
    and reg: "\<forall>v \<in> set (drop (unat ni) (cmLog (cm s))). registered (Command v)"
    and cl: "peers s p = Some (Some a)"
  obtains es where "serialize_all (drop (unat ni) (cmLog (cm s))) = Some es"
    "hb_request p t s = Ret s (\<lparr> aeTerm = t, aeLeaderId = cmId (cm s), aePrevLogIndex = ni - 1,
       aePrevLogTerm = Term (cmLog (cm s) ! unat (ni - 1)), aeEntries = es,
       aeLeaderCommit = commitIndex (cm s) \<rparr>, ni)"
    "unat (ni - 1) = unat ni - 1"
proof -
  have p1: "unat (ni - 1) = unat ni - 1" using rng(1) by (intro unat_pred) simp
  with rng have "unat (ni - 1) < 2 ^ 63" by linarith
  then have s0: "0 \<le> sint (ni - 1)" by (rule sint_small)
  obtain es where es: "serialize_all (drop (unat ni) (cmLog (cm s))) = Some es"
    using serialize_all_registered[OF reg] by blast
  with cl free ni s0 p1 rng
  have "hb_request p t s = Ret s (\<lparr> aeTerm = t, aeLeaderId = cmId (cm s), aePrevLogIndex = ni - 1,
       aePrevLogTerm = Term (cmLog (cm s) ! unat (ni - 1)), aeEntries = es,
       aeLeaderCommit = commitIndex (cm s) \<rparr>, ni)"
    by (auto simp: hb_request_def map_get_def Let_def)
  with es p1 show thesis by (intro that)
qed

text \<open>A leader loses track of a follower that has everything.  Entries travel with term 0, so a
  follower stores them with term 0, while the leader keeps the term of the election.  When the leader
  believes a follower to hold its whole log, its next heartbeat names its own term for the last entry,
  the follower's check fails, and the leader takes \<open>nextIndex\<close> back by one.\<close>
theorem replicated_entry_fails_next_check:
  assumes "\<not> cmu (cm l)" "cmState (cm l) = LEADER" "currentTerm (cm l) = t"
    and "nextIndex (cm l) p = Some ni" "unat ni = length (cmLog (cm l))"
    and "1 < length (cmLog (cm l))" "length (cmLog (cm l)) < 2 ^ 63"
    and "Term (last (cmLog (cm l))) \<noteq> 0" "peers l p = Some (Some a)"
    and "\<not> cmu (cm f)" "length (cmLog (cm f)) = length (cmLog (cm l))" "Term (last (cmLog (cm f))) = 0"
    and "currentTerm (cm f) \<le> t"
  shows "\<exists>req f' resp l'. hb_request p t l = Ret l (req, ni) \<and> aeEntries req = [] \<and>
    AppendEntries dial now req f = Ret f' resp \<and> \<not> arSuccess resp \<and> cmLog (cm f') = cmLog (cm f) \<and>
    hb_response now p t ni 0 resp l = Ret l' () \<and> nextIndex (cm l') p = Some (ni - 1)"
proof -
  obtain es where es: "serialize_all (drop (unat ni) (cmLog (cm l))) = Some es"
    "hb_request p t l = Ret l (\<lparr> aeTerm = t, aeLeaderId = cmId (cm l), aePrevLogIndex = ni - 1,
       aePrevLogTerm = Term (cmLog (cm l) ! unat (ni - 1)), aeEntries = es,
       aeLeaderCommit = commitIndex (cm l) \<rparr>, ni)"
    "unat (ni - 1) = unat ni - 1"
    by (rule hb_request_ok[OF assms(1,4), where t = t]) (use assms in auto)
  let ?req = "\<lparr> aeTerm = t, aeLeaderId = cmId (cm l), aePrevLogIndex = ni - 1,
       aePrevLogTerm = Term (cmLog (cm l) ! unat (ni - 1)), aeEntries = es,
       aeLeaderCommit = commitIndex (cm l) \<rparr>"
  have nil: "es = []" using es(1) assms(5) by simp
  have "ni - 1 \<noteq> 0" using es(3) assms(5,6) by (metis One_nat_def diff_is_0_eq not_less unat_0)
  moreover have "cmLog (cm l) \<noteq> []" "cmLog (cm f) \<noteq> []" using assms(6,11) by auto
  ultimately have "\<not> prev_ok ?req (cmLog (cm f))"
    using assms(5,8,11,12) es(3) by (auto simp: prev_ok_def last_conv_nth)
  then obtain f' resp where f': "AppendEntries dial now ?req f = Ret f' resp" "\<not> arSuccess resp"
    "cmLog (cm f') = cmLog (cm f)" "arTerm resp = t"
    using assms(10,13) by (auto simp: AppendEntries_def with_cm_lock_def Let_def max_def)
  obtain l' where "hb_response now p t ni 0 resp l = Ret l' ()" "nextIndex (cm l') p = Some (ni - 1)"
    using assms(1,2) f'(2,4) by (auto simp: hb_response_def with_cm_lock_def)
  with es(2) nil f' show ?thesis by auto
qed

definition join_cmd :: "i32 \<Rightarrow> command" where
  "join_cmd i = CAddServer \<lparr> ServerAddr = ''a'', ServerId = i \<rparr>"

definition with_log :: "log_entry list \<Rightarrow> server \<Rightarrow> server" where
  "with_log es s = upd_cm (\<lambda>c. c\<lparr> cmLog := cmLog c @ es \<rparr>) s"

definition leader_ex :: server where
  "leader_ex = upd_cm (\<lambda>c. c\<lparr> cmState := LEADER, currentTerm := 1, nextIndex := [2 \<mapsto> 2] \<rparr>)
     (with_log [\<lparr> Command = join_cmd 3, Term = 1 \<rparr>] (fresh_server 1 [2]))"

theorem replicated_entry_fails_next_check_witness:
  "\<exists>req f' resp. hb_request 2 1 leader_ex = Ret leader_ex (req, 2) \<and>
     AppendEntries (\<lambda>_. True) 0 req (with_log [\<lparr> Command = join_cmd 3, Term = 0 \<rparr>] (fresh_server 2 [1])) =
       Ret f' resp \<and> \<not> arSuccess resp"
  using replicated_entry_fails_next_check[of leader_ex 1 2 2 "''peer''"
      "with_log [\<lparr> Command = join_cmd 3, Term = 0 \<rparr>] (fresh_server 2 [1])" "\<lambda>_. True" 0]
  by (force simp: leader_ex_def with_log_def fresh_server_def NewConsensusModule_def upd_cm_def)

text \<open>Conflicts are invisible: a follower whose entries came over the wire (term 0) keeps them when a
  leader sends other commands for the same indices, and answers with success.\<close>
theorem conflicting_entries_are_kept:
  assumes "\<not> cmu (cm f)" "cmLog (cm f) \<noteq> []" "length (cmLog (cm f)) < 2 ^ 64" "prev_ok req (cmLog (cm f))"
    and "\<forall>v \<in> set les. registered (Command v)" "serialize_all les = Some (aeEntries req)"
    and "Suc (unat (aePrevLogIndex req)) + length les \<le> length (cmLog (cm f))"
    and "\<forall>x \<in> set (drop (Suc (unat (aePrevLogIndex req))) (cmLog (cm f))). Term x = 0"
    and "aeLeaderCommit req \<le> commitIndex (cm f)"
  shows "\<exists>f' resp. AppendEntries dial now req f = Ret f' resp \<and> arSuccess resp \<and> cmLog (cm f') = cmLog (cm f)"
proof -
  let ?d = "drop (Suc (unat (aePrevLogIndex req))) (cmLog (cm f))" and ?es = "aeEntries req"
  have t: "map eTerm ?es = map (\<lambda>_. 0) les" using serialize_all_registered[OF assms(5)] assms(6) by auto
  then have len: "length ?es = length les" by (metis length_map)
  have z: "\<forall>e \<in> set ?es. eTerm e = 0"
    using arg_cong[OF t, of set] by auto
  have agree0: "agree xs es = length es"
    if "\<forall>x \<in> set xs. Term x = 0" "\<forall>e \<in> set es. eTerm e = 0" "length es \<le> length xs" for xs es
    using that by (induction xs es rule: list_induct2') auto
  have a: "agree ?d ?es = length ?es"
    by (rule agree0) (use assms(7,8) z len in auto)
  then have np: "new_part req (cmLog (cm f)) = []" by (simp add: new_part_def)
  have lg: "merged req (cmLog (cm f)) = cmLog (cm f)"
    using a by (simp add: merged_def Let_def merge_log_agree)
  show ?thesis
    by (rule AppendEntries_merges[of f req dial now])
      (use assms(1-4,9) np lg in \<open>auto simp: commit_covered_def\<close>)
qed

theorem conflicting_entries_are_kept_witness:
  "\<exists>es f' resp. serialize_all [\<lparr> Command = join_cmd 4, Term = 2 \<rparr>] = Some es \<and>
     AppendEntries (\<lambda>_. True) 0 (first_append\<lparr> aeEntries := es \<rparr>)
       (with_log [\<lparr> Command = join_cmd 3, Term = 0 \<rparr>] (fresh_server 2 [1])) = Ret f' resp \<and>
     arSuccess resp \<and> Command (last (cmLog (cm f'))) = join_cmd 3"
proof -
  let ?les = "[\<lparr> Command = join_cmd 4, Term = 2 \<rparr>]"
  let ?f = "with_log [\<lparr> Command = join_cmd 3, Term = 0 \<rparr>] (fresh_server 2 [1])"
  have reg: "\<forall>v \<in> set ?les. registered (Command v)" by (simp add: registered_def join_cmd_def)
  then obtain es where es: "serialize_all ?les = Some es"
    using serialize_all_registered by blast
  have "\<exists>f' resp. AppendEntries (\<lambda>_. True) 0 (first_append\<lparr> aeEntries := es \<rparr>) ?f = Ret f' resp \<and>
      arSuccess resp \<and> cmLog (cm f') = cmLog (cm ?f)"
    by (rule conflicting_entries_are_kept[OF _ _ _ _ reg])
      (use es in \<open>simp_all add: with_log_def prev_ok_def first_append_def\<close>)
  with es show ?thesis by (force simp: with_log_def)
qed

text \<open>A deposed leader is still obeyed: a request of an older term whose previous entry matches is
  answered with success and rewrites the log, although the answer carries the newer term.\<close>
theorem stale_leader_is_obeyed:
  assumes "\<not> cmu (cm s)" "aeTerm req < currentTerm (cm s)"
    and "prev_ok req (cmLog (cm s))" "cmLog (cm s) \<noteq> []" "length (merged req (cmLog (cm s))) < 2 ^ 64"
      "length (cmLog (cm s)) < 2 ^ 64"
    and "\<forall>e \<in> set (new_part req (cmLog (cm s))). is_server e" "commit_covered req s"
  shows "\<exists>s' resp. AppendEntries dial now req s = Ret s' resp \<and> arSuccess resp \<and>
    arTerm resp = currentTerm (cm s) \<and> cmLog (cm s') = merged req (cmLog (cm s))"
  by (rule AppendEntries_merges[OF assms(1,3-8), of dial now])
    (use assms(2) in \<open>auto simp: max_def\<close>)

theorem stale_leader_is_obeyed_witness:
  "\<exists>s' resp. AppendEntries (\<lambda>_. True) 0 (first_append\<lparr> aeTerm := 0, aeEntries := [server_entry 9 5] \<rparr>)
       (upd_cm (currentTerm_update (\<lambda>_. 3)) (with_log [\<lparr> Command = join_cmd 3, Term = 3 \<rparr>] (fresh_server 2 [1]))) =
       Ret s' resp \<and> arSuccess resp \<and> arTerm resp = 3"
  using stale_leader_is_obeyed[of
      "upd_cm (currentTerm_update (\<lambda>_. 3)) (with_log [\<lparr> Command = join_cmd 3, Term = 3 \<rparr>] (fresh_server 2 [1]))"
      "first_append\<lparr> aeTerm := 0, aeEntries := [server_entry 9 5] \<rparr>" "\<lambda>_. True" 0]
  by (force simp: ae_evals with_log_def Let_def)

text \<open>\<open>Submit\<close> on a free module always answers.  On a leader a registered command is appended to the
  log with the current term and its entry to the log file; a command without converter panics after it
  has been appended, with the mutex released.  On any other server nothing changes and the answer names
  the leader it knows.\<close>
theorem Submit_rule:
  assumes "\<not> cmu (cm s)"
  shows "(cmState (cm s) = LEADER \<and> registered cmd \<longrightarrow>
      (\<exists>e s'. Submit cmd s = Ret s' (True, cmId (cm s)) \<and> Deserialize e = Some cmd \<and>
        cm s' = (cm s)\<lparr> cmLog := cmLog (cm s) @ [\<lparr> Command = cmd, Term = currentTerm (cm s) \<rparr>] \<rparr> \<and>
        logFile s' = logFile s @ [e])) \<and>
    (cmState (cm s) = LEADER \<and> \<not> registered cmd \<longrightarrow>
      (\<exists>s'. Submit cmd s = Panic s' \<and> cm s' = (cm s)\<lparr> cmLog := cmLog (cm s) @
         [\<lparr> Command = cmd, Term = currentTerm (cm s) \<rparr>] \<rparr> \<and> logFile s' = logFile s)) \<and>
    (cmState (cm s) \<noteq> LEADER \<longrightarrow> Submit cmd s = Ret s (False, currentLeader (cm s)))"
proof -
  have mu: "(cm s)\<lparr> cmu := False \<rparr> = cm s" using assms by (cases "cm s") simp
  have mu2: "(cm s)\<lparr> cmLog := l, cmu := False \<rparr> = (cm s)\<lparr> cmLog := l \<rparr>" for l
    using assms by (cases "cm s") simp
  have same: "upd_cm (\<lambda>c. c\<lparr> cmu := False \<rparr>) s = s" using mu by (simp add: upd_cm_def)
  have "Serialize \<lparr> Command = cmd, Term = t \<rparr> = None" if "\<not> registered cmd" for t
    using that by (cases cmd) (simp_all add: registered_def Serialize_cases)
  then show ?thesis
    using assms Serialize_registered[of cmd "currentTerm (cm s)"]
    by (auto simp: Submit_def with_cm_lock_def Let_def mu2 same)
qed

theorem Submit_rule_witness:
  "Submit (join_cmd 3) (fresh_server 1 [2]) = Ret (fresh_server 1 [2]) (False, 0)"
  using Submit_rule[of "fresh_server 1 [2]" "join_cmd 3"]
  by (simp add: fresh_server_def NewConsensusModule_def)

section \<open>Winning an election\<close>

text \<open>The granted replies of the peers \<open>ps\<close>, handled one after the other.\<close>

fun collect_votes :: "i32 list \<Rightarrow> nat \<Rightarrow> u64 \<Rightarrow> server \<Rightarrow> server" where
  "collect_votes [] el t s = s"
| "collect_votes (p # ps) el t s =
     collect_votes ps el t (final_state (vote_reply 0 p el \<lparr> vrTerm = t, vrGranted = True \<rparr> s))"

lemma collect_votes_leader:
  "cmState (cm s) = LEADER \<Longrightarrow> \<not> cmu (cm s) \<Longrightarrow> collect_votes ps el t s = s"
  by (induction ps) (simp_all add: vote_reply_def Let_def)

lemma collect_votes_count:
  assumes "cmState (cm s) = CANDIDATE" "\<not> cmu (cm s)" "el < length (elections (cm s))"
    "elections (cm s) ! el = (t, v)" "2 * v \<le> length (peerIds (cm s)) + 1"
  shows "cmState (cm (collect_votes ps el t s)) =
    (if length (peerIds (cm s)) + 1 < 2 * (v + length ps) then LEADER else CANDIDATE)"
  using assms
proof (induction ps arbitrary: s v)
  case (Cons p ps)
  let ?s1 = "upd_cm (\<lambda>c. c\<lparr> elections := (elections c)[el := (t, v + 1)] \<rparr>) s"
  show ?case
  proof (cases "length (peerIds (cm s)) + 1 < 2 * (v + 1)")
    case True
    obtain s2 where s2: "vote_reply 0 p el \<lparr> vrTerm = t, vrGranted = True \<rparr> s = Ret s2 ()"
      "cmState (cm s2) = LEADER" "\<not> cmu (cm s2)"
      using Cons.prems True by (auto simp: vote_reply_def startLeader_def Let_def)
    with True collect_votes_leader[OF s2(2,3)] show ?thesis by simp
  next
    case False
    then have "vote_reply 0 p el \<lparr> vrTerm = t, vrGranted = True \<rparr> s = Ret ?s1 ()"
      using Cons.prems by (simp add: vote_reply_def Let_def)
    moreover have "cmState (cm (collect_votes ps el t ?s1)) =
      (if length (peerIds (cm s)) + 1 < 2 * (v + 1 + length ps) then LEADER else CANDIDATE)"
      using Cons.IH[of ?s1 "v + 1"] Cons.prems False by simp
    ultimately show ?thesis by simp
  qed
qed simp

text \<open>C24. A candidate wins exactly with a majority: after \<open>startElection\<close> in a cluster with peers, the
  server leads as soon as its own vote and the granted replies together exceed half of the cluster, and
  not before; a server without peers leads at once.\<close>
theorem election_needs_majority:
  assumes "\<not> cmu (cm s)" "startElection now s = Ret s1 tasks" "t = currentTerm (cm s) + 1"
  shows "currentTerm (cm s1) = t \<and> map fst tasks = peerIds (cm s) \<and>
    (peerIds (cm s) = [] \<longrightarrow> cmState (cm s1) = LEADER) \<and>
    (peerIds (cm s) \<noteq> [] \<longrightarrow>
       (cmState (cm (collect_votes ps (length (elections (cm s))) t s1)) = LEADER \<longleftrightarrow>
        length (peerIds (cm s)) + 1 < 2 * (1 + length ps)))"
proof (cases "peerIds (cm s) = []")
  case True
  with assms show ?thesis by (auto simp: startElection_def startLeader_def Let_def)
next
  case False
  then have s1: "cmState (cm s1) = CANDIDATE" "\<not> cmu (cm s1)" "peerIds (cm s1) = peerIds (cm s)"
    "elections (cm s1) = elections (cm s) @ [(t, 1)]" "currentTerm (cm s1) = t"
    "tasks = map (\<lambda>p. (p, length (elections (cm s)))) (peerIds (cm s))"
    using assms by (auto simp: startElection_def Let_def)
  have "1 \<le> length (peerIds (cm s))" using False by (cases "peerIds (cm s)") auto
  with collect_votes_count[of s1 "length (elections (cm s))" t 1 ps] s1 False show ?thesis
    by (auto simp: comp_def)
qed

theorem election_needs_majority_witness:
  "\<exists>s1. startElection 0 (fresh_server 1 [2, 3]) = Ret s1 [(2, 0), (3, 0)] \<and>
     cmState (cm (collect_votes [2] 0 1 s1)) = LEADER \<and> cmState (cm (collect_votes [] 0 1 s1)) \<noteq> LEADER"
proof -
  obtain s1 where s1: "startElection 0 (fresh_server 1 [2, 3]) = Ret s1 [(2, 0), (3, 0)]"
    by (simp add: startElection_def Let_def)
  then show ?thesis
    using election_needs_majority[OF _ s1, of 1 "[2]"] election_needs_majority[OF _ s1, of 1 "[]"] by simp
qed

end
