(* ===== verification/PQueue.thy ===== *)
theory PQueue
  imports Prelude
begin

text \<open>
  \<open>pkg/pqueue/pqueue.go\<close>: the array-based binary heap from which the master picks the
  data node that receives the next upload.

  The slice \<open>data\<close> is a list of slots (\<open>None\<close> is the nil interface value that
  \<open>make([]Priorityer, n)\<close> leaves in unused slots), \<open>length\<close> and \<open>cap\<close> are the
  fields of the struct.  \<open>Priorityer\<close> is the parameter \<open>pri\<close>: the queue stores opaque
  items and asks for their priority each time it compares them.  Reading a slot that is out of
  range or nil and calling \<open>Priority()\<close> on it panics in Go; here the operations return
  \<open>None\<close> then, and the theorems show that this does not happen.

  The file shows: the shape and the heap order are kept by every operation, \<open>First\<close> and
  \<open>Pop\<close> return an item of greatest priority, \<open>Push\<close> and \<open>Pop\<close> change the multiset of
  items by exactly that item, and both recursions end.  The locale \<open>max_queue\<close> is the
  contract the upload manager relies on; the interpretation \<open>heap_queue\<close> discharges it.
\<close>

section \<open>Model\<close>

record 'a pqueue =
  data :: "'a option list"
  qlen :: nat
  qcap :: nat

definition NewPQueue :: "'a pqueue" where
  "NewPQueue = \<lparr>data = replicate 8 None, qlen = 0, qcap = 8\<rparr>"

definition rChild :: "nat \<Rightarrow> nat" where
  "rChild p = 2 * p + 2"

definition lChild :: "nat \<Rightarrow> nat" where
  "lChild p = 2 * p + 1"

definition parent :: "nat \<Rightarrow> int" where
  "parent c = (if c = 0 then -1 else (int c - 1) div 2)"

text \<open>The Go expression \<open>p.data[i].Priority()\<close>.\<close>

definition prio_at :: "('a \<Rightarrow> int) \<Rightarrow> 'a pqueue \<Rightarrow> nat \<Rightarrow> int option" where
  "prio_at pri p i = (if i < length (data p) then map_option pri (data p ! i) else None)"

text \<open>The Go statement \<open>p.data[a], p.data[b] = p.data[b], p.data[a]\<close>.\<close>

definition swap :: "nat \<Rightarrow> nat \<Rightarrow> 'a pqueue \<Rightarrow> 'a pqueue" where
  "swap a b p = p\<lparr>data := (data p)[a := data p ! b, b := data p ! a]\<rparr>"

lemma swap_sel [simp]:
  "qlen (swap a b p) = qlen p" "qcap (swap a b p) = qcap p"
  "length (data (swap a b p)) = length (data p)"
  by (simp_all add: swap_def)

lemma parent_nat [simp]: "0 < c \<Longrightarrow> nat (parent c) = (c - 1) div 2"
  by (auto simp: parent_def nat_div_distrib nat_diff_distrib)

function up :: "('a \<Rightarrow> int) \<Rightarrow> nat \<Rightarrow> 'a pqueue \<Rightarrow> 'a pqueue option" where
  "up pri c p =
     (if c = 0 then Some p
      else let pa = nat (parent c) in
        case (prio_at pri p pa, prio_at pri p c) of
          (Some x, Some y) \<Rightarrow> if x < y then up pri pa (swap pa c p) else Some p
        | _ \<Rightarrow> None)"
  by pat_completeness auto
termination
  by (relation "measure (\<lambda>(pri, c, p). c)") auto

function down :: "('a \<Rightarrow> int) \<Rightarrow> nat \<Rightarrow> 'a pqueue \<Rightarrow> 'a pqueue option" where
  "down pri i p =
     (let lc = lChild i; rc = rChild i in
      if qlen p \<le> lc then Some p
      else if qlen p \<le> rc then
        (case (prio_at pri p i, prio_at pri p lc) of
           (Some x, Some l) \<Rightarrow> Some (if x < l then swap i lc p else p)
         | _ \<Rightarrow> None)
      else
        (case (prio_at pri p lc, prio_at pri p rc, prio_at pri p i) of
           (Some l, Some r, Some x) \<Rightarrow>
             if r < l
             then if x < l then down pri lc (swap i lc p) else Some p
             else if x < r then down pri rc (swap i rc p) else Some p
         | _ \<Rightarrow> None))"
  by pat_completeness auto
termination
  by (relation "measure (\<lambda>(pri, i, p). qlen p - i)") (auto simp: lChild_def rChild_def)

declare up.simps [simp del] down.simps [simp del]

definition Push :: "('a \<Rightarrow> int) \<Rightarrow> 'a \<Rightarrow> 'a pqueue \<Rightarrow> 'a pqueue option" where
  "Push pri x p =
     (let p1 = (if qlen p = qcap p
                then p\<lparr>data := data p @ replicate (qcap p) None, qcap := qcap p * 2\<rparr> else p) in
      if qlen p1 < length (data p1)
      then let p2 = p1\<lparr>data := (data p1)[qlen p1 := Some x], qlen := qlen p1 + 1\<rparr>
           in up pri (qlen p2 - 1) p2
      else None)"

text \<open>\<open>First\<close> and \<open>Pop\<close> return the interface value: \<open>None\<close> inside the result is nil.\<close>

definition First :: "'a pqueue \<Rightarrow> 'a option option" where
  "First p =
     (if qlen p = 0 then Some None
      else if 0 < length (data p) then Some (data p ! 0) else None)"

definition Pop :: "('a \<Rightarrow> int) \<Rightarrow> 'a pqueue \<Rightarrow> ('a option \<times> 'a pqueue) option" where
  "Pop pri p =
     (if qlen p = 0 then Some (None, p)
      else if qlen p - 1 < length (data p)
      then let x = data p ! 0;
               p1 = p\<lparr>data := (data p)[0 := data p ! (qlen p - 1)], qlen := qlen p - 1\<rparr>
           in map_option (\<lambda>p2. (x, p2)) (down pri 0 p1)
      else None)"

definition Len :: "'a pqueue \<Rightarrow> nat" where
  "Len p = qlen p"

definition Clear :: "'a pqueue \<Rightarrow> 'a pqueue" where
  "Clear p = p\<lparr>data := replicate 8 None, qcap := 8, qlen := 0\<rparr>"

section \<open>Invariant\<close>

text \<open>The shape of the representation, and the items it holds.\<close>

definition shape :: "'a pqueue \<Rightarrow> bool" where
  "shape p \<longleftrightarrow> length (data p) = qcap p \<and> qlen p \<le> qcap p \<and> 0 < qcap p \<and>
     (\<forall>i < qlen p. data p ! i \<noteq> None)"

definition items :: "'a pqueue \<Rightarrow> 'a list" where
  "items p = map the (take (qlen p) (data p))"

text \<open>The heap order, stated on the priorities of the slots.\<close>

definition key :: "('a \<Rightarrow> int) \<Rightarrow> 'a pqueue \<Rightarrow> nat \<Rightarrow> int" where
  "key pri p i = pri (the (data p ! i))"

definition par :: "nat \<Rightarrow> nat" where
  "par i = (i - 1) div 2"

definition heap_on :: "(nat \<Rightarrow> int) \<Rightarrow> nat \<Rightarrow> bool" where
  "heap_on k n \<longleftrightarrow> (\<forall>i. 0 < i \<and> i < n \<longrightarrow> k i \<le> k (par i))"

definition heap_inv :: "('a \<Rightarrow> int) \<Rightarrow> 'a pqueue \<Rightarrow> bool" where
  "heap_inv pri p \<longleftrightarrow> shape p \<and> heap_on (key pri p) (qlen p)"

text \<open>While an item sifts, the order holds everywhere but at its slot.\<close>

definition heap_above :: "(nat \<Rightarrow> int) \<Rightarrow> nat \<Rightarrow> nat \<Rightarrow> bool" where
  "heap_above k n c \<longleftrightarrow>
     (\<forall>i. 0 < i \<and> i < n \<and> i \<noteq> c \<longrightarrow> k i \<le> k (par i)) \<and>
     (\<forall>i. 0 < i \<and> i < n \<and> par i = c \<and> 0 < c \<longrightarrow> k i \<le> k (par c))"

definition heap_below :: "(nat \<Rightarrow> int) \<Rightarrow> nat \<Rightarrow> nat \<Rightarrow> bool" where
  "heap_below k n c \<longleftrightarrow>
     (\<forall>i. 0 < i \<and> i < n \<and> par i \<noteq> c \<longrightarrow> k i \<le> k (par i)) \<and>
     (\<forall>i. 0 < i \<and> i < n \<and> par i = c \<and> 0 < c \<longrightarrow> k i \<le> k (par c))"

definition exch :: "nat \<Rightarrow> nat \<Rightarrow> (nat \<Rightarrow> int) \<Rightarrow> nat \<Rightarrow> int" where
  "exch a b k = k(a := k b, b := k a)"

lemma par_less: "0 < i \<Longrightarrow> par i < i"
  by (simp add: par_def)

lemma par_child_iff: "0 < i \<Longrightarrow> par i = p \<longleftrightarrow> i = lChild p \<or> i = rChild p"
  unfolding par_def lChild_def rChild_def by presburger

lemma par_child [simp]: "par (lChild p) = p" "par (rChild p) = p"
  by (simp_all add: par_def lChild_def rChild_def)

lemma child_gt: "p < lChild p" "p < rChild p" "lChild p < rChild p"
  by (simp_all add: lChild_def rChild_def)

lemma heap_on_max: "heap_on k n \<Longrightarrow> i < n \<Longrightarrow> k i \<le> k 0"
proof (induction i rule: less_induct)
  case (less i)
  show ?case
  proof (cases "i = 0")
    case False
    with less have "k i \<le> k (par i)" by (simp add: heap_on_def)
    also have "k (par i) \<le> k 0"
      using less False par_less[of i] by (intro less.IH) auto
    finally show ?thesis .
  qed simp
qed

section \<open>Sifting up\<close>

lemma heap_above_step:
  assumes h: "heap_above k n c" and c: "0 < c" "c < n" and lt: "k (par c) < k c"
  shows "heap_above (exch (par c) c k) n (par c)"
proof -
  have pc: "par c < c" using c(1) by (rule par_less)
  have ord: "k i \<le> k (par i)" if "0 < i" "i < n" "i \<noteq> c" for i
    using h that by (auto simp: heap_above_def)
  have kid: "k i \<le> k (par c)" if "0 < i" "i < n" "par i = c" for i
    using h that c by (auto simp: heap_above_def)
  have "exch (par c) c k i \<le> exch (par c) c k (par i)"
    if i: "0 < i" "i < n" "i \<noteq> par c" for i
  proof -
    have "par i < i" using i(1) by (rule par_less)
    then show ?thesis
      using ord[of i] kid[of i] i lt pc by (auto simp: exch_def)
  qed
  moreover have "exch (par c) c k i \<le> exch (par c) c k (par (par c))"
    if i: "0 < i" "i < n" "par i = par c" "0 < par c" for i
  proof -
    have up2: "k (par c) \<le> k (par (par c))"
      using ord[of "par c"] i pc c by auto
    have "par (par c) < par c" using i(4) by (rule par_less)
    then show ?thesis
      using ord[of i] i up2 pc par_less[OF i(1)] by (auto simp: exch_def)
  qed
  ultimately show ?thesis unfolding heap_above_def by blast
qed

lemma heap_above_stop:
  assumes "heap_above k n c" and "c = 0 \<or> k c \<le> k (par c)"
  shows "heap_on k n"
  using assms by (auto simp: heap_above_def heap_on_def)

lemma heap_above_last:
  assumes h: "heap_on k n" and eq: "\<And>i. i < n \<Longrightarrow> k' i = k i"
  shows "heap_above k' (n + 1) n"
proof -
  have "k' i \<le> k' (par i)" if "0 < i" "i < n" for i
    using h that par_less[of i] by (simp add: heap_on_def eq)
  moreover have "par i \<noteq> n" if "0 < i" "i < n + 1" for i
    using par_less[of i] that by simp
  ultimately show ?thesis by (auto simp: heap_above_def)
qed

section \<open>Sifting down\<close>

lemma heap_below_step:
  assumes h: "heap_below k n c" and ch: "0 < d" "par d = c" "d < n"
    and lt: "k c < k d" and big: "\<And>i. 0 < i \<Longrightarrow> i < n \<Longrightarrow> par i = c \<Longrightarrow> k i \<le> k d"
  shows "heap_below (exch c d k) n d"
proof -
  have cd: "c < d" using par_less[OF ch(1)] ch(2) by simp
  have ord: "k i \<le> k (par i)" if "0 < i" "i < n" "par i \<noteq> c" for i
    using h that by (auto simp: heap_below_def)
  have kid: "k i \<le> k (par c)" if "0 < i" "i < n" "par i = c" "0 < c" for i
    using h that by (auto simp: heap_below_def)
  have "exch c d k i \<le> exch c d k (par i)" if i: "0 < i" "i < n" "par i \<noteq> d" for i
  proof -
    have "par i < i" using i(1) by (rule par_less)
    then show ?thesis
      using ord[of i] big[of i] kid[of d] i lt cd ch by (auto simp: exch_def)
  qed
  moreover have "exch c d k i \<le> exch c d k (par d)"
    if i: "0 < i" "i < n" "par i = d" for i
    using ord[of i] i cd ch par_less[OF i(1)] by (auto simp: exch_def)
  ultimately show ?thesis unfolding heap_below_def by blast
qed

lemma heap_below_stop:
  assumes "heap_below k n c" and "\<And>i. 0 < i \<Longrightarrow> i < n \<Longrightarrow> par i = c \<Longrightarrow> k i \<le> k c"
  shows "heap_on k n"
  using assms by (auto simp: heap_below_def heap_on_def)

section \<open>The array operations\<close>

lemma prio_at_shape: "shape p \<Longrightarrow> i < qlen p \<Longrightarrow> prio_at pri p i = Some (key pri p i)"
  by (auto simp: prio_at_def shape_def key_def)

lemma key_swap:
  "shape p \<Longrightarrow> a < qlen p \<Longrightarrow> b < qlen p \<Longrightarrow> key pri (swap a b p) = exch a b (key pri p)"
  by (auto simp: key_def swap_def exch_def shape_def nth_list_update fun_eq_iff)

lemma shape_swap: "shape p \<Longrightarrow> a < qlen p \<Longrightarrow> b < qlen p \<Longrightarrow> shape (swap a b p)"
  by (auto simp: swap_def shape_def nth_list_update)

lemma mset_items_swap:
  assumes "shape p" "a < qlen p" "b < qlen p"
  shows "mset (items (swap a b p)) = mset (items p)"
proof -
  let ?xs = "take (qlen p) (data p)"
  have "take (qlen p) ((data p)[a := data p ! b, b := data p ! a]) = ?xs[a := ?xs ! b, b := ?xs ! a]"
    using assms by (simp add: take_update_swap)
  moreover have "mset (?xs[a := ?xs ! b, b := ?xs ! a]) = mset ?xs"
    using assms by (intro mset_swap) (auto simp: shape_def)
  ultimately show ?thesis by (simp add: items_def swap_def)
qed

lemmas swap_facts = shape_swap key_swap mset_items_swap

lemma up_correct:
  assumes "shape p" "c < qlen p" "heap_above (key pri p) (qlen p) c"
  shows "\<exists>p'. up pri c p = Some p' \<and> heap_inv pri p' \<and> qlen p' = qlen p \<and>
           mset (items p') = mset (items p)"
  using assms
proof (induction pri c p rule: up.induct)
  case (1 pri c p)
  show ?case
  proof (cases "c = 0")
    case True
    with "1.prems" show ?thesis
      by (auto simp: up.simps heap_inv_def intro: heap_above_stop)
  next
    case False
    then have pc: "nat (parent c) = par c" "par c < qlen p"
      using "1.prems" par_less[of c] by (auto simp: par_def)
    note at = prio_at_shape[OF "1.prems"(1), of _ pri]
    show ?thesis
    proof (cases "key pri p (par c) < key pri p c")
      case True
      let ?q = "swap (par c) c p"
      have "heap_above (key pri ?q) (qlen ?q) (par c)"
        using heap_above_step[OF "1.prems"(3) _ _ True] False "1.prems" pc by (simp add: swap_facts)
      then have "\<exists>p'. up pri (par c) ?q = Some p' \<and> heap_inv pri p' \<and> qlen p' = qlen ?q \<and>
           mset (items p') = mset (items ?q)"
        using "1.IH"[OF False refl] at True False "1.prems" pc by (simp add: swap_facts)
      then show ?thesis
        using at True False "1.prems" pc by (simp add: up.simps[of pri c p] Let_def swap_facts)
    next
      case stop: False
      then show ?thesis
        using False "1.prems" at pc
        by (auto simp: up.simps[of pri c p] heap_inv_def intro: heap_above_stop)
    qed
  qed
qed

text \<open>
  With the shape known, one call of \<open>down\<close> compares the item with its larger child; a node with
  a single child needs no further call, because that child is the last item.
\<close>

definition big_child :: "(nat \<Rightarrow> int) \<Rightarrow> nat \<Rightarrow> nat \<Rightarrow> nat" where
  "big_child k n i = (if rChild i < n \<and> k (lChild i) \<le> k (rChild i) then rChild i else lChild i)"

lemma big_child_less: "lChild i < n \<Longrightarrow> big_child k n i < n"
  and big_child_par [simp]: "par (big_child k n i) = i"
  and big_child_gt: "i < big_child k n i"
  using child_gt[of i] by (auto simp: big_child_def)

lemma big_child_max: "0 < j \<Longrightarrow> j < n \<Longrightarrow> par j = i \<Longrightarrow> k j \<le> k (big_child k n i)"
  using child_gt(3)[of i] by (auto simp: par_child_iff big_child_def)

lemma down_unfold:
  assumes "shape p"
  shows "down pri i p =
    (if qlen p \<le> lChild i then Some p
     else let d = big_child (key pri p) (qlen p) i in
       if key pri p i < key pri p d then down pri d (swap i d p) else Some p)"
proof -
  have lr: "i < lChild i" "lChild i < rChild i" "lChild i < lChild (lChild i)"
    "rChild i \<le> lChild (lChild i)"
    by (simp_all add: lChild_def rChild_def)
  note at = prio_at_shape[OF assms, of _ pri]
  have last: "down pri (lChild i) (swap i (lChild i) p) = Some (swap i (lChild i) p)"
    if "qlen p \<le> rChild i"
    using that lr by (simp add: down.simps[of pri "lChild i"])
  consider "qlen p \<le> lChild i" | "lChild i < qlen p" "qlen p \<le> rChild i" | "rChild i < qlen p"
    by linarith
  then show ?thesis
  proof cases
    case 1
    then show ?thesis by (simp add: down.simps[of pri i p])
  next
    case 2
    moreover from 2 lr have "prio_at pri p i = Some (key pri p i)"
      "prio_at pri p (lChild i) = Some (key pri p (lChild i))"
      by (auto intro!: at)
    ultimately show ?thesis
      using last lr by (simp add: down.simps[of pri i p] big_child_def Let_def)
  next
    case 3
    moreover from 3 lr have "prio_at pri p i = Some (key pri p i)" "lChild i < qlen p"
      "prio_at pri p (lChild i) = Some (key pri p (lChild i))"
      "prio_at pri p (rChild i) = Some (key pri p (rChild i))"
      by (auto intro!: at)
    ultimately show ?thesis
      by (simp add: down.simps[of pri i p] big_child_def Let_def)
  qed
qed

lemma down_correct:
  assumes "shape p" "heap_below (key pri p) (qlen p) i"
  shows "\<exists>p'. down pri i p = Some p' \<and> heap_inv pri p' \<and> qlen p' = qlen p \<and>
           mset (items p') = mset (items p)"
  using assms
proof (induction "qlen p - i" arbitrary: i p rule: less_induct)
  case less
  let ?k = "key pri p" and ?n = "qlen p"
  let ?d = "big_child ?k ?n i"
  have stop: "heap_inv pri p" if "\<And>j. 0 < j \<Longrightarrow> j < ?n \<Longrightarrow> par j = i \<Longrightarrow> ?k j \<le> ?k i"
    using heap_below_stop[OF less.prems(2)] that less.prems(1) by (auto simp: heap_inv_def)
  consider (leaf) "?n \<le> lChild i" | (ok) "lChild i < ?n" "?k ?d \<le> ?k i"
    | (step) "lChild i < ?n" "?k i < ?k ?d"
    by linarith
  then show ?case
  proof cases
    case leaf
    then have "heap_inv pri p"
      by (intro stop) (auto simp: par_child_iff lChild_def rChild_def)
    with leaf less.prems show ?thesis by (simp add: down_unfold)
  next
    case ok
    then have "heap_inv pri p"
      using big_child_max[of _ ?n i ?k] by (intro stop) (blast intro: order_trans)
    with ok less.prems show ?thesis by (simp add: down_unfold Let_def)
  next
    case step
    have d: "?d < ?n" "0 < ?d" "i < ?d" "i < ?n"
      using step big_child_less[of i ?n ?k] big_child_gt[of i ?k ?n] by linarith+
    have "heap_below (exch i ?d ?k) ?n ?d"
      using d step by (intro heap_below_step[OF less.prems(2)]) (auto intro: big_child_max)
    with d less.prems less.hyps[of "swap i ?d p" ?d] step show ?thesis
      by (simp add: down_unfold Let_def swap_facts)
  qed
qed

section \<open>The interface of a priority queue\<close>

text \<open>Two clients of a queue: push a list of items, pop a number of them.\<close>

fun push_all :: "('a \<Rightarrow> 'q \<Rightarrow> 'q option) \<Rightarrow> 'a list \<Rightarrow> 'q \<Rightarrow> 'q option" where
  "push_all ps [] q = Some q"
| "push_all ps (x # xs) q = Option.bind (ps x q) (push_all ps xs)"

fun drain :: "('q \<Rightarrow> ('a option \<times> 'q) option) \<Rightarrow> nat \<Rightarrow> 'q \<Rightarrow> 'a list option" where
  "drain pp 0 q = Some []"
| "drain pp (Suc n) q =
     (case pp q of Some (Some x, q') \<Rightarrow> map_option ((#) x) (drain pp n q') | _ \<Rightarrow> None)"

text \<open>
  What a client of the queue relies on: the multiset of stored items, that \<open>push\<close> and \<open>pop\<close>
  do not fail on a well-formed queue and change the multiset by one item, and that \<open>first\<close>
  and \<open>pop\<close> return an item no other item exceeds.
\<close>

locale max_queue =
  fixes inv :: "'q \<Rightarrow> bool" and elems :: "'q \<Rightarrow> 'a multiset" and pri :: "'a \<Rightarrow> int"
    and push :: "'a \<Rightarrow> 'q \<Rightarrow> 'q option" and first :: "'q \<Rightarrow> 'a option option"
    and pop :: "'q \<Rightarrow> ('a option \<times> 'q) option"
  assumes push_ok: "inv q \<Longrightarrow>
      \<exists>q'. push x q = Some q' \<and> inv q' \<and> elems q' = add_mset x (elems q)"
    and first_empty: "inv q \<Longrightarrow> elems q = {#} \<Longrightarrow> first q = Some None"
    and first_max: "inv q \<Longrightarrow> elems q \<noteq> {#} \<Longrightarrow>
      \<exists>x. first q = Some (Some x) \<and> x \<in># elems q \<and> (\<forall>y \<in># elems q. pri y \<le> pri x)"
    and pop_empty: "inv q \<Longrightarrow> elems q = {#} \<Longrightarrow> pop q = Some (None, q)"
    and pop_ok: "inv q \<Longrightarrow> elems q \<noteq> {#} \<Longrightarrow>
      \<exists>x q'. pop q = Some (Some x, q') \<and> first q = Some (Some x) \<and> inv q' \<and>
        elems q = add_mset x (elems q')"
begin

lemma push_all_ok:
  "inv q \<Longrightarrow> \<exists>q'. push_all push xs q = Some q' \<and> inv q' \<and> elems q' = mset xs + elems q"
proof (induction xs arbitrary: q)
  case (Cons x xs)
  then obtain q1 where "push x q = Some q1" "inv q1" "elems q1 = add_mset x (elems q)"
    using push_ok by blast
  with Cons.IH[of q1] show ?case by auto
qed simp

text \<open>Draining a queue returns its items in descending order of priority.\<close>

lemma drain_sorted:
  assumes "inv q" "size (elems q) = n"
  shows "\<exists>xs. drain pop n q = Some xs \<and> mset xs = elems q \<and> sorted_wrt (\<lambda>x y. pri y \<le> pri x) xs"
  using assms
proof (induction n arbitrary: q)
  case (Suc n)
  then have ne: "elems q \<noteq> {#}" by auto
  then obtain x q' where pop: "pop q = Some (Some x, q')" and fx: "first q = Some (Some x)"
    and q': "inv q'" "elems q = add_mset x (elems q')"
    using pop_ok Suc.prems by blast
  have "\<forall>y \<in># elems q. pri y \<le> pri x"
    using first_max[OF Suc.prems(1) ne] fx by auto
  moreover obtain ys where "drain pop n q' = Some ys" "mset ys = elems q'"
      "sorted_wrt (\<lambda>x y. pri y \<le> pri x) ys"
    using Suc q' by fastforce
  moreover from this have "set ys = set_mset (elems q')" by (metis set_mset_mset)
  ultimately show ?case using pop q' by auto
qed simp

end

section \<open>The heap implements the interface\<close>

lemma NewPQueue_ok: "heap_inv pri NewPQueue" "items NewPQueue = []"
  by (auto simp: heap_inv_def shape_def heap_on_def NewPQueue_def items_def)

lemma Clear_ok: "heap_inv pri (Clear p)" "items (Clear p) = []"
  by (auto simp: heap_inv_def shape_def heap_on_def Clear_def items_def)

lemma length_items [simp]: "shape p \<Longrightarrow> length (items p) = qlen p"
  by (simp add: shape_def items_def)

lemma items_nth: "shape p \<Longrightarrow> i < qlen p \<Longrightarrow> items p ! i = the (data p ! i)"
  by (simp add: shape_def items_def)

lemma Push_correct:
  assumes "heap_inv pri p"
  shows "\<exists>p'. Push pri x p = Some p' \<and> heap_inv pri p' \<and> qlen p' = qlen p + 1 \<and>
           mset (items p') = add_mset x (mset (items p))"
proof -
  define p1 where "p1 = (if qlen p = qcap p
      then p\<lparr>data := data p @ replicate (qcap p) None, qcap := qcap p * 2\<rparr> else p)"
  define p2 where "p2 = p1\<lparr>data := (data p1)[qlen p1 := Some x], qlen := qlen p1 + 1\<rparr>"
  have sh: "shape p" and hp: "heap_on (key pri p) (qlen p)" using assms by (auto simp: heap_inv_def)
  have p1: "length (data p1) = qcap p1" "qlen p1 = qlen p" "qlen p < qcap p1"
    "take (qlen p) (data p1) = take (qlen p) (data p)"
    "\<And>i. i < qlen p \<Longrightarrow> data p1 ! i = data p ! i"
    using sh by (auto simp: p1_def shape_def nth_append)
  have sh2: "shape p2" and q2: "qlen p2 = qlen p + 1"
    using sh p1 by (auto simp: p2_def shape_def nth_list_update less_Suc_eq)
  have it: "items p2 = items p @ [x]"
    using p1 by (simp add: items_def p2_def take_Suc_conv_app_nth)
  have "key pri p2 i = key pri p i" if "i < qlen p" for i
    using that p1 by (simp add: key_def p2_def)
  then have "heap_above (key pri p2) (qlen p2) (qlen p)"
    using heap_above_last[OF hp] q2 by simp
  then obtain p' where "up pri (qlen p) p2 = Some p'" "heap_inv pri p'" "qlen p' = qlen p2"
      "mset (items p') = mset (items p2)"
    using up_correct[OF sh2] q2 by fastforce
  moreover have "Push pri x p = up pri (qlen p) p2"
    using p1 by (simp add: Push_def p1_def[symmetric] p2_def Let_def)
  ultimately show ?thesis using q2 it by simp
qed

lemma mset_move_last:
  assumes "xs \<noteq> []"
  shows "mset xs = add_mset (hd xs) (mset (butlast (xs[0 := last xs])))"
proof (cases xs)
  case (Cons x ys)
  then show ?thesis by (cases ys rule: rev_cases) (auto simp: butlast_append)
qed (use assms in simp)

lemma First_correct:
  assumes "heap_inv pri p" "0 < qlen p"
  shows "\<exists>x. First p = Some (Some x) \<and> x = hd (items p) \<and> x \<in> set (items p) \<and>
           (\<forall>y \<in> set (items p). pri y \<le> pri x)"
proof -
  have sh: "shape p" and hp: "heap_on (key pri p) (qlen p)" using assms by (auto simp: heap_inv_def)
  have ne: "items p \<noteq> []" using sh assms by (metis length_items length_greater_0_conv)
  then have x: "First p = Some (Some (hd (items p)))"
    using sh assms items_nth[OF sh, of 0] by (auto simp: First_def shape_def hd_conv_nth)
  have "pri y \<le> pri (hd (items p))" if y: "y \<in> set (items p)" for y
  proof -
    obtain i where "i < qlen p" "y = items p ! i"
      using y sh by (metis in_set_conv_nth length_items)
    with heap_on_max[OF hp, of i] show ?thesis
      using sh assms ne by (simp add: key_def items_nth hd_conv_nth)
  qed
  with x ne show ?thesis by auto
qed

lemma Pop_correct:
  assumes "heap_inv pri p" "0 < qlen p"
  shows "\<exists>x p'. Pop pri p = Some (Some x, p') \<and> First p = Some (Some x) \<and> heap_inv pri p' \<and>
           qlen p' = qlen p - 1 \<and> mset (items p) = add_mset x (mset (items p'))"
proof -
  define p1 where "p1 = p\<lparr>data := (data p)[0 := data p ! (qlen p - 1)], qlen := qlen p - 1\<rparr>"
  have sh: "shape p" and hp: "heap_on (key pri p) (qlen p)" using assms by (auto simp: heap_inv_def)
  have sh1: "shape p1" using sh assms by (auto simp: shape_def p1_def nth_list_update)
  have n: "length (items p) = qlen p" "items p \<noteq> []"
    using sh assms by (auto simp flip: length_0_conv)
  have it: "items p1 = butlast ((items p)[0 := last (items p)])"
    using sh sh1 assms n
    by (intro nth_equalityI)
      (auto simp: items_nth p1_def nth_butlast nth_list_update last_conv_nth shape_def)
  have "key pri p1 i = key pri p i" if "0 < i" for i
    using that by (simp add: key_def p1_def)
  then have "heap_below (key pri p1) (qlen p1) 0"
    using hp by (auto simp: heap_below_def heap_on_def p1_def)
  then obtain p' where p': "down pri 0 p1 = Some p'" "heap_inv pri p'" "qlen p' = qlen p1"
      "mset (items p') = mset (items p1)"
    using down_correct[OF sh1] by blast
  have "data p ! 0 = Some (hd (items p))"
    using sh assms n items_nth[OF sh, of 0] by (auto simp: shape_def hd_conv_nth)
  then have "Pop pri p = Some (Some (hd (items p)), p')" "First p = Some (Some (hd (items p)))"
    using sh assms p'(1) by (auto simp: Pop_def First_def p1_def shape_def)
  then show ?thesis
    using p' mset_move_last[OF n(2)] it by (auto simp: p1_def)
qed

interpretation heap_queue: max_queue "heap_inv pri" "\<lambda>p. mset (items p)" pri "Push pri" First "Pop pri"
  for pri :: "'a \<Rightarrow> int"
proof unfold_locales
  fix q :: "'a pqueue" and x
  assume inv: "heap_inv pri q"
  have sz: "qlen q = 0 \<longleftrightarrow> mset (items q) = {#}"
    using inv by (auto simp: heap_inv_def simp flip: length_items)
  show "\<exists>q'. Push pri x q = Some q' \<and> heap_inv pri q' \<and> mset (items q') = add_mset x (mset (items q))"
    using Push_correct[OF inv, of x] by blast
  show "First q = Some None" "Pop pri q = Some (None, q)" if "mset (items q) = {#}"
    using that sz by (simp_all add: First_def Pop_def)
  show "\<exists>x. First q = Some (Some x) \<and> x \<in># mset (items q) \<and> (\<forall>y \<in># mset (items q). pri y \<le> pri x)"
    "\<exists>x q'. Pop pri q = Some (Some x, q') \<and> First q = Some (Some x) \<and> heap_inv pri q' \<and>
      mset (items q) = add_mset x (mset (items q'))" if "mset (items q) \<noteq> {#}"
    using that sz First_correct[OF inv] Pop_correct[OF inv] by auto
qed

section \<open>Properties\<close>

text \<open>C12. Pushing any number of items into a new queue and popping as many returns a permutation
  of the items in descending order of priority; neither the pushes nor the pops panic, whatever
  the capacity the slice started with.\<close>

theorem push_all_drain_sorted:
  "\<exists>q out. push_all (Push pri) xs NewPQueue = Some q \<and>
     drain (Pop pri) (length xs) q = Some out \<and>
     mset out = mset xs \<and> sorted_wrt (\<lambda>x y. pri y \<le> pri x) out"
proof -
  obtain q where "push_all (Push pri) xs NewPQueue = Some q" "heap_inv pri q"
      "mset (items q) = mset xs"
    using heap_queue.push_all_ok[OF NewPQueue_ok(1)[of pri], of xs] by (auto simp: NewPQueue_ok)
  then show ?thesis using heap_queue.drain_sorted[of pri q] by (auto simp flip: size_mset)
qed

text \<open>On a well-formed queue \<open>Pop\<close> does not panic, returns the item \<open>First\<close> shows, whose
  priority no stored item exceeds, and leaves a well-formed queue with exactly that item removed.\<close>

theorem Pop_returns_max:
  assumes "heap_inv pri p" and "0 < qlen p"
  shows "\<exists>x p'. Pop pri p = Some (Some x, p') \<and> First p = Some (Some x) \<and> heap_inv pri p' \<and>
     qlen p' = qlen p - 1 \<and> mset (items p) = add_mset x (mset (items p')) \<and>
     (\<forall>y \<in> set (items p). pri y \<le> pri x)"
  using First_correct[OF assms] Pop_correct[OF assms] by fastforce

lemma Pop_returns_max_witness:
  "\<exists>x p'. Pop id \<lparr>data = [Some 7, Some 5, Some 6, None], qlen = 3, qcap = 4\<rparr> = Some (Some x, p') \<and>
     (\<forall>y \<in> {7, 5, 6}. y \<le> x) \<and> qlen p' = 2"
proof -
  let ?p = "\<lparr>data = [Some 7, Some 5, Some (6::int), None], qlen = 3, qcap = 4\<rparr>"
  have "shape ?p" by (auto simp: shape_def less_Suc_eq numeral_3_eq_3)
  moreover have "heap_on (key id ?p) (qlen ?p)"
    by (auto simp: heap_on_def key_def par_def less_Suc_eq numeral_3_eq_3)
  ultimately have "heap_inv id ?p" by (simp add: heap_inv_def)
  from Pop_returns_max[OF this] show ?thesis by (auto simp: items_def)
qed

text \<open>\<open>Push\<close> on a well-formed queue does not panic (a full slice is doubled first), keeps the
  queue well-formed and adds exactly the given item.\<close>

theorem Push_adds_item:
  assumes "heap_inv pri p"
  shows "\<exists>p'. Push pri x p = Some p' \<and> heap_inv pri p' \<and> Len p' = Len p + 1 \<and>
     mset (items p') = add_mset x (mset (items p))"
  using Push_correct[OF assms] by (simp add: Len_def)

lemma Push_adds_item_witness:
  "\<exists>p'. Push id (3::int) NewPQueue = Some p' \<and> heap_inv id p' \<and> Len p' = 1"
  using Push_adds_item[OF NewPQueue_ok(1), of id 3] by (auto simp: NewPQueue_def Len_def)

end
