(* ===== verification/FS_Model.thy ===== *)
theory FS_Model
  imports Prelude
begin

text \<open>
  \<open>sdfs/fs.go\<close> and \<open>sdfs/file.go\<close>: the master's namespace.

  The Go structs point at each other (a directory at its children, its files and its parent, a
  file at the directories of its locations, \<open>ChecksumDB\<close> at files that directories hold too),
  and the code mutates them through these pointers.  The model keeps the objects in two explicit
  stores, \<open>dirs\<close> and \<open>files\<close>; a pointer is an index and \<open>new\<close> appends.  A nil parent is
  \<open>None\<close>.

  Every call is one goroutine running alone.  A mutex is a flag.  \<open>Lock\<close> on a set flag is
  \<open>Block\<close>: nobody is left to release it.  A \<open>Lock\<close>/\<open>Unlock\<close> pair with no wait, return
  or panic between the two is the test of the flag only.  A loop that never ends is \<open>Block\<close>,
  too.
\<close>

section \<open>Data\<close>

type_synonym dref = nat
type_synonym fref = nat

datatype fs_error = FileNotExist | DirNotExist | ChecksumDiffers | FileNotAvailable

record location =
  lParent :: dref
  lFileName :: string

record sdfs_file =
  Checksum :: string
  FSPath :: "location list"
  SemaphoreOpen :: u32
  SemaphoreReplica :: u32
  fSize :: u64
  Host :: "i32 list"
  fmu :: bool

record directory =
  dName :: string
  dSubDirs :: "string \<rightharpoonup> dref"
  dFiles :: "string \<rightharpoonup> fref"
  dFullPath :: string
  dParent :: "dref option"
  dSize :: u64
  dmu :: bool

record fs =
  Roots :: "dref list"
  ChecksumDB :: "string \<rightharpoonup> fref"
  fsmu :: bool
  dirs :: "directory list"
  files :: "sdfs_file list"

type_synonym 'a fs_result = "(fs, fs_error + 'a) outcome"

abbreviation slash :: char where
  "slash \<equiv> CHR ''/''"

definition NewDirectory :: "string \<Rightarrow> string \<Rightarrow> directory" where
  "NewDirectory name fullPath =
     \<lparr>dName = name, dSubDirs = Map.empty, dFiles = Map.empty, dFullPath = fullPath,
      dParent = None, dSize = 0, dmu = False\<rparr>"

definition NewFS :: fs where
  "NewFS = \<lparr>Roots = [0], ChecksumDB = Map.empty, fsmu = False,
     dirs = [NewDirectory ''/'' ''/''], files = []\<rparr>"

definition NewFile :: "string \<Rightarrow> string \<Rightarrow> u64 \<Rightarrow> dref \<Rightarrow> sdfs_file" where
  "NewFile name checksum fileSize parent =
     \<lparr>Checksum = checksum, FSPath = [\<lparr>lParent = parent, lFileName = name\<rparr>], SemaphoreOpen = 0,
      SemaphoreReplica = 1, fSize = fileSize, Host = [], fmu = False\<rparr>"

text \<open>Access through a pointer.\<close>

definition root :: "fs \<Rightarrow> dref" where
  "root s = Roots s ! 0"

definition upd_dir :: "dref \<Rightarrow> (directory \<Rightarrow> directory) \<Rightarrow> fs \<Rightarrow> fs" where
  "upd_dir d g s = s\<lparr>dirs := (dirs s)[d := g (dirs s ! d)]\<rparr>"

definition upd_file :: "fref \<Rightarrow> (sdfs_file \<Rightarrow> sdfs_file) \<Rightarrow> fs \<Rightarrow> fs" where
  "upd_file f g s = s\<lparr>files := (files s)[f := g (files s ! f)]\<rparr>"

section \<open>Locks\<close>

text \<open>\<open>f.mu.Lock(); defer f.mu.Unlock()\<close> around a body.\<close>

definition with_fs_lock :: "(fs \<Rightarrow> (fs, 'a) outcome) \<Rightarrow> fs \<Rightarrow> (fs, 'a) outcome" where
  "with_fs_lock body s =
     (if fsmu s then Block s
      else case body (s\<lparr>fsmu := True\<rparr>) of
        Ret t a \<Rightarrow> Ret (t\<lparr>fsmu := False\<rparr>) a
      | Panic t \<Rightarrow> Panic (t\<lparr>fsmu := False\<rparr>)
      | Block t \<Rightarrow> Block t)"

text \<open>\<open>file.Lock()\<close> and \<open>file.Unlock()\<close>, called from other packages.\<close>

definition File_Lock :: "fref \<Rightarrow> fs \<Rightarrow> (fs, unit) outcome" where
  "File_Lock f s = (if fmu (files s ! f) then Block s else Ret (upd_file f (fmu_update (\<lambda>_. True)) s) ())"

definition File_Unlock :: "fref \<Rightarrow> fs \<Rightarrow> fs" where
  "File_Unlock f s = upd_file f (fmu_update (\<lambda>_. False)) s"

text \<open>\<open>file.mu.TryLock()\<close> has succeeded and \<open>defer file.mu.Unlock()\<close> is registered.\<close>

definition with_file_lock :: "fref \<Rightarrow> (fs \<Rightarrow> (fs, 'a) outcome) \<Rightarrow> fs \<Rightarrow> (fs, 'a) outcome" where
  "with_file_lock f body s =
     (case body (upd_file f (fmu_update (\<lambda>_. True)) s) of
        Ret t a \<Rightarrow> Ret (upd_file f (fmu_update (\<lambda>_. False)) t) a
      | Panic t \<Rightarrow> Panic (upd_file f (fmu_update (\<lambda>_. False)) t)
      | Block t \<Rightarrow> Block t)"

section \<open>Paths\<close>

definition Paths :: "fs \<Rightarrow> fref \<Rightarrow> string list" where
  "Paths s f = map (\<lambda>l. dFullPath (dirs s ! lParent l) @ lFileName l) (FSPath (files s ! f))"

text \<open>The bounds of \<open>filePath[i+1:]\<close> always hold here: \<open>i\<close> is between \<open>-1\<close> and the length.\<close>

definition ParseFileName :: "string \<Rightarrow> string" where
  "ParseFileName filePath = drop (nat (last_index slash filePath + 1)) filePath"

section \<open>Directories\<close>

fun GetDir_loop :: "string list \<Rightarrow> dref \<Rightarrow> fs \<Rightarrow> dref fs_result" where
  "GetDir_loop [] dir s = Ret s (Inr dir)"
| "GetDir_loop (part # parts) dir s =
     (if part = [] then GetDir_loop parts dir s
      else if dmu (dirs s ! dir) then Block s
      else case dSubDirs (dirs s ! dir) part of
        None \<Rightarrow> Ret (upd_dir dir (dmu_update (\<lambda>_. True)) s) (Inl DirNotExist)
      | Some sub \<Rightarrow> GetDir_loop parts sub s)"

definition GetDir :: "string \<Rightarrow> fs \<Rightarrow> dref fs_result" where
  "GetDir path = with_fs_lock (\<lambda>s. GetDir_loop (split_on slash path) (root s) s)"

definition GetFileParent :: "string \<Rightarrow> fs \<Rightarrow> dref fs_result" where
  "GetFileParent filePath s =
     (case slice_to filePath (last_index slash filePath) of
        None \<Rightarrow> Panic s
      | Some p \<Rightarrow> GetDir p s)"

text \<open>\<open>dir.SubDirs[part] = NewDirectory(part, cur)\<close> and the parent link.\<close>

definition make_subdir :: "dref \<Rightarrow> string \<Rightarrow> string \<Rightarrow> fs \<Rightarrow> fs" where
  "make_subdir dir part cur s =
     (let new = length (dirs s);
          s1 = s\<lparr>dirs := dirs s @ [(NewDirectory part cur)\<lparr>dParent := Some dir\<rparr>]\<rparr>
      in upd_dir dir (dSubDirs_update (\<lambda>m. m(part \<mapsto> new))) s1)"

text \<open>The test \<open>i == len(parts)\<close> of the source never holds inside the loop.\<close>

fun AddDir_loop :: "string list \<Rightarrow> dref \<Rightarrow> string \<Rightarrow> fs \<Rightarrow> (fs, unit) outcome" where
  "AddDir_loop [] dir cur s = Ret s ()"
| "AddDir_loop (part # parts) dir cur s =
     (if part = [] then AddDir_loop parts dir cur s
      else if dmu (dirs s ! dir) then Block s
      else let cur' = cur @ part @ ''/'';
               t = (case dSubDirs (dirs s ! dir) part of
                      None \<Rightarrow> make_subdir dir part cur' s | Some _ \<Rightarrow> s)
           in case dSubDirs (dirs t ! dir) part of
                None \<Rightarrow> Panic t
              | Some sub \<Rightarrow> AddDir_loop parts sub cur' t)"

definition AddDir :: "string \<Rightarrow> fs \<Rightarrow> (fs, unit) outcome" where
  "AddDir path s = AddDir_loop (split_on slash path) (root s) ''/'' s"

section \<open>Files\<close>

fun GetFile_loop :: "string list \<Rightarrow> dref \<Rightarrow> fs \<Rightarrow> dref fs_result" where
  "GetFile_loop [] dir s = Ret s (Inr dir)"
| "GetFile_loop (part # parts) dir s =
     (if part = [] then GetFile_loop parts dir s
      else if parts = [] then Ret s (Inr dir)
      else if dmu (dirs s ! dir) then Block s
      else case dSubDirs (dirs s ! dir) part of
        None \<Rightarrow> Ret s (Inl FileNotExist)
      | Some sub \<Rightarrow> GetFile_loop parts sub s)"

definition GetFile :: "string \<Rightarrow> fs \<Rightarrow> fref fs_result" where
  "GetFile path = with_fs_lock (\<lambda>s.
     obind (GetFile_loop (split_on slash path) (root s) s) (\<lambda>s r.
       case r of
         Inl e \<Rightarrow> Ret s (Inl e)
       | Inr dir \<Rightarrow>
           (case dFiles (dirs s ! dir) (ParseFileName path) of
              None \<Rightarrow> Ret s (Inl FileNotExist)
            | Some file \<Rightarrow> Ret s (Inr file))))"

text \<open>
  The walk to the root that adjusts \<open>dir.Size\<close> (\<open>for dir != f.Roots[0]\<close>).  The value
  \<open>None\<close> of the recursion is a walk that never reaches the root; a nil parent panics.
\<close>

partial_function (option) size_walk :: "(u64 \<Rightarrow> u64) \<Rightarrow> dref \<Rightarrow> fs \<Rightarrow> (fs, dref) outcome option" where
  "size_walk g dir s =
     (if dir = root s then Some (Ret s dir)
      else let t = upd_dir dir (dSize_update g) s in
        case dParent (dirs s ! dir) of
          None \<Rightarrow> Some (Panic t)
        | Some p \<Rightarrow> size_walk g p t)"

definition adjust_sizes :: "(u64 \<Rightarrow> u64) \<Rightarrow> dref \<Rightarrow> fs \<Rightarrow> (fs, dref) outcome" where
  "adjust_sizes g dir s = (case size_walk g dir s of None \<Rightarrow> Block s | Some r \<Rightarrow> r)"

text \<open>Lines 90 to 100: a further location for a file that the checksum index knows.\<close>

definition link_replica :: "fref \<Rightarrow> dref \<Rightarrow> string \<Rightarrow> fs \<Rightarrow> fs" where
  "link_replica file dir fname s =
     (let s1 = upd_file file (FSPath_update (\<lambda>l. l @ [\<lparr>lParent = dir, lFileName = fname\<rparr>])) s;
          s2 = upd_dir dir (dFiles_update (\<lambda>m. m(fname := Some file))) s1
      in upd_file file (SemaphoreReplica_update (\<lambda>n. n + 1)) s2)"

text \<open>Lines 103 to 114: a new file.\<close>

definition link_new :: "string \<Rightarrow> dref \<Rightarrow> string \<Rightarrow> fs \<Rightarrow> fref fs_result" where
  "link_new hash dir fname s =
     (let file = length (files s);
          s1 = s\<lparr>files := files s @ [NewFile fname hash 0 dir]\<rparr>;
          s2 = upd_dir dir (dFiles_update (\<lambda>m. m(fname := Some file))) s1;
          s3 = s2\<lparr>ChecksumDB := (ChecksumDB s2)(hash := Some file)\<rparr>;
          g = (\<lambda>n. n + fSize (files s3 ! file))
      in obind (adjust_sizes g dir s3) (\<lambda>s4 top. Ret (upd_dir top (dSize_update g) s4) (Inr file)))"

text \<open>
  \<open>GetFileParent\<close> cannot fail after \<open>AddDir\<close> has made the directory; if it did, \<open>dir\<close>
  would be nil and its first use would panic.
\<close>

definition AddFile_link :: "string \<Rightarrow> string \<Rightarrow> fs_error + dref \<Rightarrow> fs \<Rightarrow> fref fs_result" where
  "AddFile_link path hash parent s =
     (if fsmu s then Block s
      else case ChecksumDB s hash of
        Some file \<Rightarrow>
          if path \<in> set (Paths s file) then Ret s (Inr file)
          else (case parent of
              Inl _ \<Rightarrow> Panic s
            | Inr dir \<Rightarrow> Ret (link_replica file dir (ParseFileName path) s) (Inr file))
      | None \<Rightarrow>
          (case parent of
              Inl _ \<Rightarrow> Panic s
            | Inr dir \<Rightarrow> link_new hash dir (ParseFileName path) s))"

definition AddFile :: "string \<Rightarrow> string \<Rightarrow> fs \<Rightarrow> fref fs_result" where
  "AddFile path hash s =
     (case slice_to path (last_index slash path) of
        None \<Rightarrow> Panic s
      | Some p \<Rightarrow>
        obind (AddDir p s) (\<lambda>s _.
        obind (GetFileParent path s) (\<lambda>s parent.
        obind (GetFile path s) (\<lambda>s found.
        if (case found of Inl _ \<Rightarrow> False | Inr file \<Rightarrow> Checksum (files s ! file) \<noteq> hash)
        then Ret s (Inl ChecksumDiffers)
        else AddFile_link path hash parent s))))"

text \<open>Removal of the first index \<open>k\<close> with \<open>file.Paths()[k] == path\<close> from \<open>file.FSPath\<close>.\<close>

fun remove_path :: "string \<Rightarrow> string list \<Rightarrow> location list \<Rightarrow> location list" where
  "remove_path path (p # ps) (l # ls) = (if p = path then ls else l # remove_path path ps ls)"
| "remove_path path _ ls = ls"

text \<open>Lines 251 to 271, with both locks held.\<close>

definition unlink :: "string \<Rightarrow> fref \<Rightarrow> dref \<Rightarrow> fs \<Rightarrow> unit fs_result" where
  "unlink path file dir s =
     (let s1 = upd_dir dir (dFiles_update (\<lambda>m. m(ParseFileName path := None))) s in
      if SemaphoreReplica (files s ! file) = 1
      then Ret (s1\<lparr>ChecksumDB := (ChecksumDB s1)(Checksum (files s ! file) := None)\<rparr>) (Inr ())
      else
        let s2 = upd_file file (FSPath_update (remove_path path (Paths s1 file))) s1 in
        obind (adjust_sizes (\<lambda>n. n - fSize (files s2 ! file)) dir s2) (\<lambda>s3 _.
        Ret (upd_file file (SemaphoreReplica_update (\<lambda>n. n - 1)) s3) (Inr ())))"

definition DeleteFile :: "string \<Rightarrow> fs \<Rightarrow> unit fs_result" where
  "DeleteFile path s =
     obind (GetFile path s) (\<lambda>s found.
       case found of
         Inl e \<Rightarrow> Ret s (Inl e)
       | Inr file \<Rightarrow>
         if fmu (files s ! file) then Ret s (Inl FileNotAvailable)
         else with_file_lock file (\<lambda>s.
           case slice_to path (int (length path) - int (length (ParseFileName path)) - 1) of
             None \<Rightarrow> Panic s
           | Some p \<Rightarrow>
             obind (GetDir p s) (\<lambda>s parent.
             with_fs_lock (\<lambda>s.
               case parent of Inl _ \<Rightarrow> Panic s | Inr dir \<Rightarrow> unlink path file dir s) s)) s)"

section \<open>The unused \<open>MustAddFile\<close>\<close>

text \<open>
  It creates the directories of the path and adds the size of the data along it; it stores no
  file.  At the last part it leaves the loop with the lock of the last directory held.
\<close>

fun MustAddFile_loop :: "string list \<Rightarrow> u64 \<Rightarrow> dref \<Rightarrow> string \<Rightarrow> fs \<Rightarrow> (fs, unit) outcome" where
  "MustAddFile_loop [] n dir cur s = Ret s ()"
| "MustAddFile_loop (part # parts) n dir cur s =
     (if part = [] then MustAddFile_loop parts n dir cur s
      else if dmu (dirs s ! dir) then Block s
      else let s1 = upd_dir dir (dSize_update (\<lambda>k. k + n)) s in
        if parts = [] then Ret (upd_dir dir (dmu_update (\<lambda>_. True)) s1) ()
        else let cur' = cur @ part @ ''/'';
                 t = (case dSubDirs (dirs s1 ! dir) part of
                        None \<Rightarrow> make_subdir dir part cur' s1 | Some _ \<Rightarrow> s1)
             in case dSubDirs (dirs t ! dir) part of
                  None \<Rightarrow> Panic t
                | Some sub \<Rightarrow> MustAddFile_loop parts n sub cur' t)"

definition MustAddFile :: "string \<Rightarrow> byte list \<Rightarrow> fs \<Rightarrow> (fs, unit) outcome" where
  "MustAddFile path bytes s =
     MustAddFile_loop (split_on slash path) (of_nat (length bytes)) (root s) ''/'' s"

end
