(* ===== verification/FS_Tree.thy ===== *)
theory FS_Tree
  imports FS_Model
begin

text \<open>
  The directory tree behind the namespace of \<open>sdfs/fs.go\<close>.

  First the algebra of paths: what the loops of the source read from a path string
  (\<open>resolve\<close>: the non-empty components before the last separator, and the file name), and
  the canonical spelling of a location (\<open>render\<close>).  Then the tree: \<open>walk\<close> follows names
  through \<open>SubDirs\<close>, \<open>tree_inv\<close> says that the directory objects form a tree whose
  \<open>FullPath\<close> and \<open>Parent\<close> fields are right, and \<open>AddDir\<close> keeps it.  With no lock held,
  each loop of the source is \<open>walk\<close> (\<open>GetDir_walk\<close>, \<open>GetFile_lookup\<close>).
\<close>

section \<open>Paths\<close>

definition comps :: "string \<Rightarrow> string list" where
  "comps p = filter (\<lambda>c. c \<noteq> []) (split_on slash p)"

definition resolve :: "string \<Rightarrow> string list \<times> string" where
  "resolve path =
     (filter (\<lambda>c. c \<noteq> []) (butlast (split_on slash path)), last (split_on slash path))"

definition good_comp :: "string \<Rightarrow> bool" where
  "good_comp c \<longleftrightarrow> c \<noteq> [] \<and> slash \<notin> set c"

definition render :: "string list \<Rightarrow> string" where
  "render cs = slash # concat (map (\<lambda>c. c @ [slash]) cs)"

text \<open>A path is canonical when it is what the stored \<open>FullPath\<close> and \<open>FileName\<close> spell.\<close>

definition canonical :: "string \<Rightarrow> bool" where
  "canonical path \<longleftrightarrow> path = render (fst (resolve path)) @ snd (resolve path)"

lemma render_Nil [simp]: "render [] = ''/''"
  by (simp add: render_def)

lemma render_snoc: "render (cs @ [c]) = render cs @ c @ ''/''"
  by (simp add: render_def)

lemma comps_good: "c \<in> set (comps p) \<Longrightarrow> good_comp c"
  by (auto simp: comps_def good_comp_def dest: set_split_on)

lemma resolve_good:
  "c \<in> set (fst (resolve path)) \<Longrightarrow> good_comp c" "slash \<notin> set (snd (resolve path))"
  by (auto simp: resolve_def good_comp_def dest!: in_set_butlastD set_split_on)
    (metis last_in_set set_split_on split_on_not_Nil)

lemma split_components:
  "\<forall>c \<in> set cs. slash \<notin> set c \<Longrightarrow> slash \<notin> set n \<Longrightarrow>
   split_on slash (concat (map (\<lambda>c. c @ [slash]) cs) @ n) = cs @ [n]"
  by (induction cs) (simp_all add: go_string)

lemma resolve_render [simp]:
  assumes "\<forall>c \<in> set cs. good_comp c" "slash \<notin> set n"
  shows "resolve (render cs @ n) = (cs, n)"
proof -
  have "split_on slash (render cs @ n) = [] # cs @ [n]"
    using assms by (simp add: render_def split_components good_comp_def)
  then show ?thesis
    using assms by (simp add: resolve_def good_comp_def)
qed

lemma canonical_render:
  "\<forall>c \<in> set cs. good_comp c \<Longrightarrow> slash \<notin> set n \<Longrightarrow> canonical (render cs @ n)"
  by (simp add: canonical_def)

lemma render_inj:
  assumes "render cs @ n = render cs' @ n'"
    and "\<forall>c \<in> set cs. good_comp c" "slash \<notin> set n" "\<forall>c \<in> set cs'. good_comp c" "slash \<notin> set n'"
  shows "cs = cs' \<and> n = n'"
  using assms by (metis prod.inject resolve_render)

lemma resolve_sep:
  "slash \<notin> set n \<Longrightarrow> resolve (p @ slash # n) = (comps p, n)"
  by (simp add: resolve_def comps_def go_string butlast_append)

lemma ParseFileName_sep: "slash \<notin> set n \<Longrightarrow> ParseFileName (p @ slash # n) = n"
  by (simp add: ParseFileName_def go_string nat_add_distrib)

lemma ParseFileName_no_sep: "slash \<notin> set p \<Longrightarrow> ParseFileName p = p"
  using last_index_neg[of slash p] by (simp add: ParseFileName_def)

lemma ParseFileName_resolve: "ParseFileName path = snd (resolve path)"
proof (cases "slash \<in> set path")
  case True
  then obtain p n where "path = p @ slash # n" "slash \<notin> set n" by (rule last_index_split)
  then show ?thesis by (simp add: ParseFileName_sep resolve_sep)
next
  case False
  then show ?thesis by (simp add: ParseFileName_no_sep resolve_def go_string)
qed

text \<open>Where a path has a separator, the two slice expressions of the source succeed.\<close>

lemma path_parts:
  assumes "slash \<in> set path"
  obtains p where "slice_to path (last_index slash path) = Some p"
    "slice_to path (int (length path) - int (length (ParseFileName path)) - 1) = Some p"
    "comps p = fst (resolve path)"
proof -
  obtain p n where pn: "path = p @ slash # n" "slash \<notin> set n"
    using assms by (rule last_index_split)
  show ?thesis
    by (rule that[of p])
      (use pn in \<open>simp_all add: slice_to_def ParseFileName_sep resolve_sep go_string\<close>)
qed

lemma canonical_slash: "canonical path \<Longrightarrow> slash \<in> set path"
  unfolding canonical_def render_def by (metis Cons_eq_appendI list.set_intros(1))

section \<open>The directory tree\<close>

fun walk :: "fs \<Rightarrow> dref \<Rightarrow> string list \<Rightarrow> dref option" where
  "walk s d [] = Some d"
| "walk s d (c # cs) = (case dSubDirs (dirs s ! d) c of None \<Rightarrow> None | Some e \<Rightarrow> walk s e cs)"

definition tree_inv :: "fs \<Rightarrow> bool" where
  "tree_inv s \<longleftrightarrow>
     Roots s = [0] \<and> 0 < length (dirs s) \<and> dFullPath (dirs s ! 0) = ''/'' \<and>
     (\<forall>d < length (dirs s). \<forall>n e. dSubDirs (dirs s ! d) n = Some e \<longrightarrow>
        d < e \<and> e < length (dirs s) \<and> good_comp n \<and> dParent (dirs s ! e) = Some d \<and>
        dName (dirs s ! e) = n \<and> dFullPath (dirs s ! e) = dFullPath (dirs s ! d) @ n @ ''/'') \<and>
     (\<forall>e < length (dirs s). e \<noteq> 0 \<longrightarrow>
        (\<exists>d < e. \<exists>n. dSubDirs (dirs s ! d) n = Some e))"

definition unlocked :: "fs \<Rightarrow> bool" where
  "unlocked s \<longleftrightarrow> \<not> fsmu s \<and> (\<forall>d < length (dirs s). \<not> dmu (dirs s ! d)) \<and>
     (\<forall>f < length (files s). \<not> fmu (files s ! f))"

lemma tree_invI:
  assumes "Roots s = [0]" "0 < length (dirs s)" "dFullPath (dirs s ! 0) = ''/''"
    and "\<And>d n e. d < length (dirs s) \<Longrightarrow> dSubDirs (dirs s ! d) n = Some e \<Longrightarrow>
        d < e \<and> e < length (dirs s) \<and> good_comp n \<and> dParent (dirs s ! e) = Some d \<and>
        dName (dirs s ! e) = n \<and> dFullPath (dirs s ! e) = dFullPath (dirs s ! d) @ n @ ''/''"
    and "\<And>e. e < length (dirs s) \<Longrightarrow> e \<noteq> 0 \<Longrightarrow> \<exists>d < e. \<exists>n. dSubDirs (dirs s ! d) n = Some e"
  shows "tree_inv s"
  unfolding tree_inv_def using assms by blast

lemma tree_roots: "tree_inv s \<Longrightarrow> Roots s = [0]"
  by (simp add: tree_inv_def)

lemma root_tree [simp]: "tree_inv s \<Longrightarrow> root s = 0"
  by (simp add: tree_inv_def root_def)

lemma tree_inv_fsmu [simp]: "tree_inv (s\<lparr>fsmu := b\<rparr>) = tree_inv s"
  by (simp add: tree_inv_def)

lemma tree_subdir:
  assumes "tree_inv s" "d < length (dirs s)" "dSubDirs (dirs s ! d) n = Some e"
  shows "d < e" "e < length (dirs s)" "good_comp n" "dParent (dirs s ! e) = Some d"
    "dName (dirs s ! e) = n" "dFullPath (dirs s ! e) = dFullPath (dirs s ! d) @ n @ ''/''"
  using assms unfolding tree_inv_def by blast+

lemma tree_root: "tree_inv s \<Longrightarrow> 0 < length (dirs s)"
  and tree_root_path: "tree_inv s \<Longrightarrow> dFullPath (dirs s ! 0) = ''/''"
  and tree_parent: "tree_inv s \<Longrightarrow> e < length (dirs s) \<Longrightarrow> e \<noteq> 0 \<Longrightarrow>
    \<exists>d < e. \<exists>n. dSubDirs (dirs s ! d) n = Some e"
  unfolding tree_inv_def by blast+

lemma tree_nonempty [simp]: "tree_inv s \<Longrightarrow> dirs s \<noteq> []"
  using tree_root by auto

lemma walk_append: "walk s d (xs @ ys) = Option.bind (walk s d xs) (\<lambda>e. walk s e ys)"
  by (induction xs arbitrary: d) (auto split: option.splits)

lemma walk_range:
  "tree_inv s \<Longrightarrow> d < length (dirs s) \<Longrightarrow> walk s d cs = Some e \<Longrightarrow> e < length (dirs s)"
  by (induction cs arbitrary: d) (auto split: option.splits dest: tree_subdir)

lemma walk_good:
  "tree_inv s \<Longrightarrow> d < length (dirs s) \<Longrightarrow> walk s d cs = Some e \<Longrightarrow> \<forall>c \<in> set cs. good_comp c"
  by (induction cs arbitrary: d) (auto split: option.splits dest: tree_subdir)

lemma walk_path:
  "tree_inv s \<Longrightarrow> d < length (dirs s) \<Longrightarrow> walk s d cs = Some e \<Longrightarrow>
   dFullPath (dirs s ! e) = dFullPath (dirs s ! d) @ concat (map (\<lambda>c. c @ [slash]) cs)"
proof (induction cs arbitrary: d)
  case (Cons c cs)
  then obtain d' where "dSubDirs (dirs s ! d) c = Some d'" "walk s d' cs = Some e"
    by (auto split: option.splits)
  with Cons tree_subdir[OF Cons.prems(1,2), of c d'] show ?case by simp
qed simp

lemma walk_root_path:
  "tree_inv s \<Longrightarrow> walk s 0 cs = Some e \<Longrightarrow> dFullPath (dirs s ! e) = render cs"
  using walk_path[OF _ tree_root] by (simp add: tree_root_path render_def)

text \<open>Every directory object is reached from the root by exactly one list of names.\<close>

lemma tree_reach:
  assumes "tree_inv s" "e < length (dirs s)"
  shows "\<exists>cs. walk s 0 cs = Some e"
  using assms(2)
proof (induction e rule: less_induct)
  case (less e)
  show ?case
  proof (cases "e = 0")
    case True
    then have "walk s 0 [] = Some e" by simp
    then show ?thesis by blast
  next
    case False
    then obtain d n where d: "d < e" "dSubDirs (dirs s ! d) n = Some e"
      using tree_parent[OF assms(1) less.prems] by blast
    then obtain cs where "walk s 0 cs = Some d" using less by fastforce
    with d have "walk s 0 (cs @ [n]) = Some e" by (simp add: walk_append)
    then show ?thesis by blast
  qed
qed

lemma walk_inj:
  assumes "tree_inv s" "walk s 0 cs = Some e" "walk s 0 cs' = Some e"
  shows "cs = cs'"
proof -
  have "render cs @ [] = render cs' @ []" using walk_root_path assms by metis
  with walk_good[OF assms(1) tree_root[OF assms(1)]] assms(2,3) show ?thesis
    using render_inj[of cs "[]" cs' "[]"] by auto
qed

section \<open>The loops of the source are walks\<close>

lemma with_fs_lock_Ret [outcome_simps]:
  "\<not> fsmu s \<Longrightarrow> body (s\<lparr>fsmu := True\<rparr>) = Ret t a \<Longrightarrow>
   with_fs_lock body s = Ret (t\<lparr>fsmu := False\<rparr>) a"
  by (simp add: with_fs_lock_def)

lemma walk_fsmu [simp]: "walk (s\<lparr>fsmu := b\<rparr>) d cs = walk s d cs"
  by (induction cs arbitrary: d) (auto split: option.splits)

lemma fs_unlock [simp]: "\<not> fsmu s \<Longrightarrow> s\<lparr>fsmu := True, fsmu := False\<rparr> = s"
  by simp

lemma GetDir_loop_walk:
  assumes "tree_inv s" "d < length (dirs s)" "\<forall>d < length (dirs s). \<not> dmu (dirs s ! d)"
    and "walk s d (filter (\<lambda>c. c \<noteq> []) parts) = Some e"
  shows "GetDir_loop parts d (s\<lparr>fsmu := b\<rparr>) = Ret (s\<lparr>fsmu := b\<rparr>) (Inr e)"
  using assms(2,4)
proof (induction parts arbitrary: d)
  case (Cons part parts)
  show ?case
  proof (cases "part = []")
    case False
    with Cons.prems obtain sub where "dSubDirs (dirs s ! d) part = Some sub"
        "walk s sub (filter (\<lambda>c. c \<noteq> []) parts) = Some e"
      by (auto split: option.splits)
    with False Cons assms(3) tree_subdir(2)[OF assms(1) Cons.prems(1), of part sub] show ?thesis
      by simp
  qed (use Cons in simp)
qed simp

definition dirs_free :: "fs \<Rightarrow> bool" where
  "dirs_free s \<longleftrightarrow> (\<forall>d < length (dirs s). \<not> dmu (dirs s ! d))"

lemma GetDir_walk:
  assumes "tree_inv s" "dirs_free s" "\<not> fsmu s" "walk s 0 (comps path) = Some d"
  shows "GetDir path s = Ret s (Inr d)"
proof -
  have "GetDir_loop (split_on slash path) 0 (s\<lparr>fsmu := True\<rparr>) = Ret (s\<lparr>fsmu := True\<rparr>) (Inr d)"
    using assms by (intro GetDir_loop_walk) (auto simp: tree_root dirs_free_def comps_def)
  with assms show ?thesis
    by (simp add: GetDir_def with_fs_lock_def)
qed

definition lookup :: "fs \<Rightarrow> string list \<times> string \<Rightarrow> fref option" where
  "lookup s k = Option.bind (walk s 0 (fst k)) (\<lambda>d. dFiles (dirs s ! d) (snd k))"

lemma GetFile_loop_walk:
  assumes "tree_inv s" "d < length (dirs s)" "\<forall>d < length (dirs s). \<not> dmu (dirs s ! d)"
    and "parts \<noteq> []"
  shows "GetFile_loop parts d (s\<lparr>fsmu := b\<rparr>) = Ret (s\<lparr>fsmu := b\<rparr>)
    (case walk s d (filter (\<lambda>c. c \<noteq> []) (butlast parts)) of None \<Rightarrow> Inl FileNotExist | Some e \<Rightarrow> Inr e)"
  using assms(2,4)
proof (induction parts arbitrary: d)
  case (Cons part parts)
  show ?case
  proof (cases "parts = []")
    case False
    note ne = this
    show ?thesis
    proof (cases "part = [] \<or> dSubDirs (dirs s ! d) part = None")
      case True
      then show ?thesis using ne Cons assms(3) by auto
    next
      case False
      then obtain sub where "dSubDirs (dirs s ! d) part = Some sub" by auto
      with False ne Cons assms(3) tree_subdir(2)[OF assms(1) Cons.prems(1), of part sub]
      show ?thesis by simp
    qed
  qed simp
qed simp

lemma GetFile_lookup:
  assumes "tree_inv s" "unlocked s"
  shows "GetFile path s = Ret s (case lookup s (resolve path) of None \<Rightarrow> Inl FileNotExist | Some f \<Rightarrow> Inr f)"
proof -
  let ?w = "walk s 0 (fst (resolve path))"
  have "GetFile_loop (split_on slash path) 0 (s\<lparr>fsmu := True\<rparr>) = Ret (s\<lparr>fsmu := True\<rparr>)
      (case ?w of None \<Rightarrow> Inl FileNotExist | Some e \<Rightarrow> Inr e)"
    using assms GetFile_loop_walk[of s 0 "split_on slash path" True]
    by (simp add: tree_root unlocked_def resolve_def)
  with assms show ?thesis
    by (cases ?w)
      (auto simp: GetFile_def with_fs_lock_def unlocked_def lookup_def ParseFileName_resolve
        split: option.splits)
qed

section \<open>Creating directories\<close>

text \<open>
  \<open>AddDir\<close> only extends the store: the directories that exist keep their files, names and
  children, and the new ones are empty.
\<close>

definition fs_extends :: "fs \<Rightarrow> fs \<Rightarrow> bool" where
  "fs_extends s t \<longleftrightarrow>
     files t = files s \<and> ChecksumDB t = ChecksumDB s \<and> length (dirs s) \<le> length (dirs t) \<and>
     (\<forall>d < length (dirs s). dFiles (dirs t ! d) = dFiles (dirs s ! d) \<and>
        dFullPath (dirs t ! d) = dFullPath (dirs s ! d) \<and>
        dSubDirs (dirs s ! d) \<subseteq>\<^sub>m dSubDirs (dirs t ! d)) \<and>
     (\<forall>d < length (dirs t). length (dirs s) \<le> d \<longrightarrow> dFiles (dirs t ! d) = Map.empty)"

lemma fs_extends_refl [simp]: "fs_extends s s"
  by (simp add: fs_extends_def)

lemma fs_extends_trans:
  assumes st: "fs_extends s t" and tu: "fs_extends t u"
  shows "fs_extends s u"
proof -
  have "dFiles (dirs u ! d) = Map.empty" if "d < length (dirs u)" "length (dirs s) \<le> d" for d
    using assms that by (cases "d < length (dirs t)") (auto simp: fs_extends_def)
  moreover have "dSubDirs (dirs s ! d) \<subseteq>\<^sub>m dSubDirs (dirs u ! d)" if "d < length (dirs s)" for d
  proof (rule map_le_trans)
    show "dSubDirs (dirs s ! d) \<subseteq>\<^sub>m dSubDirs (dirs t ! d)"
      using st that by (auto simp: fs_extends_def)
    show "dSubDirs (dirs t ! d) \<subseteq>\<^sub>m dSubDirs (dirs u ! d)"
      using st tu that by (auto simp: fs_extends_def)
  qed
  ultimately show ?thesis using assms by (auto simp: fs_extends_def)
qed

lemma walk_extends:
  assumes "tree_inv s" "fs_extends s t" "d < length (dirs s)" "walk s d cs = Some e"
  shows "walk t d cs = Some e"
  using assms(3,4)
proof (induction cs arbitrary: d)
  case (Cons c cs)
  then obtain d' where d': "dSubDirs (dirs s ! d) c = Some d'" "walk s d' cs = Some e"
    by (auto split: option.splits)
  have "dSubDirs (dirs t ! d) c = Some d'"
    using assms(2) Cons.prems(1) d'(1) by (auto simp: fs_extends_def map_le_def dom_def)
  with d' Cons.IH[of d'] tree_subdir(2)[OF assms(1) Cons.prems(1) d'(1)] show ?case by simp
qed simp

lemma lookup_extends:
  assumes s: "tree_inv s" and t: "tree_inv t" and st: "fs_extends s t"
  shows "lookup t k = lookup s k"
proof (cases "walk s 0 (fst k)")
  case (Some d)
  then show ?thesis
    using walk_extends[OF s st tree_root[OF s] Some] walk_range[OF s tree_root[OF s] Some] st
    by (auto simp: lookup_def fs_extends_def)
next
  case None
  have "dFiles (dirs t ! e) = Map.empty" if e: "walk t 0 (fst k) = Some e" for e
  proof -
    have "\<not> e < length (dirs s)"
    proof
      assume "e < length (dirs s)"
      then obtain cs where cs: "walk s 0 cs = Some e" using tree_reach[OF s] by blast
      then have "cs = fst k"
        using walk_inj[OF t _ e] walk_extends[OF s st tree_root[OF s]] by blast
      with cs None show False by simp
    qed
    with walk_range[OF t tree_root[OF t] e] st show ?thesis by (auto simp: fs_extends_def)
  qed
  then show ?thesis using None by (auto simp: lookup_def split: Option.bind_splits)
qed

lemma make_subdir_dirs:
  assumes "dir < length (dirs s)"
  shows "length (dirs (make_subdir dir part cur s)) = length (dirs s) + 1"
    "dirs (make_subdir dir part cur s) ! length (dirs s) = (NewDirectory part cur)\<lparr>dParent := Some dir\<rparr>"
    "d < length (dirs s) \<Longrightarrow> dirs (make_subdir dir part cur s) ! d =
       (if d = dir then (dirs s ! d)\<lparr>dSubDirs := (dSubDirs (dirs s ! d))(part \<mapsto> length (dirs s))\<rparr>
        else dirs s ! d)"
    "Roots (make_subdir dir part cur s) = Roots s" "files (make_subdir dir part cur s) = files s"
    "ChecksumDB (make_subdir dir part cur s) = ChecksumDB s" "fsmu (make_subdir dir part cur s) = fsmu s"
  using assms by (auto simp: make_subdir_def upd_dir_def Let_def nth_append nth_list_update)

lemma make_subdir_extends:
  assumes "dir < length (dirs s)" "dSubDirs (dirs s ! dir) part = None"
  shows "fs_extends s (make_subdir dir part cur s)"
proof -
  have "dSubDirs (dirs s ! dir) \<subseteq>\<^sub>m (dSubDirs (dirs s ! dir))(part \<mapsto> length (dirs s))"
    using assms(2) by (auto simp: map_le_def dom_def)
  then show ?thesis
    using assms(1) by (auto simp: fs_extends_def make_subdir_dirs less_Suc_eq NewDirectory_def)
qed

lemma make_subdir_tree:
  assumes s: "tree_inv s" and d: "dir < length (dirs s)" and new: "dSubDirs (dirs s ! dir) part = None"
    and ok: "good_comp part" "cur = dFullPath (dirs s ! dir) @ part @ ''/''"
  shows "tree_inv (make_subdir dir part cur s)"
proof -
  let ?t = "make_subdir dir part cur s" and ?n = "length (dirs s)"
  note m = make_subdir_dirs[OF d]
  have kid: "d' < e \<and> e < length (dirs ?t) \<and> good_comp n \<and> dParent (dirs ?t ! e) = Some d' \<and>
      dName (dirs ?t ! e) = n \<and> dFullPath (dirs ?t ! e) = dFullPath (dirs ?t ! d') @ n @ ''/''"
    if e: "d' < length (dirs ?t)" "dSubDirs (dirs ?t ! d') n = Some e" for d' n e
  proof (cases "d' = dir \<and> n = part")
    case True
    then have "e = ?n" using e d by (simp add: m)
    with True d ok show ?thesis by (simp add: m NewDirectory_def)
  next
    case False
    have old: "d' < ?n" "dSubDirs (dirs s ! d') n = Some e"
      using e False by (auto simp: m less_Suc_eq NewDirectory_def split: if_splits)
    with tree_subdir[OF s old] show ?thesis by (auto simp: m)
  qed
  have up: "\<exists>d < e. \<exists>n. dSubDirs (dirs ?t ! d) n = Some e"
    if e: "e < length (dirs ?t)" "e \<noteq> 0" for e
  proof (cases "e = ?n")
    case True
    have "dSubDirs (dirs ?t ! dir) part = Some e" using d True by (simp add: m)
    with True d show ?thesis by blast
  next
    case False
    then obtain d' n where dn: "d' < e" "dSubDirs (dirs s ! d') n = Some e"
      using tree_parent[OF s _ e(2)] e by (auto simp: m)
    then have "dSubDirs (dirs ?t ! d') n = Some e"
      using e False new by (auto simp: m)
    with dn show ?thesis by blast
  qed
  show ?thesis
  proof (rule tree_invI[OF _ _ _ kid up])
    have "0 < length (dirs s)" using s by (rule tree_root)
    then show "Roots ?t = [0]" "0 < length (dirs ?t)" "dFullPath (dirs ?t ! 0) = ''/''"
      using s d by (simp_all add: m tree_roots tree_root_path)
  qed
qed

lemma make_subdir_free:
  "dir < length (dirs s) \<Longrightarrow> dirs_free s \<Longrightarrow> dirs_free (make_subdir dir part cur s)"
  by (auto simp: dirs_free_def make_subdir_dirs less_Suc_eq NewDirectory_def)

text \<open>One part of the path: the directory exists afterwards and is the next one of the walk.\<close>

lemma AddDir_step:
  assumes s: "tree_inv s" "dirs_free s" and d: "d < length (dirs s)" and part: "good_comp part"
    and cur: "cur = dFullPath (dirs s ! d)"
  obtains t sub where
    "AddDir_loop (part # parts) d cur s = AddDir_loop parts sub (cur @ part @ ''/'') t"
    "tree_inv t" "dirs_free t" "fs_extends s t" "fsmu t = fsmu s" "sub < length (dirs t)"
    "dSubDirs (dirs t ! d) part = Some sub" "dFullPath (dirs t ! sub) = cur @ part @ ''/''"
proof (cases "dSubDirs (dirs s ! d) part")
  case None
  let ?t = "make_subdir d part (cur @ part @ ''/'') s"
  have sub: "dSubDirs (dirs ?t ! d) part = Some (length (dirs s))"
    using d by (simp add: make_subdir_dirs)
  moreover have "AddDir_loop (part # parts) d cur s = AddDir_loop parts (length (dirs s)) (cur @ part @ ''/'') ?t"
    using None s d part sub by (simp add: dirs_free_def good_comp_def Let_def)
  moreover have "tree_inv ?t" using make_subdir_tree[OF s(1) d None part] cur by simp
  ultimately show ?thesis
    using None s d make_subdir_free[OF d s(2)] make_subdir_extends[OF d None]
    by (intro that[of "length (dirs s)" ?t]) (simp_all add: make_subdir_dirs NewDirectory_def)
next
  case (Some sub)
  have "AddDir_loop (part # parts) d cur s = AddDir_loop parts sub (cur @ part @ ''/'') s"
    using Some s d part by (simp add: dirs_free_def good_comp_def Let_def)
  then show ?thesis
    using Some s cur tree_subdir[OF s(1) d Some] by (intro that[of sub s]) simp_all
qed

lemma AddDir_loop_ok:
  assumes "tree_inv s" "dirs_free s" "d < length (dirs s)" "cur = dFullPath (dirs s ! d)"
    and "\<forall>p \<in> set parts. slash \<notin> set p"
  shows "\<exists>t e. AddDir_loop parts d cur s = Ret t () \<and> tree_inv t \<and> dirs_free t \<and> fs_extends s t \<and>
           fsmu t = fsmu s \<and> walk t d (filter (\<lambda>c. c \<noteq> []) parts) = Some e"
  using assms
proof (induction parts arbitrary: s d cur)
  case (Cons part parts)
  show ?case
  proof (cases "part = []")
    case False
    with Cons.prems have gp: "good_comp part" by (simp add: good_comp_def)
    obtain t sub where t:
      "AddDir_loop (part # parts) d cur s = AddDir_loop parts sub (cur @ part @ ''/'') t"
      "tree_inv t" "dirs_free t" "fs_extends s t" "fsmu t = fsmu s" "sub < length (dirs t)"
      "dSubDirs (dirs t ! d) part = Some sub" "dFullPath (dirs t ! sub) = cur @ part @ ''/''"
      using AddDir_step[OF Cons.prems(1-3) gp Cons.prems(4), where parts = parts] by metis
    obtain u e where u: "AddDir_loop parts sub (cur @ part @ ''/'') t = Ret u ()" "tree_inv u"
      "dirs_free u" "fs_extends t u" "fsmu u = fsmu t" "walk u sub (filter (\<lambda>c. c \<noteq> []) parts) = Some e"
      using Cons.IH[OF t(2,3,6)] t(8) Cons.prems(5) by auto
    have "d < length (dirs t)" using t(4) Cons.prems(3) by (simp add: fs_extends_def)
    then have "dSubDirs (dirs u ! d) part = Some sub"
      using walk_extends[OF t(2) u(4), of d "[part]" sub] t(7) by (simp split: option.splits)
    with False t u fs_extends_trans[OF t(4) u(4)] show ?thesis by auto
  qed (use Cons in simp)
qed simp

lemma AddDir_ok:
  assumes "tree_inv s" "unlocked s"
  obtains t e where "AddDir path s = Ret t ()" "tree_inv t" "unlocked t" "fs_extends s t"
    "walk t 0 (comps path) = Some e"
proof -
  have "\<exists>t e. AddDir_loop (split_on slash path) 0 ''/'' s = Ret t () \<and> tree_inv t \<and> dirs_free t \<and>
      fs_extends s t \<and> fsmu t = fsmu s \<and> walk t 0 (comps path) = Some e"
    unfolding comps_def using assms
    by (intro AddDir_loop_ok)
      (auto simp: unlocked_def dirs_free_def tree_root_path dest: set_split_on)
  with assms that show ?thesis
    by (auto simp: AddDir_def unlocked_def dirs_free_def fs_extends_def)
qed

end
