(* ===== verification/FS_Refine.thy ===== *)
theory FS_Refine
  imports FS_Tree
begin

text \<open>
  The namespace of \<open>sdfs/fs.go\<close> refines a finite map from locations to checksums.

  \<open>fs_inv\<close> is the invariant between calls: the directory tree is sound, no lock is held, and
  the three copies of the same information agree: the \<open>Files\<close> maps of the directories, the
  \<open>FSPath\<close> list and replica counter of every file, and \<open>ChecksumDB\<close>.  \<open>ns\<close> is the
  abstraction.  For canonical paths \<open>AddFile\<close>, \<open>GetFile\<close> and \<open>DeleteFile\<close> are map
  update, lookup and removal, never panic or block, and keep the invariant.
\<close>

section \<open>Agreement of directories, files and checksum index\<close>

abbreviation loc :: "dref \<Rightarrow> string \<Rightarrow> location" where
  "loc d n \<equiv> \<lparr>lParent = d, lFileName = n\<rparr>"

definition entry :: "fs \<Rightarrow> dref \<Rightarrow> string \<rightharpoonup> fref" where
  "entry s d = (if d < length (dirs s) then dFiles (dirs s ! d) else Map.empty)"

definition entries_ok :: "(dref \<Rightarrow> string \<rightharpoonup> fref) \<Rightarrow> sdfs_file list \<Rightarrow> (string \<rightharpoonup> fref) \<Rightarrow> bool" where
  "entries_ok E F C \<longleftrightarrow> (\<forall>d n f. E d n = Some f \<longrightarrow>
     f < length F \<and> slash \<notin> set n \<and> C (Checksum (F ! f)) = Some f \<and> loc d n \<in> set (FSPath (F ! f)))"

definition file_ok :: "(dref \<Rightarrow> string \<rightharpoonup> fref) \<Rightarrow> fref \<Rightarrow> sdfs_file \<Rightarrow> bool" where
  "file_ok E f F \<longleftrightarrow> distinct (FSPath F) \<and> FSPath F \<noteq> [] \<and>
     unat (SemaphoreReplica F) = length (FSPath F) \<and>
     (\<forall>d n. loc d n \<in> set (FSPath F) \<longrightarrow> E d n = Some f)"

definition index_ok :: "(dref \<Rightarrow> string \<rightharpoonup> fref) \<Rightarrow> sdfs_file list \<Rightarrow> (string \<rightharpoonup> fref) \<Rightarrow> bool" where
  "index_ok E F C \<longleftrightarrow> (\<forall>h f. C h = Some f \<longrightarrow>
     f < length F \<and> Checksum (F ! f) = h \<and> file_ok E f (F ! f))"

definition ns_ok :: "(dref \<Rightarrow> string \<rightharpoonup> fref) \<Rightarrow> sdfs_file list \<Rightarrow> (string \<rightharpoonup> fref) \<Rightarrow> bool" where
  "ns_ok E F C \<longleftrightarrow> entries_ok E F C \<and> index_ok E F C"

definition fs_inv :: "fs \<Rightarrow> bool" where
  "fs_inv s \<longleftrightarrow> tree_inv s \<and> unlocked s \<and> ns_ok (entry s) (files s) (ChecksumDB s)"

lemma ns_ok_entry:
  assumes "ns_ok E F C" "E d n = Some f"
  shows "f < length F" "slash \<notin> set n" "C (Checksum (F ! f)) = Some f" "loc d n \<in> set (FSPath (F ! f))"
    "file_ok E f (F ! f)"
  using assms unfolding ns_ok_def entries_ok_def index_ok_def by blast+

lemma ns_ok_index:
  assumes "ns_ok E F C" "C h = Some f"
  shows "f < length F" "Checksum (F ! f) = h" "file_ok E f (F ! f)"
  using assms unfolding ns_ok_def index_ok_def by blast+

lemma ns_okI:
  assumes "\<And>d n f. E d n = Some f \<Longrightarrow>
      f < length F \<and> slash \<notin> set n \<and> C (Checksum (F ! f)) = Some f \<and> loc d n \<in> set (FSPath (F ! f))"
    and "\<And>h f. C h = Some f \<Longrightarrow> f < length F \<and> Checksum (F ! f) = h \<and> file_ok E f (F ! f)"
  shows "ns_ok E F C"
  using assms unfolding ns_ok_def entries_ok_def index_ok_def by blast

definition put :: "dref \<Rightarrow> string \<Rightarrow> fref option \<Rightarrow> (dref \<Rightarrow> string \<rightharpoonup> fref) \<Rightarrow> dref \<Rightarrow> string \<rightharpoonup> fref" where
  "put d n v E = E(d := (E d)(n := v))"

lemma put_apply: "put d n v E d' n' = (if d' = d \<and> n' = n then v else E d' n')"
  by (simp add: put_def)

lemma put_cases:
  assumes "put d n v E d' n' = Some f"
  obtains (new) "d' = d" "n' = n" "v = Some f" | (old) "loc d' n' \<noteq> loc d n" "E d' n' = Some f"
proof (cases "d' = d \<and> n' = n")
  case True
  with assms that(1) show ?thesis by (simp add: put_apply)
next
  case False
  moreover from this have "E d' n' = Some f" using assms by (simp only: put_apply if_False)
  ultimately show ?thesis using that(2) by simp
qed

lemma file_ok_put:
  "file_ok E g X \<Longrightarrow> loc d n \<notin> set (FSPath X) \<Longrightarrow> file_ok (put d n v E) g X"
  by (auto simp: file_ok_def put_apply)

lemma file_ok_loc: "file_ok E g X \<Longrightarrow> E d n \<noteq> Some g \<Longrightarrow> loc d n \<notin> set (FSPath X)"
  by (auto simp: file_ok_def)

lemma unat_one_iff: "unat w = 1 \<longleftrightarrow> w = 1" for w :: u32
  by (metis unat_1 word_unat_eq_iff)

lemma unat_incr: "w \<noteq> - 1 \<Longrightarrow> unat (w + 1) = unat w + 1" for w :: u32
  using unatSuc[of w] by (simp add: add.commute add_eq_0_iff)

text \<open>The four ways in which the code changes the namespace keep the agreement.\<close>

lemma ns_ok_new:
  assumes ok: "ns_ok E F C" and free: "C h = None" "E d n = None" and n: "slash \<notin> set n"
  shows "ns_ok (put d n (Some (length F)) E) (F @ [NewFile n h sz d]) (C(h \<mapsto> length F))"
proof (rule ns_okI)
  fix d' n' f assume "put d n (Some (length F)) E d' n' = Some f"
  then show "f < length (F @ [NewFile n h sz d]) \<and> slash \<notin> set n' \<and>
      (C(h \<mapsto> length F)) (Checksum ((F @ [NewFile n h sz d]) ! f)) = Some f \<and>
      loc d' n' \<in> set (FSPath ((F @ [NewFile n h sz d]) ! f))"
  proof (cases rule: put_cases)
    case new
    then show ?thesis using n by (simp add: NewFile_def nth_append)
  next
    case old
    have "Checksum (F ! f) \<noteq> h" using ns_ok_entry(3)[OF ok old(2)] free by auto
    with ns_ok_entry[OF ok old(2)] show ?thesis by (simp add: nth_append)
  qed
next
  fix h' f assume C: "(C(h \<mapsto> length F)) h' = Some f"
  show "f < length (F @ [NewFile n h sz d]) \<and> Checksum ((F @ [NewFile n h sz d]) ! f) = h' \<and>
      file_ok (put d n (Some (length F)) E) f ((F @ [NewFile n h sz d]) ! f)"
  proof (cases "h' = h")
    case True
    with C show ?thesis by (auto simp: NewFile_def file_ok_def put_apply)
  next
    case False
    with C have "C h' = Some f" by simp
    note old = ns_ok_index[OF ok this]
    have "loc d n \<notin> set (FSPath (F ! f))" using file_ok_loc[OF old(3)] free by simp
    with old file_ok_put[OF old(3)] show ?thesis by (simp add: nth_append)
  qed
qed

lemma ns_ok_replica:
  assumes ok: "ns_ok E F C" and f: "C h = Some f" and free: "E d n = None" and n: "slash \<notin> set n"
    and room: "SemaphoreReplica (F ! f) \<noteq> - 1"
    and F': "F' = F[f := (F ! f)\<lparr>FSPath := FSPath (F ! f) @ [loc d n],
      SemaphoreReplica := SemaphoreReplica (F ! f) + 1\<rparr>]"
  shows "ns_ok (put d n (Some f) E) F' C"
proof (rule ns_okI)
  note fok = ns_ok_index[OF ok f]
  have F'_nth: "F' ! g = (if g = f then (F ! f)\<lparr>FSPath := FSPath (F ! f) @ [loc d n],
      SemaphoreReplica := SemaphoreReplica (F ! f) + 1\<rparr> else F ! g)" for g
    using fok(1) by (simp add: F' nth_list_update)
  have len: "length F' = length F" by (simp add: F')
  {
    fix d' n' g assume "put d n (Some f) E d' n' = Some g"
    then show "g < length F' \<and> slash \<notin> set n' \<and> C (Checksum (F' ! g)) = Some g \<and>
        loc d' n' \<in> set (FSPath (F' ! g))"
    proof (cases rule: put_cases)
      case new
      then show ?thesis using n fok f by (simp add: F'_nth len)
    next
      case old
      with ns_ok_entry[OF ok old(2)] show ?thesis by (auto simp: F'_nth len)
    qed
  }
  fix h' g assume C: "C h' = Some g"
  note gok = ns_ok_index[OF ok C]
  have new: "loc d n \<notin> set (FSPath (F ! g))" using file_ok_loc[OF gok(3)] free by simp
  have "file_ok (put d n (Some f) E) g (F' ! g)"
  proof (cases "g = f")
    case True
    with fok(3) new unat_incr[OF room] show ?thesis
      by (auto simp: F'_nth file_ok_def put_apply)
  next
    case False
    with file_ok_put[OF gok(3) new] show ?thesis by (simp add: F'_nth)
  qed
  with gok show "g < length F' \<and> Checksum (F' ! g) = h' \<and> file_ok (put d n (Some f) E) g (F' ! g)"
    by (auto simp: F'_nth len)
qed

lemma ns_ok_unlink_last:
  assumes ok: "ns_ok E F C" and f: "E d n = Some f" and one: "SemaphoreReplica (F ! f) = 1"
  shows "ns_ok (put d n None E) F (C(Checksum (F ! f) := None))"
proof (rule ns_okI)
  note fok = ns_ok_entry[OF ok f]
  have "length (FSPath (F ! f)) = 1" using fok(5) one by (simp add: file_ok_def)
  then have only: "FSPath (F ! f) = [loc d n]"
    using fok(4) by (auto simp: length_Suc_conv)
  {
    fix d' n' g assume "put d n None E d' n' = Some g"
    then have g: "E d' n' = Some g" and ne: "loc d' n' \<noteq> loc d n"
      by (cases rule: put_cases; simp)+
    note gok = ns_ok_entry[OF ok g]
    have "g \<noteq> f" using gok(4) only ne by auto
    then have "Checksum (F ! g) \<noteq> Checksum (F ! f)" using gok(3) fok(3) by auto
    with gok show "g < length F \<and> slash \<notin> set n' \<and>
        (C(Checksum (F ! f) := None)) (Checksum (F ! g)) = Some g \<and> loc d' n' \<in> set (FSPath (F ! g))"
      by simp
  }
  fix h g assume C: "(C(Checksum (F ! f) := None)) h = Some g"
  then have "C h = Some g" "g \<noteq> f"
    using ns_ok_index(2)[OF ok] by (auto split: if_splits)
  with ns_ok_index[OF ok this(1)] f show "g < length F \<and> Checksum (F ! g) = h \<and> file_ok (put d n None E) g (F ! g)"
    by (auto simp: file_ok_def put_apply)
qed

lemma ns_ok_unlink:
  assumes ok: "ns_ok E F C" and f: "E d n = Some f" and many: "SemaphoreReplica (F ! f) \<noteq> 1"
    and F': "F' = F[f := (F ! f)\<lparr>FSPath := remove1 (loc d n) (FSPath (F ! f)),
      SemaphoreReplica := SemaphoreReplica (F ! f) - 1\<rparr>]"
  shows "ns_ok (put d n None E) F' C"
proof (rule ns_okI)
  note fok = ns_ok_entry[OF ok f]
  have F'_nth: "F' ! g = (if g = f then (F ! f)\<lparr>FSPath := remove1 (loc d n) (FSPath (F ! f)),
      SemaphoreReplica := SemaphoreReplica (F ! f) - 1\<rparr> else F ! g)" for g
    using fok(1) by (simp add: F' nth_list_update)
  have len: "length F' = length F" by (simp add: F')
  {
    fix d' n' g assume "put d n None E d' n' = Some g"
    then have g: "E d' n' = Some g" and ne: "loc d' n' \<noteq> loc d n"
      by (cases rule: put_cases; simp)+
    with ns_ok_entry[OF ok g] show "g < length F' \<and> slash \<notin> set n' \<and>
        C (Checksum (F' ! g)) = Some g \<and> loc d' n' \<in> set (FSPath (F' ! g))"
      by (auto simp: F'_nth len)
  }
  fix h g assume C: "C h = Some g"
  note gok = ns_ok_index[OF ok C]
  have "file_ok (put d n None E) g (F' ! g)"
  proof (cases "g = f")
    case True
    have "unat (SemaphoreReplica (F ! f)) \<noteq> 0"
      using fok(5) by (auto simp: file_ok_def)
    moreover have "unat (SemaphoreReplica (F ! f)) \<noteq> 1"
      using many unat_one_iff by blast
    moreover from calculation have "unat (SemaphoreReplica (F ! f) - 1) = unat (SemaphoreReplica (F ! f)) - 1"
      by (metis unat_eq_zero unat_minus_one)
    moreover have "length (remove1 (loc d n) (FSPath (F ! f))) = length (FSPath (F ! f)) - 1"
      using fok(4) by (simp add: length_remove1)
    moreover have "unat (SemaphoreReplica (F ! f)) = length (FSPath (F ! f))"
      using fok(5) by (simp add: file_ok_def)
    ultimately have "length (remove1 (loc d n) (FSPath (F ! f))) \<noteq> 0"
        "unat (SemaphoreReplica (F ! f) - 1) = length (remove1 (loc d n) (FSPath (F ! f)))"
      by linarith+
    with True fok(5) show ?thesis
      by (auto simp: F'_nth file_ok_def put_apply)
  next
    case False
    then have "loc d n \<notin> set (FSPath (F ! g))" using file_ok_loc[OF gok(3)] f by simp
    with False file_ok_put[OF gok(3)] show ?thesis by (simp add: F'_nth)
  qed
  with gok show "g < length F' \<and> Checksum (F' ! g) = h \<and> file_ok (put d n None E) g (F' ! g)"
    by (auto simp: F'_nth len)
qed

section \<open>Updates that leave the tree alone\<close>

definition same_tree :: "fs \<Rightarrow> fs \<Rightarrow> bool" where
  "same_tree s t \<longleftrightarrow> Roots t = Roots s \<and> length (dirs t) = length (dirs s) \<and>
     (\<forall>d < length (dirs s). dSubDirs (dirs t ! d) = dSubDirs (dirs s ! d) \<and>
        dParent (dirs t ! d) = dParent (dirs s ! d) \<and> dName (dirs t ! d) = dName (dirs s ! d) \<and>
        dFullPath (dirs t ! d) = dFullPath (dirs s ! d))"

lemma same_tree_refl [simp]: "same_tree s s"
  by (simp add: same_tree_def)

lemma same_tree_trans: "same_tree s t \<Longrightarrow> same_tree t u \<Longrightarrow> same_tree s u"
  by (simp add: same_tree_def)

lemma same_tree_inv:
  assumes "same_tree s t" "tree_inv s"
  shows "tree_inv t"
proof (rule tree_invI)
  have len: "length (dirs t) = length (dirs s)" "Roots t = Roots s"
    and eq: "d < length (dirs s) \<Longrightarrow> dSubDirs (dirs t ! d) = dSubDirs (dirs s ! d) \<and>
        dParent (dirs t ! d) = dParent (dirs s ! d) \<and> dName (dirs t ! d) = dName (dirs s ! d) \<and>
        dFullPath (dirs t ! d) = dFullPath (dirs s ! d)" for d
    using assms(1) by (auto simp: same_tree_def)
  show "Roots t = [0]" "0 < length (dirs t)" "dFullPath (dirs t ! 0) = ''/''"
    using assms(2) by (simp_all add: len eq tree_roots tree_root_path)
  show "d < e \<and> e < length (dirs t) \<and> good_comp n \<and> dParent (dirs t ! e) = Some d \<and>
      dName (dirs t ! e) = n \<and> dFullPath (dirs t ! e) = dFullPath (dirs t ! d) @ n @ ''/''"
    if "d < length (dirs t)" "dSubDirs (dirs t ! d) n = Some e" for d n e
    using that tree_subdir[OF assms(2), of d n e] by (simp add: len eq)
  show "\<exists>d < e. \<exists>n. dSubDirs (dirs t ! d) n = Some e" if "e < length (dirs t)" "e \<noteq> 0" for e
    using that tree_parent[OF assms(2), of e] eq len(1) by (metis order.strict_trans)
qed

lemma same_tree_walk:
  assumes "same_tree s t" "tree_inv s" "d < length (dirs s)"
  shows "walk t d cs = walk s d cs"
  using assms(3)
proof (induction cs arbitrary: d)
  case (Cons c cs)
  then show ?case
    using assms(1) tree_subdir(2)[OF assms(2) Cons.prems]
    by (auto simp: same_tree_def split: option.splits)
qed simp

lemma same_tree_upd [simp]:
  "same_tree s (upd_file f g t) \<longleftrightarrow> same_tree s t" "same_tree s (t\<lparr>ChecksumDB := C\<rparr>) \<longleftrightarrow> same_tree s t"
  "same_tree s (t\<lparr>fsmu := b\<rparr>) \<longleftrightarrow> same_tree s t" "same_tree s (t\<lparr>files := F\<rparr>) \<longleftrightarrow> same_tree s t"
  "same_tree s (upd_dir d (dFiles_update h) t) \<longleftrightarrow> same_tree s t"
  "same_tree s (upd_dir d (dSize_update k) t) \<longleftrightarrow> same_tree s t"
proof -
  have "dSubDirs ((dirs t)[d := dFiles_update h (dirs t ! d)] ! e) = dSubDirs (dirs t ! e)"
    "dParent ((dirs t)[d := dFiles_update h (dirs t ! d)] ! e) = dParent (dirs t ! e)"
    "dName ((dirs t)[d := dFiles_update h (dirs t ! d)] ! e) = dName (dirs t ! e)"
    "dFullPath ((dirs t)[d := dFiles_update h (dirs t ! d)] ! e) = dFullPath (dirs t ! e)"
    "dSubDirs ((dirs t)[d := dSize_update k (dirs t ! d)] ! e) = dSubDirs (dirs t ! e)"
    "dParent ((dirs t)[d := dSize_update k (dirs t ! d)] ! e) = dParent (dirs t ! e)"
    "dName ((dirs t)[d := dSize_update k (dirs t ! d)] ! e) = dName (dirs t ! e)"
    "dFullPath ((dirs t)[d := dSize_update k (dirs t ! d)] ! e) = dFullPath (dirs t ! e)"
    if "e < length (dirs t)" for e
    using that by (simp_all add: nth_upd)
  then show "same_tree s (upd_dir d (dFiles_update h) t) \<longleftrightarrow> same_tree s t"
    "same_tree s (upd_dir d (dSize_update k) t) \<longleftrightarrow> same_tree s t"
    by (auto simp: same_tree_def upd_dir_def)
qed (simp_all add: same_tree_def upd_file_def)

text \<open>The lookup of a location after one directory entry has changed.\<close>

lemma lookup_put:
  assumes s: "tree_inv s" and st: "same_tree s t" and d: "walk s 0 cs = Some d"
    and t: "entry t = put d n v (entry s)"
  shows "lookup t k = (if k = (cs, n) then v else lookup s k)"
proof -
  have w: "walk t 0 (fst k) = walk s 0 (fst k)"
    using same_tree_walk[OF st s tree_root[OF s]] .
  show ?thesis
  proof (cases "walk s 0 (fst k)")
    case None
    then show ?thesis using d w by (auto simp: lookup_def)
  next
    case (Some e)
    have e: "e < length (dirs s)" using walk_range[OF s tree_root[OF s] Some] .
    have "lookup t k = entry t e (snd k)" "lookup s k = entry s e (snd k)"
      using Some w e st by (simp_all add: lookup_def entry_def same_tree_def)
    moreover have "e = d \<longleftrightarrow> fst k = cs" using Some d walk_inj[OF s] by (metis option.inject)
    ultimately show ?thesis by (simp add: t put_apply prod_eq_iff)
  qed
qed

section \<open>The size walk\<close>

definition size_only :: "fs \<Rightarrow> fs \<Rightarrow> bool" where
  "size_only s t \<longleftrightarrow> same_tree s t \<and> files t = files s \<and> ChecksumDB t = ChecksumDB s \<and>
     fsmu t = fsmu s \<and> entry t = entry s \<and>
     (\<forall>d < length (dirs s). dmu (dirs t ! d) = dmu (dirs s ! d))"

lemma size_only_refl [simp]: "size_only s s"
  by (simp add: size_only_def)

lemma size_only_trans: "size_only s t \<Longrightarrow> size_only t u \<Longrightarrow> size_only s u"
  by (auto simp: size_only_def same_tree_def)

lemma size_only_step [simp]: "size_only s (upd_dir d (dSize_update g) s)"
  by (auto simp: size_only_def entry_def upd_dir_def same_tree_def nth_upd fun_eq_iff)

text \<open>Parents have smaller references than their children, so the walk ends, at the root.\<close>

lemma size_walk_ok:
  assumes "tree_inv s" "d < length (dirs s)"
  shows "\<exists>t. size_walk g d s = Some (Ret t 0) \<and> size_only s t"
  using assms
proof (induction d arbitrary: s rule: less_induct)
  case (less d)
  show ?case
  proof (cases "d = 0")
    case True
    with less.prems have "size_walk g d s = Some (Ret s 0)" by (simp add: size_walk.simps[of g 0 s])
    then show ?thesis by auto
  next
    case False
    let ?t = "upd_dir d (dSize_update g) s"
    obtain p n where p: "p < d" "dSubDirs (dirs s ! p) n = Some d"
      using tree_parent[OF less.prems False] by blast
    then have par: "dParent (dirs s ! d) = Some p"
      using tree_subdir(4)[OF less.prems(1) _ p(2)] less.prems(2) by simp
    have "tree_inv ?t" using same_tree_inv[OF _ less.prems(1), of ?t] by simp
    moreover have "p < length (dirs ?t)" using p less.prems by (simp add: upd_dir_def)
    ultimately obtain u where "size_walk g p ?t = Some (Ret u 0)" "size_only ?t u"
      using less.IH[OF p(1)] by blast
    with False less.prems par size_only_trans[OF size_only_step] show ?thesis
      by (auto simp: size_walk.simps[of g d s] Let_def)
  qed
qed

lemma adjust_sizes_ok:
  assumes "tree_inv s" "d < length (dirs s)"
  obtains t where "adjust_sizes g d s = Ret t 0" "size_only s t"
  using size_walk_ok[OF assms, of g] that by (auto simp: adjust_sizes_def)

section \<open>The abstract namespace\<close>

type_synonym location_key = "string list \<times> string"

definition ns :: "fs \<Rightarrow> location_key \<rightharpoonup> string" where
  "ns s k = map_option (\<lambda>f. Checksum (files s ! f)) (lookup s k)"

lemma fs_invD: "fs_inv s \<Longrightarrow> tree_inv s" "fs_inv s \<Longrightarrow> unlocked s"
  "fs_inv s \<Longrightarrow> ns_ok (entry s) (files s) (ChecksumDB s)"
  by (simp_all add: fs_inv_def)

lemma lookup_entry:
  "tree_inv s \<Longrightarrow> walk s 0 cs = Some d \<Longrightarrow> lookup s (cs, n) = entry s d n"
  using walk_range[of s 0 cs d] by (simp add: lookup_def entry_def tree_root)

lemma lookup_file:
  assumes s: "fs_inv s" and k: "lookup s k = Some f"
  shows "f < length (files s)" "ChecksumDB s (Checksum (files s ! f)) = Some f"
    "\<exists>d. walk s 0 (fst k) = Some d \<and> entry s d (snd k) = Some f"
proof -
  obtain d where d: "walk s 0 (fst k) = Some d"
    using k by (auto simp: lookup_def split: Option.bind_splits)
  then have e: "entry s d (snd k) = Some f"
    using lookup_entry[OF fs_invD(1)[OF s] d] k by (cases k) simp
  from d e show "\<exists>d. walk s 0 (fst k) = Some d \<and> entry s d (snd k) = Some f" by blast
  show "f < length (files s)" "ChecksumDB s (Checksum (files s ! f)) = Some f"
    using ns_ok_entry[OF fs_invD(3)[OF s] e] by simp_all
qed

lemma extends_entry: "fs_extends s t \<Longrightarrow> entry t = entry s"
  by (rule ext) (auto simp: entry_def fs_extends_def)

lemma fs_inv_extends:
  assumes "fs_inv s" "tree_inv t" "unlocked t" "fs_extends s t"
  shows "fs_inv t" "ns t = ns s"
proof -
  have eq: "files t = files s" "ChecksumDB t = ChecksumDB s"
    using assms(4) by (auto simp: fs_extends_def)
  then show "fs_inv t"
    using assms extends_entry[OF assms(4)] by (simp add: fs_inv_def)
  show "ns t = ns s"
    using lookup_extends[OF fs_invD(1)[OF assms(1)] assms(2,4)] by (simp add: ns_def eq fun_eq_iff)
qed

text \<open>The path strings of a file's locations are compared with the caller's path.  For a canonical
  path this singles out exactly one location.\<close>

lemma location_path:
  assumes inv: "tree_inv s" "ns_ok (entry s) (files s) (ChecksumDB s)"
    and f: "ChecksumDB s h = Some f" and l: "l \<in> set (FSPath (files s ! f))"
    and d: "walk s 0 (fst (resolve path)) = Some d" and can: "canonical path"
  shows "dFullPath (dirs s ! lParent l) @ lFileName l = path \<longleftrightarrow> l = loc d (snd (resolve path))"
proof -
  obtain d' n' where l': "l = loc d' n'" by (cases l) auto
  have e: "entry s d' n' = Some f"
    using ns_ok_index(3)[OF inv(2) f] l by (simp add: file_ok_def l')
  then have d': "d' < length (dirs s)" by (auto simp: entry_def split: if_splits)
  then obtain cs' where cs': "walk s 0 cs' = Some d'" using tree_reach[OF inv(1)] by blast
  have paths: "dFullPath (dirs s ! d') = render cs'" "path = render (fst (resolve path)) @ snd (resolve path)"
    using walk_root_path[OF inv(1) cs'] can by (simp_all add: canonical_def)
  have good: "\<forall>c \<in> set cs'. good_comp c" "slash \<notin> set n'"
    using walk_good[OF inv(1) tree_root[OF inv(1)] cs'] ns_ok_entry(2)[OF inv(2) e] by auto
  have "render cs' @ n' = render (fst (resolve path)) @ snd (resolve path) \<longleftrightarrow>
      cs' = fst (resolve path) \<and> n' = snd (resolve path)"
    using render_inj good resolve_good by metis
  also have "\<dots> \<longleftrightarrow> d' = d \<and> n' = snd (resolve path)"
    using cs' d walk_inj[OF inv(1)] by (metis option.inject)
  finally show ?thesis using paths by (simp add: l')
qed

lemma Paths_entry:
  assumes inv: "tree_inv s" "ns_ok (entry s) (files s) (ChecksumDB s)"
    and f: "ChecksumDB s h = Some f"
    and d: "walk s 0 (fst (resolve path)) = Some d" and can: "canonical path"
  shows "path \<in> set (Paths s f) \<longleftrightarrow> entry s d (snd (resolve path)) = Some f"
proof -
  have "path \<in> set (Paths s f) \<longleftrightarrow> loc d (snd (resolve path)) \<in> set (FSPath (files s ! f))"
    unfolding Paths_def set_map image_iff using location_path[OF inv f _ d can] by metis
  also have "\<dots> \<longleftrightarrow> entry s d (snd (resolve path)) = Some f"
    using ns_ok_index(3)[OF inv(2) f] ns_ok_entry(4)[OF inv(2)] by (auto simp: file_ok_def)
  finally show ?thesis .
qed

lemma remove_path_remove1:
  "\<forall>l \<in> set ls. g l = path \<longleftrightarrow> l = x \<Longrightarrow> remove_path path (map g ls) ls = remove1 x ls"
  by (induction ls) auto

section \<open>Adding a file\<close>

lemma unlocked_dirs: "unlocked s \<Longrightarrow> dirs_free s" "unlocked s \<Longrightarrow> \<not> fsmu s"
  by (auto simp: unlocked_def dirs_free_def)

lemma entry_upd_dir:
  assumes "d < length (dirs s)"
  shows "entry (upd_dir d (dFiles_update (\<lambda>m. m(n := v))) s) = put d n v (entry s)"
  using assms by (auto simp: entry_def upd_dir_def put_def nth_upd fun_eq_iff)

lemma upd_sel [simp]:
  "entry (upd_file f g s) = entry s" "entry (s\<lparr>files := F\<rparr>) = entry s"
  "entry (s\<lparr>ChecksumDB := C\<rparr>) = entry s" "entry (s\<lparr>fsmu := b\<rparr>) = entry s"
  "files (upd_dir d k s) = files s" "ChecksumDB (upd_dir d k s) = ChecksumDB s"
  "ChecksumDB (upd_file f g s) = ChecksumDB s" "fsmu (upd_file f g s) = fsmu s"
  "fsmu (upd_dir d k s) = fsmu s" "dirs (upd_file f g s) = dirs s"
  "length (dirs (upd_dir d k s)) = length (dirs s)"
  "files (upd_file f g s) = (files s)[f := g (files s ! f)]"
  by (simp_all add: entry_def upd_file_def upd_dir_def fun_eq_iff)

lemma unlocked_upd:
  "unlocked s \<Longrightarrow> (\<And>x. dmu (k x) = dmu x) \<Longrightarrow> unlocked (upd_dir d k s)"
  "unlocked s \<Longrightarrow> (\<And>x. fmu (g x) = fmu x) \<Longrightarrow> unlocked (upd_file f g s)"
  "unlocked s \<Longrightarrow> unlocked (s\<lparr>ChecksumDB := C\<rparr>)"
  by (auto simp: unlocked_def upd_dir_def upd_file_def nth_upd)

lemma unlocked_size_only: "unlocked s \<Longrightarrow> size_only s t \<Longrightarrow> unlocked t"
  by (auto simp: unlocked_def size_only_def same_tree_def)

text \<open>The shape of every successful change: one entry, the tree and the locks as before.\<close>

lemma fs_inv_put:
  assumes s: "fs_inv s" and st: "same_tree s t" and u: "unlocked t"
    and d: "walk s 0 cs = Some d" and t: "entry t = put d n v (entry s)"
    and ok: "ns_ok (put d n v (entry s)) (files t) (ChecksumDB t)"
    and same: "\<And>f. f < length (files s) \<Longrightarrow> Checksum (files t ! f) = Checksum (files s ! f)"
    and new: "map_option (\<lambda>f. Checksum (files t ! f)) v = w"
  shows "fs_inv t" "ns t = (ns s)((cs, n) := w)"
proof -
  note inv = fs_invD[OF s]
  show "fs_inv t" using same_tree_inv[OF st inv(1)] u ok t by (simp add: fs_inv_def)
  have "f < length (files s)" if "lookup s k = Some f" for f k
    using lookup_file(1)[OF s that] .
  with same have "map_option (\<lambda>f. Checksum (files t ! f)) (lookup s k) = ns s k" for k
    by (cases "lookup s k") (auto simp: ns_def)
  then show "ns t = (ns s)((cs, n) := w)"
    using lookup_put[OF inv(1) st d t] new by (auto simp: ns_def[of t] fun_eq_iff)
qed

lemma link_replica_ok:
  assumes s: "fs_inv s" and f: "ChecksumDB s h = Some f" and d: "walk s 0 cs = Some d"
    and free: "entry s d n = None" and n: "slash \<notin> set n"
    and room: "SemaphoreReplica (files s ! f) \<noteq> - 1"
  shows "fs_inv (link_replica f d n s)" "ns (link_replica f d n s) = (ns s)((cs, n) := Some h)"
proof -
  let ?t = "link_replica f d n s"
  note inv = fs_invD[OF s] and fok = ns_ok_index[OF fs_invD(3)[OF s] f]
  have dl: "d < length (dirs s)" using walk_range[OF inv(1) tree_root[OF inv(1)] d] .
  have F: "files ?t = (files s)[f := (files s ! f)\<lparr>FSPath := FSPath (files s ! f) @ [loc d n],
      SemaphoreReplica := SemaphoreReplica (files s ! f) + 1\<rparr>]"
    using fok(1) by (cases "files s ! f") (simp add: link_replica_def Let_def)
  have st: "same_tree s ?t"
    by (simp add: link_replica_def Let_def)
  have u: "unlocked ?t"
    unfolding link_replica_def Let_def by (intro unlocked_upd inv(2)) simp_all
  have e: "entry ?t = put d n (Some f) (entry s)"
    using dl by (simp add: link_replica_def Let_def entry_upd_dir)
  have C: "ChecksumDB ?t = ChecksumDB s" by (simp add: link_replica_def Let_def)
  have "ns_ok (put d n (Some f) (entry s)) (files ?t) (ChecksumDB ?t)"
    unfolding C using ns_ok_replica[OF inv(3) f free n room F] .
  moreover have "Checksum (files ?t ! g) = Checksum (files s ! g)" if "g < length (files s)" for g
    using that by (simp add: F nth_upd)
  ultimately show "fs_inv ?t" "ns ?t = (ns s)((cs, n) := Some h)"
    using fs_inv_put[OF s st u d e] fok by simp_all
qed

lemma link_new_ok:
  assumes s: "fs_inv s" and h: "ChecksumDB s h = None" and d: "walk s 0 cs = Some d"
    and free: "entry s d n = None" and n: "slash \<notin> set n"
  obtains t f where "link_new h d n s = Ret t (Inr f)" "fs_inv t" "ns t = (ns s)((cs, n) := Some h)"
    "Checksum (files t ! f) = h" "Host (files t ! f) = []" "ChecksumDB t h = Some f"
proof -
  note inv = fs_invD[OF s]
  have dl: "d < length (dirs s)" using walk_range[OF inv(1) tree_root[OF inv(1)] d] .
  define f where "f = length (files s)"
  define s1 where "s1 = s\<lparr>files := files s @ [NewFile n h 0 d]\<rparr>"
  define s2 where "s2 = upd_dir d (dFiles_update (\<lambda>m. m(n := Some f))) s1"
  define s3 where "s3 = s2\<lparr>ChecksumDB := (ChecksumDB s2)(h := Some f)\<rparr>"
  define g where "g = (\<lambda>x. x + fSize (files s3 ! f))"
  have st3: "same_tree s s3"
    by (simp add: s3_def s2_def s1_def)
  have "unlocked s1"
    using inv(2) by (auto simp: unlocked_def s1_def NewFile_def less_Suc_eq nth_append)
  then have u3: "unlocked s3"
    unfolding s3_def s2_def by (intro unlocked_upd) simp_all
  obtain s4 where s4: "adjust_sizes g d s3 = Ret s4 0" "size_only s3 s4"
    using adjust_sizes_ok[OF same_tree_inv[OF st3 inv(1)]] dl st3 by (auto simp: same_tree_def)
  define t where "t = upd_dir 0 (dSize_update g) s4"
  have so: "size_only s3 t" unfolding t_def using size_only_trans[OF s4(2) size_only_step] .
  have "link_new h d n s = Ret t (Inr f)"
    unfolding link_new_def Let_def f_def[symmetric] s1_def[symmetric] s2_def[symmetric]
      s3_def[symmetric] g_def[symmetric] s4(1) t_def by simp
  moreover have F: "files t = files s @ [NewFile n h 0 d]" and C: "ChecksumDB t = (ChecksumDB s)(h \<mapsto> f)"
    and e: "entry t = put d n (Some f) (entry s)"
    using so dl entry_upd_dir[of d s1 n "Some f"]
    by (simp_all add: size_only_def s3_def s2_def s1_def)
  moreover have "same_tree s t" "unlocked t"
    using so same_tree_trans[OF st3] unlocked_size_only[OF u3] by (simp_all add: size_only_def)
  moreover have "ns_ok (put d n (Some f) (entry s)) (files t) (ChecksumDB t)"
    using ns_ok_new[OF inv(3) h free n] by (simp add: F C f_def)
  ultimately show ?thesis
    using that[of t f] fs_inv_put[OF s, of t cs d n "Some f" "Some h"] d
    by (simp add: nth_append NewFile_def f_def)
qed

text \<open>What \<open>AddFile\<close> has done before it links the file: the parent directory exists.\<close>

lemma AddFile_prefix:
  assumes s: "fs_inv s" and can: "canonical path"
  obtains t d where "fs_inv t" "ns t = ns s" "files t = files s" "ChecksumDB t = ChecksumDB s"
    "walk t 0 (fst (resolve path)) = Some d"
    "AddFile path h s = (if ns s (resolve path) \<noteq> None \<and> ns s (resolve path) \<noteq> Some h
       then Ret t (Inl ChecksumDiffers) else AddFile_link path h (Inr d) t)"
proof -
  note inv = fs_invD[OF s]
  obtain p where p: "slice_to path (last_index slash path) = Some p" "comps p = fst (resolve path)"
    using path_parts[OF canonical_slash[OF can]] by metis
  obtain t d where t: "AddDir p s = Ret t ()" "tree_inv t" "unlocked t" "fs_extends s t"
      "walk t 0 (fst (resolve path)) = Some d"
    using AddDir_ok[OF inv(1,2), of p] p(2) by metis
  have "GetFileParent path t = Ret t (Inr d)"
    using GetDir_walk[OF t(2) unlocked_dirs[OF t(3)]] t(5) p by (simp add: GetFileParent_def)
  then have "AddFile path h s = (if ns t (resolve path) \<noteq> None \<and> ns t (resolve path) \<noteq> Some h
       then Ret t (Inl ChecksumDiffers) else AddFile_link path h (Inr d) t)"
    using p(1) t(1) GetFile_lookup[OF t(2,3), of path]
    by (cases "lookup t (resolve path)") (auto simp: AddFile_def ns_def)
  with that[of t d] fs_inv_extends[OF s t(2-4)] t(4,5) show ?thesis
    by (simp add: fs_extends_def)
qed

lemma AddFile_link_ok:
  assumes t: "fs_inv t" and can: "canonical path" and d: "walk t 0 (fst (resolve path)) = Some d"
    and ok: "ns t (resolve path) = None \<or> ns t (resolve path) = Some h"
    and room: "\<And>f. ChecksumDB t h = Some f \<Longrightarrow> SemaphoreReplica (files t ! f) \<noteq> - 1"
  shows "\<exists>u f. AddFile_link path h (Inr d) t = Ret u (Inr f) \<and> fs_inv u \<and>
           ns u = (ns t)(resolve path := Some h)"
proof -
  note inv = fs_invD[OF t]
  let ?n = "snd (resolve path)"
  have n: "slash \<notin> set ?n" by (rule resolve_good(2))
  have look: "lookup t (resolve path) = entry t d ?n"
    using lookup_entry[OF inv(1) d, of ?n] by simp
  have free: "entry t d ?n = None" if "ChecksumDB t h \<noteq> entry t d ?n"
    using that ok lookup_file(2)[OF t, of "resolve path"]
    by (cases "entry t d ?n") (auto simp: ns_def look)
  show ?thesis
  proof (cases "ChecksumDB t h")
    case None
    with free have fr: "entry t d ?n = None" by (cases "entry t d ?n") auto
    obtain u f where "link_new h d ?n t = Ret u (Inr f)" "fs_inv u"
        "ns u = (ns t)((fst (resolve path), ?n) := Some h)"
      by (rule link_new_ok[OF t None d fr n])
    then show ?thesis
      using None inv(2) by (simp add: AddFile_link_def unlocked_def ParseFileName_resolve)
  next
    case (Some f)
    note pe = Paths_entry[OF inv(1,3) Some d can]
    show ?thesis
    proof (cases "entry t d ?n = Some f")
      case True
      then have "ns t (resolve path) = Some h"
        using look ns_ok_index(2)[OF inv(3) Some] by (simp add: ns_def)
      then show ?thesis
        using True Some inv(2) t pe by (auto simp: AddFile_link_def unlocked_def)
    next
      case False
      with free Some have fr: "entry t d ?n = None" by auto
      from link_replica_ok[OF t Some d fr n room[OF Some]] show ?thesis
        using False Some inv(2) pe by (simp add: AddFile_link_def unlocked_def ParseFileName_resolve)
    qed
  qed
qed

section \<open>Deleting a file\<close>

lemma with_file_lock_Ret:
  assumes "body (upd_file f (fmu_update (\<lambda>_. True)) s) = Ret t a"
  shows "with_file_lock f body s = Ret (upd_file f (fmu_update (\<lambda>_. False)) t) a"
  using assms by (simp add: with_file_lock_def)

text \<open>The state in which \<open>unlink\<close> runs: the file's lock and the lock of the namespace are held.\<close>

definition held :: "fref \<Rightarrow> fs \<Rightarrow> fs" where
  "held f s = (upd_file f (fmu_update (\<lambda>_. True)) s)\<lparr>fsmu := True\<rparr>"

definition release :: "fref \<Rightarrow> fs \<Rightarrow> fs" where
  "release f s = upd_file f (fmu_update (\<lambda>_. False)) (s\<lparr>fsmu := False\<rparr>)"

lemma DeleteFile_found:
  assumes s: "fs_inv s" and can: "canonical path" and f: "lookup s (resolve path) = Some f"
    and d: "walk s 0 (fst (resolve path)) = Some d"
    and body: "unlink path f d (held f s) = Ret u r"
  shows "DeleteFile path s = Ret (release f u) r"
proof -
  note inv = fs_invD[OF s]
  obtain p where p: "slice_to path (int (length path) - int (length (ParseFileName path)) - 1) = Some p"
      "comps p = fst (resolve path)"
    using path_parts[OF canonical_slash[OF can]] by metis
  let ?s = "upd_file f (fmu_update (\<lambda>_. True)) s"
  have st: "same_tree s ?s" by simp
  have tr: "tree_inv ?s" using same_tree_inv[OF st inv(1)] .
  have "walk ?s 0 (comps p) = Some d"
    using same_tree_walk[OF st inv(1) tree_root[OF inv(1)]] d p(2) by simp
  then have gd: "GetDir p ?s = Ret ?s (Inr d)"
    using GetDir_walk[OF tr] unlocked_dirs[OF inv(2)] by (simp add: dirs_free_def)
  have "\<not> fmu (files s ! f)" using inv(2) lookup_file(1)[OF s f] by (simp add: unlocked_def)
  then show ?thesis
    using GetFile_lookup[OF inv(1,2), of path] f p(1) gd body unlocked_dirs(2)[OF inv(2)]
    by (simp add: DeleteFile_def with_file_lock_def with_fs_lock_def held_def release_def)
qed

lemma held_sel [simp]:
  "dirs (held f s) = dirs s" "ChecksumDB (held f s) = ChecksumDB s" "entry (held f s) = entry s"
  "files (held f s) = (files s)[f := (files s ! f)\<lparr>fmu := True\<rparr>]"
  by (simp_all add: held_def)

lemma held_same_tree [simp]:
  "same_tree s (held f t) \<longleftrightarrow> same_tree s t" "same_tree s (release f t) \<longleftrightarrow> same_tree s t"
  by (simp_all add: held_def release_def)

lemma release_sel [simp]:
  "dirs (release f s) = dirs s" "ChecksumDB (release f s) = ChecksumDB s" "entry (release f s) = entry s"
  "files (release f s) = (files s)[f := (files s ! f)\<lparr>fmu := False\<rparr>]" "\<not> fsmu (release f s)"
  by (simp_all add: release_def)

lemma unlocked_release:
  assumes "unlocked s" "length (files u) = length (files s)"
      "\<And>g. g < length (files s) \<Longrightarrow> g \<noteq> f \<Longrightarrow> fmu (files u ! g) = fmu (files s ! g)"
    and "length (dirs u) = length (dirs s)"
      "\<And>d. d < length (dirs s) \<Longrightarrow> dmu (dirs u ! d) = dmu (dirs s ! d)"
  shows "unlocked (release f u)"
  using assms by (auto simp: unlocked_def nth_upd)

lemma unlink_last_ok:
  assumes s: "fs_inv s" and f: "lookup s (resolve path) = Some f"
    and d: "walk s 0 (fst (resolve path)) = Some d" and one: "SemaphoreReplica (files s ! f) = 1"
  shows "\<exists>u. unlink path f d (held f s) = Ret u (Inr ()) \<and> fs_inv (release f u) \<and>
           ns (release f u) = (ns s)(resolve path := None)"
proof -
  note inv = fs_invD[OF s]
  let ?n = "snd (resolve path)"
  have e: "entry s d ?n = Some f" using lookup_entry[OF inv(1) d, of ?n] f by simp
  have fl: "f < length (files s)" and dl: "d < length (dirs s)"
    using lookup_file(1)[OF s f] walk_range[OF inv(1) tree_root[OF inv(1)] d] by simp_all
  define u where "u = (upd_dir d (dFiles_update (\<lambda>m. m(?n := None))) (held f s))
      \<lparr>ChecksumDB := (ChecksumDB s)(Checksum (files s ! f) := None)\<rparr>"
  have run: "unlink path f d (held f s) = Ret u (Inr ())"
    using one fl by (simp add: unlink_def ParseFileName_resolve u_def)
  have "\<not> fmu (files s ! f)" using inv(2) fl by (simp add: unlocked_def)
  then have F: "files (release f u) = files s"
    using fl by (simp add: u_def list_update_same_conv)
  have E: "entry (release f u) = put d ?n None (entry s)"
    using dl by (simp add: u_def entry_upd_dir)
  have st: "same_tree s (release f u)"
    by (simp add: u_def)
  have ul: "unlocked (release f u)"
    by (rule unlocked_release[OF inv(2)]) (simp_all add: u_def upd_dir_def nth_upd)
  have ok: "ns_ok (put d ?n None (entry s)) (files (release f u)) (ChecksumDB (release f u))"
    using ns_ok_unlink_last[OF inv(3) e one] F by (simp add: u_def)
  show ?thesis
    using fs_inv_put[OF s st ul d E ok] run F by auto
qed

lemma remove_location:
  assumes s: "fs_inv s" and can: "canonical path" and f: "lookup s (resolve path) = Some f"
    and d: "walk s 0 (fst (resolve path)) = Some d" and st: "same_tree s t"
    and t: "FSPath (files t ! f) = FSPath (files s ! f)"
  shows "remove_path path (Paths t f) (FSPath (files s ! f)) =
    remove1 (loc d (snd (resolve path))) (FSPath (files s ! f))"
proof -
  note inv = fs_invD[OF s] and C = lookup_file(2)[OF s f]
  have "dFullPath (dirs t ! lParent l) = dFullPath (dirs s ! lParent l)"
    if "l \<in> set (FSPath (files s ! f))" for l
  proof -
    have "entry s (lParent l) (lFileName l) = Some f"
      using ns_ok_index(3)[OF inv(3) C] that by (cases l) (simp add: file_ok_def)
    then have "lParent l < length (dirs s)" by (auto simp: entry_def split: if_splits)
    with st show ?thesis by (simp add: same_tree_def)
  qed
  then show ?thesis
    unfolding Paths_def t using location_path[OF inv(1,3) C _ d can]
    by (intro remove_path_remove1) simp
qed

lemma unlink_more_ok:
  assumes s: "fs_inv s" and can: "canonical path" and f: "lookup s (resolve path) = Some f"
    and d: "walk s 0 (fst (resolve path)) = Some d" and many: "SemaphoreReplica (files s ! f) \<noteq> 1"
  shows "\<exists>u. unlink path f d (held f s) = Ret u (Inr ()) \<and> fs_inv (release f u) \<and>
           ns (release f u) = (ns s)(resolve path := None)"
proof -
  note inv = fs_invD[OF s]
  let ?n = "snd (resolve path)" and ?F = "files s ! f"
  have e: "entry s d ?n = Some f" using lookup_entry[OF inv(1) d, of ?n] f by simp
  have fl: "f < length (files s)" and dl: "d < length (dirs s)"
    using lookup_file(1)[OF s f] walk_range[OF inv(1) tree_root[OF inv(1)] d] by simp_all
  define s1 where "s1 = upd_dir d (dFiles_update (\<lambda>m. m(?n := None))) (held f s)"
  define s2 where "s2 = upd_file f (FSPath_update (remove_path path (Paths s1 f))) s1"
  have st2: "same_tree s s2" and st1: "same_tree s s1"
    by (simp_all add: s2_def s1_def)
  obtain s3 where s3: "adjust_sizes (\<lambda>n. n - fSize (files s2 ! f)) d s2 = Ret s3 0" "size_only s2 s3"
    using adjust_sizes_ok[OF same_tree_inv[OF st2 inv(1)]] dl st2 by (auto simp: same_tree_def)
  define u where "u = upd_file f (SemaphoreReplica_update (\<lambda>n. n - 1)) s3"
  have run: "unlink path f d (held f s) = Ret u (Inr ())"
    unfolding unlink_def Let_def ParseFileName_resolve s1_def[symmetric] s2_def[symmetric] s3(1) u_def
    using many fl by simp
  have "FSPath (files s1 ! f) = FSPath ?F" using fl by (simp add: s1_def)
  note rm = remove_location[OF s can f d st1 this]
  have "\<not> fmu ?F" using inv(2) fl by (simp add: unlocked_def)
  then have F: "files (release f u) = (files s)[f := ?F\<lparr>FSPath := remove1 (loc d ?n) (FSPath ?F),
      SemaphoreReplica := SemaphoreReplica ?F - 1\<rparr>]"
    using fl s3(2) rm by (cases ?F) (simp add: u_def size_only_def s2_def s1_def)
  have E: "entry (release f u) = put d ?n None (entry s)"
    using dl s3(2) by (simp add: u_def size_only_def s2_def s1_def entry_upd_dir)
  have st: "same_tree s (release f u)"
    using st2 s3(2) same_tree_trans by (simp add: u_def size_only_def)
  have ul: "unlocked (release f u)"
    by (rule unlocked_release[OF inv(2)])
      (use s3(2) in \<open>simp_all add: u_def size_only_def same_tree_def s2_def s1_def upd_dir_def nth_upd\<close>)
  have ok: "ns_ok (put d ?n None (entry s)) (files (release f u)) (ChecksumDB (release f u))"
    using ns_ok_unlink[OF inv(3) e many F] s3(2) by (simp add: u_def size_only_def s2_def s1_def)
  have "Checksum (files (release f u) ! g) = Checksum (files s ! g)" if "g < length (files s)" for g
    unfolding F using that by (simp add: nth_upd)
  then show ?thesis
    using fs_inv_put[OF s st ul d E ok] run by auto
qed

section \<open>The replica counter\<close>

text \<open>The keys that hold a checksum are exactly the locations of its file.\<close>

lemma replica_keys:
  assumes s: "fs_inv s" and f: "ChecksumDB s h = Some f"
  shows "(\<lambda>k. loc (the (walk s 0 (fst k))) (snd k)) ` {k. ns s k = Some h} = set (FSPath (files s ! f))"
    "inj_on (\<lambda>k. loc (the (walk s 0 (fst k))) (snd k)) {k. ns s k = Some h}"
proof -
  note inv = fs_invD[OF s]
  let ?g = "\<lambda>k. loc (the (walk s 0 (fst k))) (snd k)" and ?K = "{k. ns s k = Some h}"
  have key: "\<exists>d. walk s 0 (fst k) = Some d \<and> entry s d (snd k) = Some f" if k: "k \<in> ?K" for k
  proof -
    obtain f' where "lookup s k = Some f'" "Checksum (files s ! f') = h"
      using k by (auto simp: ns_def)
    with lookup_file[OF s this(1)] f show ?thesis by auto
  qed
  show "inj_on ?g ?K"
  proof (rule inj_onI)
    fix k k' assume "k \<in> ?K" "k' \<in> ?K" "?g k = ?g k'"
    with key[of k] key[of k'] walk_inj[OF inv(1)] show "k = k'" by (auto simp: prod_eq_iff)
  qed
  show "?g ` ?K = set (FSPath (files s ! f))"
  proof (intro equalityI subsetI)
    fix l assume "l \<in> ?g ` ?K"
    then show "l \<in> set (FSPath (files s ! f))" using key ns_ok_entry(4)[OF inv(3)] by fastforce
  next
    fix l assume l: "l \<in> set (FSPath (files s ! f))"
    obtain d n where dn: "l = loc d n" by (cases l) auto
    have e: "entry s d n = Some f"
      using ns_ok_index(3)[OF inv(3) f] l by (simp add: file_ok_def dn)
    then obtain cs where cs: "walk s 0 cs = Some d"
      using tree_reach[OF inv(1), of d] by (auto simp: entry_def split: if_splits)
    have "(cs, n) \<in> ?K"
      using lookup_entry[OF inv(1) cs] e ns_ok_index(2)[OF inv(3) f] by (simp add: ns_def)
    moreover have "l = ?g (cs, n)" using cs by (simp add: dn)
    ultimately show "l \<in> ?g ` ?K" by (rule rev_image_eqI)
  qed
qed

lemma replica_count:
  assumes s: "fs_inv s" and f: "ChecksumDB s h = Some f"
  shows "unat (SemaphoreReplica (files s ! f)) = card {k. ns s k = Some h}"
    "finite {k. ns s k = Some h}"
proof -
  have fo: "file_ok (entry s) f (files s ! f)" using ns_ok_index(3)[OF fs_invD(3)[OF s] f] .
  have "card {k. ns s k = Some h} = card (set (FSPath (files s ! f)))"
    using card_image[OF replica_keys(2)[OF s f]] unfolding replica_keys(1)[OF s f] by simp
  also have "\<dots> = length (FSPath (files s ! f))"
    using fo by (intro distinct_card) (simp add: file_ok_def)
  finally show "unat (SemaphoreReplica (files s ! f)) = card {k. ns s k = Some h}"
    using fo by (simp add: file_ok_def)
  show "finite {k. ns s k = Some h}"
    using finite_imageD[OF _ replica_keys(2)[OF s f]] unfolding replica_keys(1)[OF s f] by simp
qed

section \<open>The operations against the specification\<close>

lemma NewFS_inv: "fs_inv NewFS" "ns NewFS = Map.empty"
proof -
  have "tree_inv NewFS"
    by (rule tree_invI) (auto simp: NewFS_def NewDirectory_def)
  moreover have "ns_ok (entry NewFS) (files NewFS) (ChecksumDB NewFS)"
    by (rule ns_okI) (auto simp: NewFS_def NewDirectory_def entry_def split: if_splits)
  ultimately show "fs_inv NewFS"
    by (simp add: fs_inv_def unlocked_def NewFS_def NewDirectory_def)
  show "ns NewFS = Map.empty"
    by (auto simp: ns_def lookup_def NewFS_def NewDirectory_def fun_eq_iff neq_Nil_conv
        split: Option.bind_splits elim: walk.elims)
qed

lemma GetFile_spec:
  assumes "fs_inv s"
  shows "\<exists>r. GetFile path s = Ret s r \<and>
    (case r of Inl e \<Rightarrow> e = FileNotExist \<and> ns s (resolve path) = None
      | Inr f \<Rightarrow> ns s (resolve path) = Some (Checksum (files s ! f)))"
  using GetFile_lookup[OF fs_invD(1,2)[OF assms]]
  by (auto simp: ns_def split: option.splits)

lemma AddFile_spec:
  assumes s: "fs_inv s" and can: "canonical path" and room: "card {k. ns s k = Some h} < 2 ^ 32 - 1"
  shows "\<exists>t r. AddFile path h s = Ret t r \<and> fs_inv t \<and>
    (if ns s (resolve path) \<noteq> None \<and> ns s (resolve path) \<noteq> Some h
     then r = Inl ChecksumDiffers \<and> ns t = ns s
     else isl r = False \<and> ns t = (ns s)(resolve path := Some h))"
proof -
  obtain t d where t: "fs_inv t" "ns t = ns s" "files t = files s" "ChecksumDB t = ChecksumDB s"
    "walk t 0 (fst (resolve path)) = Some d"
    "AddFile path h s = (if ns s (resolve path) \<noteq> None \<and> ns s (resolve path) \<noteq> Some h
       then Ret t (Inl ChecksumDiffers) else AddFile_link path h (Inr d) t)"
    by (rule AddFile_prefix[OF s can])
  have "SemaphoreReplica (files t ! f) \<noteq> - 1" if "ChecksumDB t h = Some f" for f
  proof
    assume "SemaphoreReplica (files t ! f) = - 1"
    then have "unat (SemaphoreReplica (files t ! f)) = 2 ^ 32 - 1"
      by (simp add: unsigned_minus_1_eq_mask mask_eq_exp_minus_1)
    with replica_count(1)[OF t(1) that] room t(2) show False by simp
  qed
  then show ?thesis
    using AddFile_link_ok[OF t(1) can t(5)] t by (fastforce split: if_splits)
qed

text \<open>A file with new contents at a free path: it has no host yet.\<close>

lemma AddFile_fresh:
  assumes s: "fs_inv s" and can: "canonical path" and new: "ns s (resolve path) = None" "ChecksumDB s h = None"
  obtains t f where "AddFile path h s = Ret t (Inr f)" "fs_inv t" "ns t = (ns s)(resolve path := Some h)"
    "GetFile path t = Ret t (Inr f)" "lookup t (resolve path) = Some f" "Checksum (files t ! f) = h" "Host (files t ! f) = []"
proof -
  obtain t d where t: "fs_inv t" "ns t = ns s" "files t = files s" "ChecksumDB t = ChecksumDB s"
    "walk t 0 (fst (resolve path)) = Some d"
    "AddFile path h s = (if ns s (resolve path) \<noteq> None \<and> ns s (resolve path) \<noteq> Some h
       then Ret t (Inl ChecksumDiffers) else AddFile_link path h (Inr d) t)"
    by (rule AddFile_prefix[OF s can])
  have "ns t (resolve path) = None" using new(1) t(2) by simp
  then have "lookup t (resolve path) = None" by (simp add: ns_def)
  then have fr: "entry t d (snd (resolve path)) = None"
    using lookup_entry[OF fs_invD(1)[OF t(1)] t(5), of "snd (resolve path)"] by simp
  have C: "ChecksumDB t h = None" using new(2) t(4) by simp
  obtain u f where u: "link_new h d (snd (resolve path)) t = Ret u (Inr f)" "fs_inv u"
      "ns u = (ns t)((fst (resolve path), snd (resolve path)) := Some h)"
      "Checksum (files u ! f) = h" "Host (files u ! f) = []" "ChecksumDB u h = Some f"
    by (rule link_new_ok[OF t(1) C t(5) fr resolve_good(2)])
  have add: "AddFile path h s = Ret u (Inr f)"
    using t(6) new C u(1) fs_invD(2)[OF t(1)] by (simp add: AddFile_link_def unlocked_def ParseFileName_resolve)
  have "ns u (resolve path) = Some h" using u(3) by simp
  then obtain f' where f': "lookup u (resolve path) = Some f'" "Checksum (files u ! f') = h"
    by (auto simp: ns_def)
  with lookup_file(2)[OF u(2) f'(1)] u(6) have "f' = f" by simp
  with f' GetFile_lookup[OF fs_invD(1,2)[OF u(2)], of path] u t(2) add show thesis by (intro that) auto
qed

lemma DeleteFile_spec:
  assumes s: "fs_inv s" and can: "canonical path"
  shows "\<exists>t. DeleteFile path s = Ret t (if ns s (resolve path) = None then Inl FileNotExist else Inr ()) \<and>
    fs_inv t \<and> ns t = (ns s)(resolve path := None)"
proof (cases "lookup s (resolve path)")
  case None
  then show ?thesis
    using GetFile_lookup[OF fs_invD(1,2)[OF s], of path] s
    by (auto simp: DeleteFile_def ns_def)
next
  case (Some f)
  then obtain d where d: "walk s 0 (fst (resolve path)) = Some d" using lookup_file(3)[OF s] by blast
  obtain u where "unlink path f d (held f s) = Ret u (Inr ())" "fs_inv (release f u)"
      "ns (release f u) = (ns s)(resolve path := None)"
    using unlink_last_ok[OF s Some d] unlink_more_ok[OF s can Some d] by blast
  with DeleteFile_found[OF s can Some d] Some show ?thesis by (auto simp: ns_def)
qed

end
