(* ===== verification/FS_Props.thy ===== *)
theory FS_Props
  imports FS_Refine
begin

text \<open>
  The contract of the namespace (locale \<open>name_store\<close>), its discharge for the code's model
  (interpretation \<open>sdfs_ns\<close>), and the properties of \<open>sdfs/fs.go\<close> that follow: histories
  of \<open>AddFile\<close> and \<open>DeleteFile\<close> refine a map, what is added is found, the replica counter
  counts locations, and what happens outside the contract (paths without a separator, paths
  that are not canonical, directories that do not exist).
\<close>

section \<open>The interface of the namespace\<close>

text \<open>Histories of operations, run on an implementation and on the specification.\<close>

datatype ('p, 'c) ns_op = OpAdd 'p 'c | OpDelete 'p

fun op_path :: "('p, 'c) ns_op \<Rightarrow> 'p" where
  "op_path (OpAdd p c) = p"
| "op_path (OpDelete p) = p"

fun err_of :: "'e + 'a \<Rightarrow> 'e option" where
  "err_of (Inl e) = Some e"
| "err_of (Inr a) = None"

fun run_op :: "('p \<Rightarrow> 'c \<Rightarrow> 's \<Rightarrow> ('s, 'e + 'f) outcome) \<Rightarrow> ('p \<Rightarrow> 's \<Rightarrow> ('s, 'e + unit) outcome) \<Rightarrow>
    ('p, 'c) ns_op \<Rightarrow> 's \<Rightarrow> ('s, 'e option) outcome" where
  "run_op add del (OpAdd p c) s = obind (add p c s) (\<lambda>t r. Ret t (err_of r))"
| "run_op add del (OpDelete p) s = obind (del p s) (\<lambda>t r. Ret t (err_of r))"

fun run_ops :: "('p \<Rightarrow> 'c \<Rightarrow> 's \<Rightarrow> ('s, 'e + 'f) outcome) \<Rightarrow> ('p \<Rightarrow> 's \<Rightarrow> ('s, 'e + unit) outcome) \<Rightarrow>
    ('p, 'c) ns_op list \<Rightarrow> 's \<Rightarrow> ('s, 'e option list) outcome" where
  "run_ops add del [] s = Ret s []"
| "run_ops add del (x # xs) s =
     obind (run_op add del x s) (\<lambda>t r. obind (run_ops add del xs t) (\<lambda>u rs. Ret u (r # rs)))"

fun spec_op :: "('p \<Rightarrow> 'k) \<Rightarrow> 'e \<Rightarrow> 'e \<Rightarrow> ('p, 'c) ns_op \<Rightarrow> ('k \<rightharpoonup> 'c) \<Rightarrow> ('k \<rightharpoonup> 'c) \<times> 'e option" where
  "spec_op key clash missing (OpAdd p c) m =
     (if m (key p) \<noteq> None \<and> m (key p) \<noteq> Some c then (m, Some clash) else (m(key p := Some c), None))"
| "spec_op key clash missing (OpDelete p) m =
     (if m (key p) = None then (m, Some missing) else (m(key p := None), None))"

fun spec_ops :: "('p \<Rightarrow> 'k) \<Rightarrow> 'e \<Rightarrow> 'e \<Rightarrow> ('p, 'c) ns_op list \<Rightarrow> ('k \<rightharpoonup> 'c) \<Rightarrow> ('k \<rightharpoonup> 'c) \<times> 'e option list" where
  "spec_ops key clash missing [] m = (m, [])"
| "spec_ops key clash missing (x # xs) m =
     (let (m1, r) = spec_op key clash missing x m; (m2, rs) = spec_ops key clash missing xs m1
      in (m2, r # rs))"

locale name_store =
  fixes inv :: "'s \<Rightarrow> bool" and view :: "'s \<Rightarrow> 'k \<rightharpoonup> 'c" and sum :: "'s \<Rightarrow> 'f \<Rightarrow> 'c"
    and legal :: "'p \<Rightarrow> bool" and key :: "'p \<Rightarrow> 'k" and limit :: nat
    and get :: "'p \<Rightarrow> 's \<Rightarrow> ('s, 'e + 'f) outcome"
    and add :: "'p \<Rightarrow> 'c \<Rightarrow> 's \<Rightarrow> ('s, 'e + 'f) outcome"
    and del :: "'p \<Rightarrow> 's \<Rightarrow> ('s, 'e + unit) outcome"
    and clash :: 'e and missing :: 'e
  assumes get_law: "inv s \<Longrightarrow> \<exists>r. get p s = Ret s r \<and>
      (case r of Inl e \<Rightarrow> e = missing \<and> view s (key p) = None
        | Inr f \<Rightarrow> view s (key p) = Some (sum s f))"
    and add_law: "inv s \<Longrightarrow> legal p \<Longrightarrow> card {k. view s k = Some c} < limit \<Longrightarrow>
      \<exists>t r. add p c s = Ret t r \<and> inv t \<and>
        (if view s (key p) \<noteq> None \<and> view s (key p) \<noteq> Some c
         then r = Inl clash \<and> view t = view s
         else isl r = False \<and> view t = (view s)(key p := Some c))"
    and del_law: "inv s \<Longrightarrow> legal p \<Longrightarrow>
      \<exists>t. del p s = Ret t (if view s (key p) = None then Inl missing else Inr ()) \<and> inv t \<and>
        view t = (view s)(key p := None)"
begin

lemma op_refines:
  assumes "inv s" "legal (op_path x)" "\<forall>c. card {k. view s k = Some c} < limit"
  shows "\<exists>t r. run_op add del x s = Ret t r \<and> inv t \<and> (view t, r) = spec_op key clash missing x (view s)"
proof (cases x)
  case (OpAdd p c)
  obtain t r where "add p c s = Ret t r" "inv t"
      "if view s (key p) \<noteq> None \<and> view s (key p) \<noteq> Some c
         then r = Inl clash \<and> view t = view s
         else isl r = False \<and> view t = (view s)(key p := Some c)"
    using add_law[of s p c] assms OpAdd by auto
  with OpAdd show ?thesis by (cases r) (auto split: if_splits)
next
  case (OpDelete p)
  obtain t where "del p s = Ret t (if view s (key p) = None then Inl missing else Inr ())" "inv t"
      "view t = (view s)(key p := None)"
    using del_law[of s p] assms OpDelete by auto
  with OpDelete show ?thesis by (auto simp: fun_upd_idem)
qed

lemma spec_op_card:
  assumes "finite (dom m)" "spec_op key clash missing x m = (m', r)"
  shows "finite (dom m') \<and> card (dom m') \<le> card (dom m) + 1"
  using assms
  by (cases x) (auto split: if_splits simp: card_insert_if le_SucI[OF card_Diff1_le])

lemma card_value_le:
  assumes "finite (dom m)"
  shows "card {k. m k = Some c} \<le> card (dom m)"
  using assms by (intro card_mono) auto

text \<open>A history no longer than the limit allows runs to its end and refines the specification.\<close>

lemma history_refines:
  assumes "inv s" "\<forall>x \<in> set xs. legal (op_path x)" "finite (dom (view s))"
    "card (dom (view s)) + length xs \<le> limit"
  shows "\<exists>t rs. run_ops add del xs s = Ret t rs \<and> inv t \<and>
    (view t, rs) = spec_ops key clash missing xs (view s)"
  using assms
proof (induction xs arbitrary: s)
  case (Cons x xs)
  have "\<forall>c. card {k. view s k = Some c} < limit"
  proof
    fix c show "card {k. view s k = Some c} < limit"
      using card_value_le[OF Cons.prems(3), of c] Cons.prems(4) by simp
  qed
  then obtain t r where t: "run_op add del x s = Ret t r" "inv t"
      "spec_op key clash missing x (view s) = (view t, r)"
    using op_refines[of s x] Cons.prems by auto
  have "finite (dom (view t)) \<and> card (dom (view t)) \<le> card (dom (view s)) + 1"
    using spec_op_card[OF Cons.prems(3) t(3)] .
  with Cons.IH[of t] Cons.prems t show ?case
    by (fastforce simp: Let_def split: prod.splits)
qed simp

lemma get_found: "inv s \<Longrightarrow> view s (key p) = Some c \<Longrightarrow> \<exists>f. get p s = Ret s (Inr f) \<and> sum s f = c"
  and get_missing: "inv s \<Longrightarrow> view s (key p) = None \<Longrightarrow> get p s = Ret s (Inl missing)"
  using get_law[of s p] by (auto split: sum.splits) (metis obj_sumE)+

lemma add_then_get:
  assumes "inv s" "legal p" "card {k. view s k = Some c} < limit"
    and "view s (key p) = None \<or> view s (key p) = Some c"
  shows "\<exists>t r f. add p c s = Ret t r \<and> inv t \<and> get p t = Ret t (Inr f) \<and> sum t f = c \<and>
    (\<forall>q. key q \<noteq> key p \<longrightarrow> view t (key q) = view s (key q))"
proof -
  obtain t r where t: "add p c s = Ret t r" "inv t" "view t = (view s)(key p := Some c)"
    using add_law[OF assms(1-3)] assms(4) by auto
  with get_found[OF t(2), of p c] show ?thesis by auto
qed

lemma del_then_get:
  assumes "inv s" "legal p" "view s (key p) \<noteq> None"
  shows "\<exists>t. del p s = Ret t (Inr ()) \<and> inv t \<and> get p t = Ret t (Inl missing) \<and>
    (\<forall>q. key q \<noteq> key p \<longrightarrow> view t (key q) = view s (key q))"
proof -
  obtain t where t: "del p s = Ret t (Inr ())" "inv t" "view t = (view s)(key p := None)"
    using del_law[OF assms(1,2)] assms(3) by auto
  with get_missing[OF t(2), of p] show ?thesis by auto
qed

end

interpretation sdfs_ns: name_store fs_inv ns "\<lambda>s f. Checksum (files s ! f)" canonical resolve
  "2 ^ 32 - 1" GetFile AddFile DeleteFile ChecksumDiffers FileNotExist
  by unfold_locales (rule GetFile_spec AddFile_spec DeleteFile_spec; assumption)+

section \<open>Properties\<close>

text \<open>C6. Any history of \<open>AddFile\<close> and \<open>DeleteFile\<close> calls on canonical paths, started on a new
  file system, runs to its end (no call panics, waits for a lock or loops) and computes what the
  same history computes on a map from locations to checksums: the same error or success for each
  call and, at the end, the same contents.  The bound on its length is the width of the replica
  counter.\<close>

theorem fs_history_refines_map:
  assumes "\<forall>x \<in> set xs. canonical (op_path x)" and "length xs \<le> 2 ^ 32 - 1"
  shows "\<exists>t rs. run_ops AddFile DeleteFile xs NewFS = Ret t rs \<and> fs_inv t \<and>
     (ns t, rs) = spec_ops resolve ChecksumDiffers FileNotExist xs Map.empty"
  using sdfs_ns.history_refines[OF NewFS_inv(1) assms(1)] assms(2) by (simp add: NewFS_inv)

lemma canonical_examples: "canonical ''/a/b''" "canonical ''/c''"
  by (simp_all add: canonical_def resolve_def render_def)

lemma fs_history_refines_map_witness:
  "\<exists>t rs. run_ops AddFile DeleteFile
       [OpAdd ''/a/b'' ''h'', OpAdd ''/a/b'' ''g'', OpAdd ''/c'' ''h'', OpDelete ''/a/b''] NewFS = Ret t rs \<and>
     ns t ([], ''c'') = Some ''h'' \<and> ns t ([''a''], ''b'') = None \<and>
     rs = [None, Some ChecksumDiffers, None, None]"
proof -
  let ?xs = "[OpAdd ''/a/b'' ''h'', OpAdd ''/a/b'' ''g'', OpAdd ''/c'' ''h'', OpDelete ''/a/b'']"
  have "\<forall>x \<in> set ?xs. canonical (op_path x)" by (simp add: canonical_examples)
  from fs_history_refines_map[OF this] obtain t rs where
    "run_ops AddFile DeleteFile ?xs NewFS = Ret t rs"
    "(ns t, rs) = spec_ops resolve ChecksumDiffers FileNotExist ?xs Map.empty" by auto
  then show ?thesis by (auto simp: resolve_def)
qed

text \<open>A file added at a canonical path that is free, or that holds the same checksum, is found at
  that path with that checksum; every other location keeps what it held, and the state is sound
  and unlocked again.\<close>

theorem AddFile_GetFile:
  assumes "fs_inv s" and "canonical path" and "card {k. ns s k = Some h} < 2 ^ 32 - 1"
    and "ns s (resolve path) = None \<or> ns s (resolve path) = Some h"
  shows "\<exists>t r f. AddFile path h s = Ret t r \<and> fs_inv t \<and> GetFile path t = Ret t (Inr f) \<and>
     Checksum (files t ! f) = h \<and>
     (\<forall>q. resolve q \<noteq> resolve path \<longrightarrow> ns t (resolve q) = ns s (resolve q))"
  using sdfs_ns.add_then_get[OF assms] .

lemma AddFile_GetFile_witness:
  "\<exists>t r f. AddFile ''/a/b'' ''h'' NewFS = Ret t r \<and> GetFile ''/a/b'' t = Ret t (Inr f) \<and>
     Checksum (files t ! f) = ''h''"
  using AddFile_GetFile[OF NewFS_inv(1) canonical_examples(1), of "''h''"] by (auto simp: NewFS_inv)

text \<open>Deleting an existing file succeeds, makes \<open>GetFile\<close> at its path report that it does not
  exist, leaves every other location (also those of the same file) as it was, and releases both
  locks.\<close>

theorem DeleteFile_GetFile:
  assumes "fs_inv s" and "canonical path" and "ns s (resolve path) \<noteq> None"
  shows "\<exists>t. DeleteFile path s = Ret t (Inr ()) \<and> fs_inv t \<and> GetFile path t = Ret t (Inl FileNotExist) \<and>
     (\<forall>q. resolve q \<noteq> resolve path \<longrightarrow> ns t (resolve q) = ns s (resolve q))"
  using sdfs_ns.del_then_get[OF assms] .

lemma added_state:
  obtains t where "fs_inv t" "ns t = Map.empty((''a'' # [], ''b'') \<mapsto> ''h'')"
proof -
  have "resolve ''/a/b'' = ([''a''], ''b'')" by (simp add: resolve_def)
  with AddFile_spec[OF NewFS_inv(1) canonical_examples(1), of "''h''"] that show ?thesis
    by (auto simp: NewFS_inv)
qed

lemma DeleteFile_GetFile_witness:
  "\<exists>s t. fs_inv s \<and> DeleteFile ''/a/b'' s = Ret t (Inr ()) \<and> GetFile ''/a/b'' t = Ret t (Inl FileNotExist)"
proof -
  obtain s where s: "fs_inv s" "ns s = Map.empty((''a'' # [], ''b'') \<mapsto> ''h'')" by (rule added_state)
  have "ns s (resolve ''/a/b'') \<noteq> None" using s(2) by (simp add: resolve_def)
  from DeleteFile_GetFile[OF s(1) canonical_examples(1) this] s(1) show ?thesis by blast
qed

text \<open>A clash is refused without effect on the contents: \<open>AddFile\<close> at a path that holds another
  checksum returns the error, and the namespace is as before.\<close>

theorem AddFile_clash:
  assumes "fs_inv s" and "canonical path" and "card {k. ns s k = Some h} < 2 ^ 32 - 1"
    and "ns s (resolve path) = Some h'" and "h' \<noteq> h"
  shows "\<exists>t. AddFile path h s = Ret t (Inl ChecksumDiffers) \<and> fs_inv t \<and> ns t = ns s"
  using AddFile_spec[OF assms(1-3)] assms(4,5) by auto

lemma AddFile_clash_witness:
  "\<exists>s t. fs_inv s \<and> AddFile ''/a/b'' ''g'' s = Ret t (Inl ChecksumDiffers)"
proof -
  obtain s where s: "fs_inv s" "ns s = Map.empty((''a'' # [], ''b'') \<mapsto> ''h'')" by (rule added_state)
  have "{k. ns s k = Some ''g''} = {}" using s(2) by auto
  then have c: "card {k. ns s k = Some ''g''} < 2 ^ 32 - 1" by (simp only: card.empty) simp
  have "ns s (resolve ''/a/b'') = Some ''h''" using s(2) by (simp add: resolve_def)
  from AddFile_clash[OF s(1) canonical_examples(1) c this] s(1) show ?thesis by auto
qed

text \<open>C22. The replica counter of a file counts its locations: after any history of additions and deletions at canonical paths of a new
  namespace (clashing additions and failing deletions included), a checksum that is in the checksum index has a file whose counter is the number of locations that hold the checksum
  in the reference map of the history, and a checksum that is not in the index is held nowhere.\<close>

theorem SemaphoreReplica_counts_locations:
  assumes "\<forall>x \<in> set xs. canonical (op_path x)" and "length xs \<le> 2 ^ 32 - 1"
    and "m = fst (spec_ops resolve ChecksumDiffers FileNotExist xs Map.empty)"
  shows "\<exists>t rs. run_ops AddFile DeleteFile xs NewFS = Ret t rs \<and>
    (\<forall>h. case ChecksumDB t h of
        Some f \<Rightarrow> unat (SemaphoreReplica (files t ! f)) = card {k. m k = Some h}
      | None \<Rightarrow> {k. m k = Some h} = {})"
proof -
  obtain t rs where t: "run_ops AddFile DeleteFile xs NewFS = Ret t rs" "fs_inv t" "ns t = m"
    using sdfs_ns.history_refines[OF NewFS_inv(1) assms(1)] assms(2,3)
    by (simp add: NewFS_inv) (metis fst_conv)
  have "{k. m k = Some h} = {}" if "ChecksumDB t h = None" for h
  proof -
    have "ns t k \<noteq> Some h" for k
    proof
      assume "ns t k = Some h"
      then obtain f where f: "lookup t k = Some f" "Checksum (files t ! f) = h" by (auto simp: ns_def)
      from lookup_file(2)[OF t(2) f(1)] f(2) that show False by simp
    qed
    with t(3) show ?thesis by simp
  qed
  moreover have "unat (SemaphoreReplica (files t ! f)) = card {k. m k = Some h}" if "ChecksumDB t h = Some f" for h f
    using replica_count(1)[OF t(2) that] t(3) by simp
  ultimately show ?thesis using t(1) by (intro exI[of _ t] exI[of _ rs]) (simp split: option.split)
qed

lemma SemaphoreReplica_counts_locations_witness:
  "\<exists>t rs f. run_ops AddFile DeleteFile [OpAdd ''/a/b'' ''h'', OpAdd ''/c'' ''h'', OpAdd ''/a/b'' ''g''] NewFS = Ret t rs \<and>
     ChecksumDB t ''h'' = Some f \<and> unat (SemaphoreReplica (files t ! f)) = 2"
proof -
  let ?xs = "[OpAdd ''/a/b'' ''h'', OpAdd ''/c'' ''h'', OpAdd ''/a/b'' ''g'']"
  let ?m = "fst (spec_ops resolve ChecksumDiffers FileNotExist ?xs Map.empty)"
  have "\<forall>x \<in> set ?xs. canonical (op_path x)" by (simp add: canonical_examples)
  from SemaphoreReplica_counts_locations[OF this _ refl] obtain t rs where
    t: "run_ops AddFile DeleteFile ?xs NewFS = Ret t rs" "case ChecksumDB t ''h'' of
        Some f \<Rightarrow> unat (SemaphoreReplica (files t ! f)) = card {k. ?m k = Some ''h''} | None \<Rightarrow> {k. ?m k = Some ''h''} = {}" by force
  have "{k. ?m k = Some ''h''} = {([''a''], ''b''), ([], ''c'')}" by (auto simp: resolve_def)
  with t show ?thesis by (auto split: option.splits)
qed

section \<open>Outside the contract\<close>

abbreviation lock_dir :: "dref \<Rightarrow> fs \<Rightarrow> fs" where
  "lock_dir d s \<equiv> upd_dir d (dmu_update (\<lambda>_. True)) s"

lemma GetDir_loop_missing:
  assumes s: "tree_inv s" "dirs_free s" and "d < length (dirs s)"
    and "walk s d (filter (\<lambda>c. c \<noteq> []) parts) = None"
  shows "\<exists>e. d \<le> e \<and> e < length (dirs s) \<and>
    (\<forall>b. GetDir_loop parts d (s\<lparr>fsmu := b\<rparr>) = Ret (lock_dir e (s\<lparr>fsmu := b\<rparr>)) (Inl DirNotExist) \<and>
         GetDir_loop parts d (lock_dir e (s\<lparr>fsmu := b\<rparr>)) = Block (lock_dir e (s\<lparr>fsmu := b\<rparr>)))"
  using assms(3,4)
proof (induction parts arbitrary: d)
  case (Cons part parts)
  have free: "\<not> dmu (dirs s ! d)" using s(2) Cons.prems(1) by (simp add: dirs_free_def)
  consider (blank) "part = []" | (missing) "part \<noteq> []" "dSubDirs (dirs s ! d) part = None"
    | (sub) e where "part \<noteq> []" "dSubDirs (dirs s ! d) part = Some e"
    by fastforce
  then show ?case
  proof cases
    case blank
    with Cons show ?thesis by simp
  next
    case missing
    with free Cons.prems(1) show ?thesis
      by (intro exI[of _ d]) (simp add: upd_dir_def)
  next
    case (sub e)
    note e = tree_subdir(1,2)[OF s(1) Cons.prems(1) sub(2)]
    have "walk s e (filter (\<lambda>c. c \<noteq> []) parts) = None" using Cons.prems(2) sub by simp
    from Cons.IH[OF e(2) this] obtain e' where "e \<le> e'" "e' < length (dirs s)"
      "\<forall>b. GetDir_loop parts e (s\<lparr>fsmu := b\<rparr>) = Ret (lock_dir e' (s\<lparr>fsmu := b\<rparr>)) (Inl DirNotExist) \<and>
         GetDir_loop parts e (lock_dir e' (s\<lparr>fsmu := b\<rparr>)) = Block (lock_dir e' (s\<lparr>fsmu := b\<rparr>))"
      by blast
    with sub e free show ?thesis
      by (intro exI[of _ e']) (simp add: upd_dir_def)
  qed
qed simp

text \<open>\<open>GetDir\<close> on a path that does not exist returns its error with the lock of the last
  directory it reached still held.  The next \<open>GetDir\<close> of that path never returns, and it keeps
  the lock of the whole file system, so that from then on no \<open>GetDir\<close> and no \<open>GetFile\<close>
  returns, whatever its path.\<close>

theorem GetDir_missing_leaks_lock:
  assumes "fs_inv s" and "walk s 0 (comps path) = None"
  shows "\<exists>t u. GetDir path s = Ret t (Inl DirNotExist) \<and> GetDir path t = Block u \<and>
     (\<forall>p. GetDir p u = Block u \<and> GetFile p u = Block u)"
proof -
  note inv = fs_invD[OF assms(1)]
  have "\<exists>e. 0 \<le> e \<and> e < length (dirs s) \<and> (\<forall>b.
    GetDir_loop (split_on slash path) 0 (s\<lparr>fsmu := b\<rparr>) = Ret (lock_dir e (s\<lparr>fsmu := b\<rparr>)) (Inl DirNotExist) \<and>
    GetDir_loop (split_on slash path) 0 (lock_dir e (s\<lparr>fsmu := b\<rparr>)) = Block (lock_dir e (s\<lparr>fsmu := b\<rparr>)))"
    using assms(2) inv unlocked_dirs tree_root
    by (intro GetDir_loop_missing) (auto simp: comps_def)
  then obtain e where e: "\<And>b.
    GetDir_loop (split_on slash path) 0 (s\<lparr>fsmu := b\<rparr>) = Ret (lock_dir e (s\<lparr>fsmu := b\<rparr>)) (Inl DirNotExist)" "\<And>b.
    GetDir_loop (split_on slash path) 0 (lock_dir e (s\<lparr>fsmu := b\<rparr>)) = Block (lock_dir e (s\<lparr>fsmu := b\<rparr>))"
    by blast
  have r: "root (lock_dir e x) = root x" "(lock_dir e x)\<lparr>fsmu := b\<rparr> = lock_dir e (x\<lparr>fsmu := b\<rparr>)" for x b
    by (simp_all add: root_def upd_dir_def)
  have fu: "\<not> fsmu s" "root s = 0" using inv unlocked_dirs by simp_all
  have "GetDir path s = Ret (lock_dir e s) (Inl DirNotExist)"
    using fu e(1)[of True] by (simp add: GetDir_def with_fs_lock_def r root_def[of "_\<lparr>fsmu := _\<rparr>"] flip: root_def[of s])
  moreover have "GetDir path (lock_dir e s) = Block (lock_dir e (s\<lparr>fsmu := True\<rparr>))"
    using fu e(2)[of True] by (simp add: GetDir_def with_fs_lock_def r root_def[of "_\<lparr>fsmu := _\<rparr>"] flip: root_def[of s])
  ultimately show ?thesis
    by (auto simp: GetDir_def GetFile_def with_fs_lock_def)
qed

lemma GetDir_missing_leaks_lock_witness:
  "\<exists>t u. GetDir ''/x'' NewFS = Ret t (Inl DirNotExist) \<and> GetDir ''/x'' t = Block u \<and>
     GetFile ''/y'' u = Block u"
proof -
  have "walk NewFS 0 (comps ''/x'') = None"
    by (simp add: comps_def NewFS_def NewDirectory_def)
  from GetDir_missing_leaks_lock[OF NewFS_inv(1) this] show ?thesis by blast
qed

text \<open>A path without a separator makes \<open>AddFile\<close> panic in every state; \<open>DeleteFile\<close> panics
  on it when the root directory holds a file of that name.  Neither changes the state.\<close>

theorem slashless_path_panics:
  assumes "slash \<notin> set path" and "fs_inv s"
  shows "AddFile path h s = Panic s \<and>
    DeleteFile path s = (if ns s ([], path) = None then Ret s (Inl FileNotExist) else Panic s)"
proof
  have li: "last_index slash path = -1" using assms(1) last_index_neg by metis
  then show "AddFile path h s = Panic s" by (simp add: AddFile_def slice_to_def)
  note inv = fs_invD[OF assms(2)]
  have res: "resolve path = ([], path)" using assms(1) by (simp add: resolve_def go_string)
  show "DeleteFile path s = (if ns s ([], path) = None then Ret s (Inl FileNotExist) else Panic s)"
  proof (cases "lookup s ([], path)")
    case None
    then show ?thesis
      using GetFile_lookup[OF inv(1,2), of path] by (simp add: DeleteFile_def res ns_def)
  next
    case (Some f)
    have f: "f < length (files s)" "\<not> fmu (files s ! f)"
      using lookup_file(1)[OF assms(2) Some] inv(2) by (simp_all add: unlocked_def)
    then have "upd_file f (fmu_update (\<lambda>_. False)) (upd_file f (fmu_update (\<lambda>_. True)) s) = s"
      by (cases "files s ! f") (simp add: upd_file_def list_update_same_conv)
    with Some f show ?thesis
      using GetFile_lookup[OF inv(1,2), of path] ParseFileName_no_sep[OF assms(1)]
      by (simp add: DeleteFile_def res ns_def with_file_lock_def slice_to_def)
  qed
qed

lemma slashless_path_panics_witness: "AddFile ''x'' ''h'' NewFS = Panic NewFS"
  using slashless_path_panics[OF _ NewFS_inv(1), of "''x''" "''h''"] by simp

text \<open>The comparison of a file's stored locations with the caller's path is on spelling.  A path
  that is not canonical never matches: adding the same file twice under \<open>//a\<close> leaves one
  location and a replica counter of two, and after deleting it no location is left while the
  checksum index still lists the file.\<close>

theorem noncanonical_path_drifts:
  "\<exists>s1 s2 s3. AddFile ''//a'' ''h'' NewFS = Ret s1 (Inr 0) \<and> AddFile ''//a'' ''h'' s1 = Ret s2 (Inr 0) \<and>
     DeleteFile ''//a'' s2 = Ret s3 (Inr ()) \<and>
     lookup s2 ([], ''a'') = Some 0 \<and> SemaphoreReplica (files s2 ! 0) = 2 \<and>
     lookup s3 ([], ''a'') = None \<and> ChecksumDB s3 ''h'' = Some 0"
  by (simp add: AddFile_def AddFile_link_def AddDir_def GetFileParent_def GetFile_def GetDir_def
      DeleteFile_def unlink_def link_new_def link_replica_def adjust_sizes_def size_walk.simps
      with_fs_lock_def with_file_lock_def slice_to_def ParseFileName_def Paths_def Let_def
      NewFS_def NewDirectory_def NewFile_def root_def upd_dir_def upd_file_def lookup_def)

end
