(* ===== verification/Util.thy ===== *)
theory Util
  imports Prelude
begin

text \<open>
  \<open>pkg/util/util.go\<close> (\<open>RandomString\<close>), \<open>SetLevel\<close> of \<open>log/log.go\<close>, the constants of \<open>pkg/settings\<close> that the other
  components use, and the part of Go's \<open>encoding/base64\<close> that the hash store calls.

  The results of \<open>math/rand\<close> are an argument: \<open>rnd i\<close> is the value of the \<open>i\<close>-th call of
  \<open>rand.Intn(n)\<close>, which is documented to lie below \<open>n\<close>.
\<close>

section \<open>Settings\<close>

definition DataPathPrefix :: string where
  "DataPathPrefix = ''./data/''"

definition URLSDFSScheme :: string where
  "URLSDFSScheme = ''http://''"

text \<open>The paths of the requests between clients, masters and nodes, and the port for the consensus module.\<close>

abbreviation URLDownload :: string where "URLDownload \<equiv> ''/api/download''"
abbreviation URLUpload :: string where "URLUpload \<equiv> ''/api/upload''"
abbreviation URLSDFSDownload :: string where "URLSDFSDownload \<equiv> ''/api/sdfs/download''"
abbreviation URLSDFSDelete :: string where "URLSDFSDelete \<equiv> ''/api/sdfs/delete''"
abbreviation URLSDFSUpload :: string where "URLSDFSUpload \<equiv> ''/api/sdfs/upload''"
abbreviation URLSDFSHeartbeat :: string where "URLSDFSHeartbeat \<equiv> ''/api/sdfs/heartbeat''"
abbreviation URLDebugPrintHashstore :: string where "URLDebugPrintHashstore \<equiv> ''/api/debug/prinths''"
abbreviation URLDebugPrintSDFS :: string where "URLDebugPrintSDFS \<equiv> ''/api/debug/printfs''"
abbreviation URLSDFSReplicaRequest :: string where "URLSDFSReplicaRequest \<equiv> ''/api/sdfs/replica/request''"
abbreviation URLSDFSReplicaCallback :: string where "URLSDFSReplicaCallback \<equiv> ''/api/sdfs/replica/callback''"
abbreviation URLUploadCallback :: string where "URLUploadCallback \<equiv> ''/api/callback/upload''"
abbreviation RaftRPCListenPort :: string where "RaftRPCListenPort \<equiv> '':9000''"

text \<open>What a Go HTTP client gets: an error, a response whose body cannot be read, or a response.\<close>

datatype http_reply = NetError | Broken nat | Reply nat string

definition reply_status :: "http_reply \<Rightarrow> nat option" where
  "reply_status rep = (case rep of NetError \<Rightarrow> None | Broken st \<Rightarrow> Some st | Reply st b \<Rightarrow> Some st)"

section \<open>Random strings\<close>

definition letterBytes :: string where
  "letterBytes = ''abcdefghijklmnopqrstuvwxyzABCDEFGHIJKLMNOPQRSTUVWXYZ''"

definition RandomString :: "(nat \<Rightarrow> nat) \<Rightarrow> nat \<Rightarrow> string" where
  "RandomString rnd n = map (\<lambda>i. letterBytes ! rnd i) [0..<n]"

lemma length_letterBytes [simp]: "length letterBytes = 52"
  by (simp add: letterBytes_def)

lemma length_RandomString [simp]: "length (RandomString rnd n) = n"
  by (simp add: RandomString_def)

lemma set_RandomString:
  "(\<And>i. i < n \<Longrightarrow> rnd i < length letterBytes) \<Longrightarrow> set (RandomString rnd n) \<subseteq> set letterBytes"
  by (auto simp: RandomString_def intro!: nth_mem)

section \<open>Log levels\<close>

text \<open>\<open>log/log.go\<close>: the levels, where the three loggers write (\<open>True\<close> for the standard output and \<open>False\<close> for nowhere), and whether a
  message to the logger of a level is printed.\<close>

definition DEBUG :: int where "DEBUG = 0"
definition INFO :: int where "INFO = 1"
definition ERROR :: int where "ERROR = 2"
definition DISABLED :: int where "DISABLED = 3"

record loggers =
  debugLog :: bool
  infoLog :: bool
  errorLog :: bool

definition log_prints :: "int \<Rightarrow> loggers \<Rightarrow> bool" where
  "log_prints lv l = (if lv = DEBUG then debugLog l else if lv = INFO then infoLog l else errorLog l)"

definition SetLevel :: "int \<Rightarrow> loggers \<Rightarrow> loggers" where
  "SetLevel level l =
     (let l0 = l\<lparr> debugLog := True, errorLog := True, infoLog := True \<rparr>;
          l1 = (if DEBUG < level then l0\<lparr> debugLog := False \<rparr> else l0);
          l2 = (if INFO < level then l1\<lparr> infoLog := False \<rparr> else l1) in
      if ERROR < level then l2\<lparr> errorLog := False \<rparr> else l2)"

lemmas log_levels = DEBUG_def INFO_def ERROR_def DISABLED_def

text \<open>The last call decides, and it is a threshold.\<close>

lemma SetLevel_last: "SetLevel a (SetLevel b l) = SetLevel a l"
  by (cases l) (simp add: SetLevel_def Let_def)

lemma SetLevel_threshold:
  "lv \<in> {DEBUG, INFO, ERROR} \<Longrightarrow> log_prints lv (SetLevel level l) \<longleftrightarrow> level \<le> lv"
  by (auto simp: SetLevel_def log_prints_def Let_def log_levels)

section \<open>Base64\<close>

text \<open>\<open>base64.StdEncoding.EncodeToString\<close>: the standard alphabet with padding.\<close>

definition b64_alphabet :: string where
  "b64_alphabet =
     ''ABCDEFGHIJKLMNOPQRSTUVWXYZabcdefghijklmnopqrstuvwxyz0123456789+/''"

definition b64_char :: "nat \<Rightarrow> char" where
  "b64_char i = b64_alphabet ! i"

definition pad :: char where
  "pad = CHR ''=''"

fun EncodeToString :: "byte list \<Rightarrow> string" where
  "EncodeToString [] = []"
| "EncodeToString [a] =
     [b64_char (unat a div 4), b64_char (unat a mod 4 * 16), pad, pad]"
| "EncodeToString [a, b] =
     [b64_char (unat a div 4), b64_char (unat a mod 4 * 16 + unat b div 16),
      b64_char (unat b mod 16 * 4), pad]"
| "EncodeToString (a # b # c # rest) =
     b64_char (unat a div 4) # b64_char (unat a mod 4 * 16 + unat b div 16) #
     b64_char (unat b mod 16 * 4 + unat c div 64) # b64_char (unat c mod 64) #
     EncodeToString rest"

lemma length_b64_alphabet [simp]: "length b64_alphabet = 64"
  by (simp add: b64_alphabet_def)

lemma distinct_b64_alphabet: "distinct b64_alphabet"
  by (simp add: b64_alphabet_def)

lemma b64_char_inj [simp]: "i < 64 \<Longrightarrow> j < 64 \<Longrightarrow> b64_char i = b64_char j \<longleftrightarrow> i = j"
  by (simp add: b64_char_def nth_eq_iff_index_eq distinct_b64_alphabet)

lemma b64_char_in: "i < 64 \<Longrightarrow> b64_char i \<in> set b64_alphabet"
  by (simp add: b64_char_def)

lemma pad_not_in: "pad \<notin> set b64_alphabet"
  by (simp add: b64_alphabet_def pad_def)

lemma b64_char_not_pad [simp]: "i < 64 \<Longrightarrow> b64_char i \<noteq> pad" "i < 64 \<Longrightarrow> pad \<noteq> b64_char i"
  using b64_char_in pad_not_in by metis+

lemma byte_lt: "unat (a :: byte) < 256"
  using unsigned_less[of a] by simp

lemma b64_index_bounds [simp]:
  "unat (a :: byte) div 4 < 64"
  "unat a mod 4 * 16 < 64"
  "unat a mod 4 * 16 + unat (b :: byte) div 16 < 64"
  "unat b mod 16 * 4 < 64"
  "unat b mod 16 * 4 + unat (c :: byte) div 64 < 64"
  "unat c mod 64 < 64"
  using byte_lt[of a] byte_lt[of b] byte_lt[of c] by (simp_all; linarith?)+

lemma byte_eqI: "unat a div k = unat b div k \<Longrightarrow> unat a mod k = unat b mod k \<Longrightarrow> a = (b :: byte)"
  by (metis div_mult_mod_eq unsigned_word_eqI)

lemma length_EncodeToString: "length (EncodeToString bs) = (length bs + 2) div 3 * 4"
  by (induction bs rule: EncodeToString.induct) (auto, presburger)

lemma set_EncodeToString: "set (EncodeToString bs) \<subseteq> insert pad (set b64_alphabet)"
  by (induction bs rule: EncodeToString.induct) (auto intro: b64_char_in)

lemma mix_eq:
  fixes a a' b b' k :: nat
  assumes e: "a * k + b = a' * k + b'" and b: "b < k" "b' < k"
  shows "a = a'" and "b = b'"
proof -
  have "(a * k + b) div k = a" "(a' * k + b') div k = a'" using b by auto
  with e show "a = a'" by metis
  with e show "b = b'" by simp
qed

lemma b64_group_inj:
  fixes a b c a' b' c' :: byte
  assumes "unat a div 4 = unat a' div 4"
    and "unat a mod 4 * 16 + unat b div 16 = unat a' mod 4 * 16 + unat b' div 16"
    and "unat b mod 16 * 4 + unat c div 64 = unat b' mod 16 * 4 + unat c' div 64"
    and "unat c mod 64 = unat c' mod 64"
  shows "a = a'" and "b = b'" and "c = c'"
proof -
  have lt: "unat b div 16 < 16" "unat b' div 16 < 16" "unat c div 64 < 4" "unat c' div 64 < 4"
    using byte_lt[of b] byte_lt[of b'] byte_lt[of c] byte_lt[of c'] by auto
  note ab = mix_eq[OF assms(2) lt(1,2)] and bc = mix_eq[OF assms(3) lt(3,4)]
  show "a = a'" by (rule byte_eqI[OF assms(1) ab(1)])
  show "b = b'" by (rule byte_eqI[OF ab(2) bc(1)])
  show "c = c'" by (rule byte_eqI[OF bc(2) assms(4)])
qed

lemma EncodeToString_inj: "EncodeToString bs = EncodeToString cs \<Longrightarrow> bs = cs"
proof (induction bs arbitrary: cs rule: EncodeToString.induct)
  case 1
  then show ?case by (cases cs rule: EncodeToString.cases) auto
next
  case (2 a)
  then show ?case
    by (cases cs rule: EncodeToString.cases) (auto intro: byte_eqI[of a 4])
next
  case (3 a b)
  show ?case
  proof (cases cs rule: EncodeToString.cases)
    case (3 a' b')
    with "3.prems" b64_group_inj[of a a' b b' 0 0] show ?thesis by simp
  qed (use "3.prems" in auto)
next
  case (4 a b c rest)
  show ?case
  proof (cases cs rule: EncodeToString.cases)
    case (4 a' b' c' rest')
    with "4.prems" "4.IH" b64_group_inj[of a a' b b' c c'] show ?thesis by simp
  qed (use "4.prems" in auto)
qed

end
