(* ===== verification/Server.thy ===== *)
theory Server
  imports Raft_Props PQueue FS_Props Util
begin

text \<open>
  \<open>raft/server.go\<close> and \<open>raft/upload.go\<close>: the master server around the consensus module, its view
  of the storage nodes, and the upload manager.

  \<open>master\<close> puts together what the Go code keeps in \<open>Raft\<close> (the server), \<open>Raft.UploadMngr\<close> and the
  global namespace \<open>sdfs.Fs\<close>.  The priority queue holds pointers to node objects; its priorities
  are read from the objects at each comparison (\<open>node_pri\<close>), as \<open>Node.Priority\<close> does.

  Results of \<open>rand\<close>, \<open>grpc.Dial\<close>, the HTTP client and the operating system are arguments.
\<close>

section \<open>Data\<close>

record upload =
  upID :: string
  upHost :: string
  upPath :: string
  upHash :: string
  upSize :: int

record upload_manager =
  uploadNodes :: "nat pqueue"
  uploads :: "string \<rightharpoonup> upload"
  pending :: "string set"
  umu :: bool

record master =
  svr :: server
  upm :: upload_manager
  gfs :: fs

definition StatusOK :: nat where
  "StatusOK = 200"

definition newUploadManager :: upload_manager where
  "newUploadManager = \<lparr> uploadNodes = NewPQueue, uploads = Map.empty, pending = {}, umu = False \<rparr>"

text \<open>\<open>Node.Priority\<close>: the free disk space.\<close>

definition node_pri :: "server \<Rightarrow> nat \<Rightarrow> int" where
  "node_pri s r = sint (Disk (nodeObjs s ! r))"

section \<open>Lookups\<close>

definition PeerAddr :: "i32 \<Rightarrow> server \<Rightarrow> (server, string) outcome" where
  "PeerAddr i s = (if cmu (cm s) then Block s
     else Ret s (case peerAddr s i of Some a \<Rightarrow> a | None \<Rightarrow> ''''))"

definition Server_NodeAddr :: "i32 \<Rightarrow> server \<Rightarrow> (server, string) outcome" where
  "Server_NodeAddr i s = (if cmu (cm s) then Block s
     else Ret s (case nodes s i of Some r \<Rightarrow> nAddr (nodeObjs s ! r) | None \<Rightarrow> ''''))"

definition NodeID :: "string \<Rightarrow> server \<Rightarrow> (server, i32) outcome" where
  "NodeID addr s = (if cmu (cm s) then Block s
     else Ret s (case nodeAddr s addr of Some r \<Rightarrow> nID (nodeObjs s ! r) | None \<Rightarrow> -1))"

section \<open>Nodes\<close>

text \<open>The loop that draws an id leaves after the first collision with an unchecked second draw.\<close>

definition draw_id :: "i32 \<Rightarrow> i32 \<Rightarrow> server \<Rightarrow> i32" where
  "draw_id r1 r2 s = (if nodes s r1 = None then r1 else r2)"

text \<open>The part of \<open>UpdateNode\<close> under the mutex: \<open>None\<close> when the address was known.\<close>

definition UpdateNode_local ::
  "string \<Rightarrow> u64 \<Rightarrow> u64 \<Rightarrow> i64 \<Rightarrow> i64 \<Rightarrow> i32 \<Rightarrow> i32 \<Rightarrow> server \<Rightarrow> (server, (nat \<times> i32) option) outcome" where
  "UpdateNode_local addr cpu memory sz disk r1 r2 s =
     (if cmu (cm s) then Block s
      else case nodeAddr s addr of
        Some r \<Rightarrow>
          Ret (s\<lparr> nodeObjs := (nodeObjs s)[r := (nodeObjs s ! r)
                 \<lparr> CpuUsage := cpu, MemUsage := memory, nSize := sz, Disk := disk \<rparr>] \<rparr>) None
      | None \<Rightarrow>
          (let rnd = draw_id r1 r2 s;
               n = \<lparr> nAddr = addr, nID = rnd, CpuUsage = cpu, MemUsage = memory, nSize = sz,
                     Disk = disk, LastHeartbeat = 0 \<rparr> in
           Ret (add_node_obj n s) (Some (length (nodeObjs s), rnd))))"

definition lift_svr :: "(server, 'a) outcome \<Rightarrow> master \<Rightarrow> (master, 'a) outcome" where
  "lift_svr r m = (case r of
       Ret s a \<Rightarrow> Ret (m\<lparr> svr := s \<rparr>) a | Panic s \<Rightarrow> Panic (m\<lparr> svr := s \<rparr>) | Block s \<Rightarrow> Block (m\<lparr> svr := s \<rparr>))"

text \<open>The result is the address to redirect to, and whether there was an error.\<close>

definition UpdateNode ::
  "string \<Rightarrow> u64 \<Rightarrow> u64 \<Rightarrow> i64 \<Rightarrow> i64 \<Rightarrow> i32 \<Rightarrow> i32 \<Rightarrow> master \<Rightarrow> (master, string \<times> bool) outcome" where
  "UpdateNode addr cpu memory sz disk r1 r2 m =
     obind (lift_svr (UpdateNode_local addr cpu memory sz disk r1 r2 (svr m)) m) (\<lambda>m1 res.
       case res of
         None \<Rightarrow> Ret m1 ('''', False)
       | Some (r, rnd) \<Rightarrow>
           obind (lift_svr (Submit (CAddNode \<lparr> asnID = rnd, NodeAddr = addr \<rparr>) (svr m1)) m1) (\<lambda>m2 (ok, i).
             if \<not> ok then obind (lift_svr (PeerAddr i (svr m2)) m2) (\<lambda>m3 a. Ret m3 (a, True))
             else case Push (node_pri (svr m2)) r (uploadNodes (upm m2)) of
               None \<Rightarrow> Panic m2
             | Some q \<Rightarrow> Ret (m2\<lparr> upm := (upm m2)\<lparr> uploadNodes := q \<rparr> \<rparr>) ('''', False)))"

section \<open>Masters\<close>

record register_response =
  rrSuccess :: bool
  rrConnectId :: i32

text \<open>\<open>RegisterMaster\<close> up to its \<open>Unlock\<close>: the answer, whether it is an error, and the command that is submitted next.  The
  duplicate branch returns with the mutex held.\<close>

definition RegisterMaster_locked ::
  "(string \<Rightarrow> bool) \<Rightarrow> string \<Rightarrow> i32 \<Rightarrow> server \<Rightarrow> (server, register_response \<times> bool \<times> command option) outcome" where
  "RegisterMaster_locked dial masterAddr newId s =
     (if \<not> dial masterAddr then Ret s (\<lparr> rrSuccess = False, rrConnectId = -1 \<rparr>, True, None)
      else if cmu (cm s) then Block s
      else if newId \<in> set (peerIds (cm s)) then
        Ret (upd_cm (cmu_update (\<lambda>_. True)) s) (\<lparr> rrSuccess = False, rrConnectId = newId \<rparr>, True, None)
      else
        let s1 = upd_cm (\<lambda>c. c\<lparr> peerIds := peerIds c @ [newId] \<rparr>)
              (s\<lparr> peers := (peers s)(newId \<mapsto> Some masterAddr),
                  peerAddr := (peerAddr s)(newId \<mapsto> masterAddr) \<rparr>) in
        Ret s1 (\<lparr> rrSuccess = True, rrConnectId = cmId (cm s1) \<rparr>, False,
                Some (CAddServer \<lparr> ServerAddr = masterAddr, ServerId = newId \<rparr>)))"

text \<open>The handler with nothing in between.\<close>

definition RegisterMaster ::
  "(string \<Rightarrow> bool) \<Rightarrow> string \<Rightarrow> i32 \<Rightarrow> server \<Rightarrow> (server, register_response \<times> bool) outcome" where
  "RegisterMaster dial masterAddr newId s =
     obind (RegisterMaster_locked dial masterAddr newId s) (\<lambda>s1 (resp, err, cmd). case cmd of
         None \<Rightarrow> Ret s1 (resp, err)
       | Some c \<Rightarrow> obind (Submit c s1) (\<lambda>s2 _. Ret s2 (resp, err)))"

text \<open>\<open>NewServer\<close>: \<open>ns_env\<close> holds the id drawn, whether the log file opens, whether the listener
  starts, whether the dial succeeds and the answer of the master that was asked to register us.  The
  state is the global \<open>Raft\<close>.\<close>

record ns_env =
  ns_rand :: i32
  ns_open :: bool
  ns_listen :: bool
  ns_dial :: bool
  ns_reply :: "i32 option"

datatype ns_error = NoAddress | OpenFailed | ListenFailed | DialFailed

definition blank_server :: "i32 \<Rightarrow> string \<Rightarrow> server" where
  "blank_server rnd addr =
     \<lparr> cm = NewConsensusModule rnd, sAddr = addr, peers = Map.empty, peerAddr = Map.empty,
       nodes = Map.empty, nodeAddr = Map.empty, nodeObjs = [], logFile = [] \<rparr>"

definition join_peer :: "i32 \<Rightarrow> string \<Rightarrow> server \<Rightarrow> server" where
  "join_peer i addr s =
     upd_cm (\<lambda>c. c\<lparr> peerIds := peerIds c @ [i] \<rparr>) (s\<lparr> peers := (peers s)(i \<mapsto> Some addr) \<rparr>)"

definition NewServer ::
  "string \<Rightarrow> string \<Rightarrow> string \<Rightarrow> ns_env \<Rightarrow> server option \<Rightarrow> (server option, ns_error + server) outcome" where
  "NewServer listen connect addr env raft = (case raft of
       Some s \<Rightarrow> Ret raft (Inr s)
     | None \<Rightarrow>
         if addr = '''' then Ret None (Inl NoAddress)
         else if \<not> ns_open env then Ret None (Inl OpenFailed)
         else
           let s = blank_server (ns_rand env) addr in
           if \<not> ns_listen env then Ret (Some s) (Inl ListenFailed)
           else if connect = '''' then
             obind (case cm_ready 0 s of Ret t u \<Rightarrow> Ret (Some t) t | Panic t \<Rightarrow> Panic (Some t) | Block t \<Rightarrow> Block (Some t))
               (\<lambda>g t. Ret g (Inr t))
           else if \<not> ns_dial env then Ret (Some s) (Inl DialFailed)
           else if CHR '':'' \<notin> set listen then Panic (Some s)
           else case ns_reply env of
             None \<Rightarrow> Panic (Some s)
           | Some i \<Rightarrow>
               let s1 = join_peer i (connect @ RaftRPCListenPort) s in
               obind (case cm_ready 0 s1 of Ret t u \<Rightarrow> Ret (Some t) t | Panic t \<Rightarrow> Panic (Some t) | Block t \<Rightarrow> Block (Some t))
                 (\<lambda>g t. Ret g (Inr t)))"

text \<open>\<open>LoadLog\<close> on the entries a log file holds; \<open>bad\<close> is a decoding error after them.\<close>

fun LoadLog :: "(string \<Rightarrow> bool) \<Rightarrow> entry list \<Rightarrow> bool \<Rightarrow> server \<Rightarrow> (server, bool) outcome" where
  "LoadLog dial [] bad s = Ret s bad"
| "LoadLog dial (e # es) bad s =
     obind (Execute dial e s) (\<lambda>s1 og.
       LoadLog dial es bad (upd_cm (\<lambda>c. c\<lparr> cmLog := cmLog c @ [\<lparr> Command = og, Term = eTerm e \<rparr>] \<rparr>) s1))"

section \<open>Uploads\<close>

text \<open>The id loop draws \<open>draws 0\<close>, \<open>draws 1\<close>, \<dots> until one is free; \<open>None\<close> is a loop without end.\<close>

partial_function (option) free_id :: "(nat \<Rightarrow> string) \<Rightarrow> (string \<rightharpoonup> upload) \<Rightarrow> nat \<Rightarrow> string option" where
  "free_id draws m i = (if m (draws i) = None then Some (draws i) else free_id draws m (Suc i))"

datatype up_error = AlreadyPending | NoNodes | HttpFailed | NodeRefused | UploadNotFound

definition with_um_lock :: "(master \<Rightarrow> (master, 'a) outcome) \<Rightarrow> master \<Rightarrow> (master, 'a) outcome" where
  "with_um_lock bdy m =
     (if umu (upm m) then Block m
      else case bdy (m\<lparr> upm := (upm m)\<lparr> umu := True \<rparr> \<rparr>) of
        Ret t a \<Rightarrow> Ret (t\<lparr> upm := (upm t)\<lparr> umu := False \<rparr> \<rparr>) a
      | Panic t \<Rightarrow> Panic (t\<lparr> upm := (upm t)\<lparr> umu := False \<rparr> \<rparr>)
      | Block t \<Rightarrow> Block t)"

text \<open>\<open>AddUpload\<close> keeps its mutex while it calls the node; the state is the master with the world behind the HTTP
  client \<open>get\<close>.\<close>

definition upload_url :: "string \<Rightarrow> string \<Rightarrow> string" where
  "upload_url host i = URLSDFSScheme @ host @ URLSDFSUpload @ ''?id='' @ i"

definition AddUpload_locked ::
  "(nat \<Rightarrow> string) \<Rightarrow> ('w \<Rightarrow> string \<Rightarrow> 'w \<times> http_reply) \<Rightarrow> string \<Rightarrow> master \<Rightarrow> 'w
    \<Rightarrow> (master \<times> 'w, up_error + string \<times> string) outcome" where
  "AddUpload_locked draws get path m w =
     (let u = upm m in
      if path \<in> pending u then Ret (m, w) (Inl AlreadyPending)
      else
        let m1 = m\<lparr> upm := u\<lparr> pending := insert path (pending u) \<rparr> \<rparr> in
        case First (uploadNodes u) of
          None \<Rightarrow> Panic (m1, w)
        | Some None \<Rightarrow> Ret (m1, w) (Inl NoNodes)
        | Some (Some r) \<Rightarrow>
            (let n = nodeObjs (svr m) ! r in
             case free_id draws (uploads u) 0 of
               None \<Rightarrow> Block (m1, w)
             | Some rnd \<Rightarrow>
                 let upl = \<lparr> upID = rnd, upHost = nAddr n, upPath = path, upHash = '''', upSize = 0 \<rparr>;
                     m2 = m1\<lparr> upm := (upm m1)\<lparr> uploads := (uploads u)(rnd \<mapsto> upl) \<rparr> \<rparr> in
                 (case get w (upload_url (nAddr n) rnd) of
                    (w1, rep) \<Rightarrow>
                      (case reply_status rep of
                         None \<Rightarrow> Ret (m2, w1) (Inl HttpFailed)
                       | Some c \<Rightarrow>
                           if c \<noteq> StatusOK then Ret (m2, w1) (Inl NodeRefused)
                           else Ret (m2, w1) (Inr (rnd, nAddr n))))))"

definition set_umu :: "bool \<Rightarrow> master \<Rightarrow> master" where
  "set_umu b m = m\<lparr> upm := (upm m)\<lparr> umu := b \<rparr> \<rparr>"

definition AddUpload ::
  "(nat \<Rightarrow> string) \<Rightarrow> ('w \<Rightarrow> string \<Rightarrow> 'w \<times> http_reply) \<Rightarrow> string \<Rightarrow> master \<times> 'w
    \<Rightarrow> (master \<times> 'w, up_error + string \<times> string) outcome" where
  "AddUpload draws get path mw = (case mw of (m, w) \<Rightarrow>
     if umu (upm m) then Block mw
     else case AddUpload_locked draws get path (set_umu True m) w of
       Ret (m1, w1) r \<Rightarrow> Ret (set_umu False m1, w1) r
     | Panic (m1, w1) \<Rightarrow> Panic (set_umu False m1, w1)
     | Block t \<Rightarrow> Block t)"

definition lift_fs :: "(fs, 'a) outcome \<Rightarrow> master \<Rightarrow> (master, 'a) outcome" where
  "lift_fs r m = (case r of
       Ret s a \<Rightarrow> Ret (m\<lparr> gfs := s \<rparr>) a | Panic s \<Rightarrow> Panic (m\<lparr> gfs := s \<rparr>) | Block s \<Rightarrow> Block (m\<lparr> gfs := s \<rparr>))"

text \<open>The error of \<open>AddFile\<close> is ignored; a nil file of \<open>GetFile\<close> panics at \<open>f.Host\<close>.  The node id is
  evaluated before the append.\<close>

definition FinishUpload :: "string \<Rightarrow> string \<Rightarrow> master \<Rightarrow> (master, up_error + unit) outcome" where
  "FinishUpload i hash = with_um_lock (\<lambda>m. case uploads (upm m) i of
       None \<Rightarrow> Ret m (Inl UploadNotFound)
     | Some upl \<Rightarrow>
         obind (lift_fs (AddFile (upPath upl) hash (gfs m)) m) (\<lambda>m1 _.
         obind (lift_fs (GetFile (upPath upl) (gfs m1)) m1) (\<lambda>m2 r. case r of
             Inl e \<Rightarrow> Panic m2
           | Inr f \<Rightarrow>
               obind (lift_svr (NodeID (upHost upl) (svr m2)) m2) (\<lambda>m3 nid.
                 Ret (m3\<lparr> gfs := upd_file f (Host_update (\<lambda>h. h @ [nid])) (gfs m3),
                          upm := (upm m3)\<lparr> uploads := (uploads (upm m3))(i := None),
                                          pending := pending (upm m3) - {upPath upl} \<rparr> \<rparr>) (Inr ())))))"

end
