(* ===== verification/Server_Inv.thy ===== *)
theory Server_Inv
  imports Server
begin

text \<open>
  The states a master can reach.  \<open>server_step\<close> has one rule per goroutine step and handler of
  \<open>raft/raft.go\<close> and \<open>raft/server.go\<close>, with arbitrary requests, answers, times and random numbers,
  and takes the state a call leaves behind whether it returns, panics or hangs.  \<open>srv_inv\<close> holds in
  every reachable state: the log starts with its sentinel, every peer has an entry in the table of clients (which may
  be a client on a nil connection), and each of the two node maps points at objects with its own key.
\<close>

section \<open>The invariant\<close>

definition log_ok :: "log_entry list \<Rightarrow> bool" where
  "log_ok lg \<longleftrightarrow> lg \<noteq> [] \<and> hd lg = \<lparr> Command = CNil, Term = 0 \<rparr>"

definition nodes_ok :: "server \<Rightarrow> bool" where
  "nodes_ok s \<longleftrightarrow>
     (\<forall>i r. nodes s i = Some r \<longrightarrow> r < length (nodeObjs s) \<and> nID (nodeObjs s ! r) = i) \<and>
     (\<forall>a r. nodeAddr s a = Some r \<longrightarrow> r < length (nodeObjs s) \<and> nAddr (nodeObjs s ! r) = a)"

definition srv_inv :: "server \<Rightarrow> bool" where
  "srv_inv s \<longleftrightarrow> log_ok (cmLog (cm s)) \<and> set (peerIds (cm s)) \<subseteq> dom (peers s) \<and> nodes_ok s"

lemma nodes_ok_frame [simp]:
  "nodes_ok (upd_cm f s) = nodes_ok s" "nodes_ok (s\<lparr> peers := p \<rparr>) = nodes_ok s"
  "nodes_ok (s\<lparr> peerAddr := pa \<rparr>) = nodes_ok s" "nodes_ok (s\<lparr> logFile := l \<rparr>) = nodes_ok s"
  by (simp_all add: nodes_ok_def)

lemma srv_inv_logFile [simp]: "srv_inv (s\<lparr> logFile := l \<rparr>) = srv_inv s"
  by (simp add: srv_inv_def)

lemma srv_inv_upd:
  "srv_inv s \<Longrightarrow> cmLog (f (cm s)) = cmLog (cm s) \<Longrightarrow> peerIds (f (cm s)) = peerIds (cm s) \<Longrightarrow>
   srv_inv (upd_cm f s)"
  by (simp add: srv_inv_def)

lemma srv_inv_snoc:
  "srv_inv s \<Longrightarrow> srv_inv (upd_cm (\<lambda>c. c\<lparr> cmLog := cmLog c @ es \<rparr>) s)"
  by (auto simp: srv_inv_def log_ok_def)

lemma srv_inv_peer:
  "srv_inv s \<Longrightarrow>
   srv_inv (upd_cm (\<lambda>c. c\<lparr> peerIds := peerIds c @ [i] \<rparr>) (s\<lparr> peers := (peers s)(i \<mapsto> x) \<rparr>))"
  by (auto simp: srv_inv_def)

lemma srv_inv_peer_after:
  "srv_inv s \<Longrightarrow>
   srv_inv ((upd_cm (\<lambda>c. c\<lparr> peerIds := peerIds c @ [i] \<rparr>) s)\<lparr> peers := (peers s)(i \<mapsto> x) \<rparr>)"
  by (auto simp: srv_inv_def)

lemma log_ok_take: "log_ok lg \<Longrightarrow> 0 < n \<Longrightarrow> log_ok (take n lg @ r)"
  by (cases lg; cases n) (auto simp: log_ok_def)

lemma srv_inv_add_node:
  assumes "srv_inv s"
  shows "srv_inv (add_node_obj n s)"
proof -
  have "nodes_ok s" using assms by (simp add: srv_inv_def)
  then have "nodes_ok (add_node_obj n s)"
    by (auto simp: nodes_ok_def add_node_obj_def nth_append less_SucI)
  then show ?thesis using assms by (simp add: srv_inv_def add_node_obj_def)
qed

text \<open>A call keeps the invariant in the state it leaves, however it ends.\<close>

definition keeps :: "(server \<Rightarrow> (server, 'a) outcome) \<Rightarrow> bool" where
  "keeps f \<longleftrightarrow> (\<forall>s. srv_inv s \<longrightarrow> srv_inv (final_state (f s)))"

lemma keepsI: "(\<And>s. srv_inv s \<Longrightarrow> srv_inv (final_state (f s))) \<Longrightarrow> keeps f"
  by (simp add: keeps_def)

lemma keepsD: "keeps f \<Longrightarrow> srv_inv s \<Longrightarrow> srv_inv (final_state (f s))"
  by (simp add: keeps_def)

lemma final_obind_inv:
  assumes "srv_inv (final_state m)" "\<And>s a. srv_inv s \<Longrightarrow> srv_inv (final_state (f s a))"
  shows "srv_inv (final_state (obind m f))"
  using assms by (cases m) auto

lemma keeps_lock: "keeps bdy \<Longrightarrow> keeps (with_cm_lock bdy)"
proof (rule keepsI)
  fix s assume k: "keeps bdy" and s: "srv_inv s"
  let ?s = "upd_cm (cmu_update (\<lambda>_. True)) s"
  have "srv_inv ?s" using s by (rule srv_inv_upd) simp_all
  from keepsD[OF k this] have b: "srv_inv (final_state (bdy ?s))" .
  show "srv_inv (final_state (with_cm_lock bdy s))"
    using s b by (cases "bdy ?s") (auto simp: with_cm_lock_def intro: srv_inv_upd)
qed

section \<open>Preservation\<close>

lemma keeps_Submit: "keeps (Submit cmd)"
  unfolding Submit_def
  by (rule keeps_lock, rule keepsI)
    (auto simp: Let_def intro: srv_inv_snoc split: option.split)

lemma srv_inv_follower: "srv_inv s \<Longrightarrow> srv_inv (upd_cm (becomeFollower now t l) s)"
  by (rule srv_inv_upd) (simp_all add: becomeFollower_def)

lemma keeps_startLeader: "keeps startLeader"
  by (rule keepsI) (auto simp: startLeader_def Let_def intro!: srv_inv_upd)

lemma keeps_startElection: "keeps (startElection now)"
proof (rule keepsI)
  fix s assume s: "srv_inv s"
  let ?s1 = "upd_cm (\<lambda>c. c\<lparr> cmState := CANDIDATE, currentTerm := currentTerm c + 1,
                 electionResetEvent := now, votedFor := cmId c,
                 elections := elections c @ [(currentTerm c + 1, 1)] \<rparr>) s"
  have "srv_inv ?s1" using s by (rule srv_inv_upd) simp_all
  with keepsD[OF keeps_startLeader this] show "srv_inv (final_state (startElection now s))"
    by (auto simp: startElection_def Let_def intro!: final_obind_inv)
qed

lemma keeps_vote_reply: "keeps (vote_reply now p el reply)"
proof (rule keepsI)
  fix s assume s: "srv_inv s"
  have "srv_inv (upd_cm (\<lambda>c. c\<lparr> elections := e \<rparr>) s)" for e using s by (rule srv_inv_upd) simp_all
  with s show "srv_inv (final_state (vote_reply now p el reply s))"
    by (auto simp: vote_reply_def Let_def intro!: srv_inv_follower keepsD[OF keeps_startLeader] srv_inv_upd)
qed

lemma keeps_timer_tick: "keeps (timer_tick now i)"
proof (rule keepsI)
  fix s assume s: "srv_inv s"
  then have "srv_inv (upd_cm (\<lambda>c. c\<lparr> timers := (timers c)[i := TDone] \<rparr>) s)" by (rule srv_inv_upd) simp_all
  with s keepsD[OF keeps_startElection this] show "srv_inv (final_state (timer_tick now i s))"
    by (auto simp: timer_tick_def Let_def split: timer.split)
qed

lemma keeps_AddServerExecutor: "keeps (AddServerExecutor dial cmd)"
proof (rule keepsI)
  fix s assume "srv_inv s"
  then show "srv_inv (final_state (AddServerExecutor dial cmd s))"
    by (cases cmd) (auto simp: Let_def intro!: srv_inv_peer_after)
qed

lemma keeps_AddNodeExecutor: "keeps (AddNodeExecutor cmd)"
proof (cases cmd)
  case (CAddNode a)
  then show ?thesis
    using keeps_lock[of "\<lambda>s. Ret (add_node_obj \<lparr> nAddr = NodeAddr a, nID = asnID a, CpuUsage = 0,
        MemUsage = 0, nSize = 0, Disk = 0, LastHeartbeat = 0 \<rparr> s) ()"]
    by (auto simp: keeps_def srv_inv_add_node)
qed (simp_all add: keeps_def)

lemma keeps_Execute: "keeps (Execute dial e)"
proof (rule keepsI)
  fix s assume "srv_inv s"
  with keepsD[OF keeps_AddServerExecutor this] keepsD[OF keeps_AddNodeExecutor this]
  show "srv_inv (final_state (Execute dial e s))"
    by (auto simp: Execute_def executor_of intro!: final_obind_inv split: option.split)
qed

lemma keeps_apply_entries: "keeps (apply_entries dial es)"
proof (induction es)
  case (Cons e es)
  show ?case
  proof (rule keepsI)
    fix s assume "srv_inv s"
    then have "srv_inv (s\<lparr> logFile := logFile s @ [e] \<rparr>)" by simp
    from keepsD[OF keeps_Execute this] show "srv_inv (final_state (apply_entries dial (e # es) s))"
      by (auto intro!: final_obind_inv keepsD[OF Cons])
  qed
qed (simp add: keeps_def)

lemma apply_entries_log: "apply_entries dial es s = Ret t r \<Longrightarrow> cmLog (cm t) = cmLog (cm s)"
proof (induction es arbitrary: s r)
  case (Cons e es)
  then obtain s1 og r' where s1: "Execute dial e (s\<lparr> logFile := logFile s @ [e] \<rparr>) = Ret s1 og"
    "apply_entries dial es s1 = Ret t r'"
    by (auto simp: obind_Ret_iff)
  have "cmLog (cm s1) = cmLog (cm s)"
    using s1(1)
    by (cases "the (Deserialize e)")
      (auto simp: Execute_def executor_of obind_Ret_iff with_cm_lock_def add_node_obj_def Let_def
        split: option.splits if_splits)
  with Cons.IH[OF s1(2)] show ?case by simp
qed simp

lemma append_new_keeps:
  assumes s: "srv_inv s" and ok: "prev_ok req (cmLog (cm s))" "length (cmLog (cm s)) < 2 ^ 64"
  shows "srv_inv (final_state (append_new dial req s))"
proof -
  let ?lg = "cmLog (cm s)" and ?p = "Suc (unat (aePrevLogIndex req))"
  have ne: "?lg \<noteq> []" and lo: "log_ok ?lg" using s by (auto simp: srv_inv_def log_ok_def)
  note p = prev_index[OF ok(1) ne ok(2)]
  define m where "m = agree (drop ?p ?lg) (aeEntries req)"
  have me: "match_entries ?lg (aeEntries req) (unat (aePrevLogIndex req + 1)) 0 = (?p + m, m)"
    using match_entries_agree[OF p(2), of 0 "aeEntries req"] p(1) by (simp add: m_def)
  have k: "srv_inv (final_state (apply_entries dial (drop m (aeEntries req)) s))"
    by (rule keepsD[OF keeps_apply_entries s])
  have "srv_inv (upd_cm (\<lambda>c. c\<lparr> cmLog := take (?p + m) ?lg @ r \<rparr>) t)"
    if t: "apply_entries dial (drop m (aeEntries req)) s = Ret t r" for t r
    using k t log_ok_take[OF lo, of "?p + m" r] by (simp add: srv_inv_def)
  then show ?thesis
    using s k by (cases "apply_entries dial (drop m (aeEntries req)) s") (auto simp: append_new_def me)
qed

lemma keeps_follow_commit: "keeps (follow_commit req)"
  by (rule keepsI) (auto simp: follow_commit_def intro!: srv_inv_upd)

lemma keeps_AppendEntries:
  assumes s: "srv_inv s" and len: "length (cmLog (cm s)) < 2 ^ 64"
  shows "srv_inv (final_state (AppendEntries dial now req s))"
proof (cases "cmu (cm s)")
  case True
  with s show ?thesis by (simp add: AppendEntries_def with_cm_lock_def)
next
  case False
  let ?s1 = "upd_cm (AE_terms now req) (upd_cm (cmu_update (\<lambda>_. True)) s)"
  have s1: "srv_inv ?s1" using s by (simp add: srv_inv_def)
  have unlock: "srv_inv t \<Longrightarrow> srv_inv (upd_cm (cmu_update (\<lambda>_. False)) t)" for t
    by (rule srv_inv_upd) simp_all
  show ?thesis
  proof (cases "prev_ok req (cmLog (cm s))")
    case ok: True
    then have a: "srv_inv (final_state (append_new dial req ?s1))"
      using s1 len by (intro append_new_keeps) simp_all
    show ?thesis
    proof (cases "append_new dial req ?s1")
      case (Ret s2 u)
      with a have "srv_inv (final_state (follow_commit req s2))"
        by (intro keepsD[OF keeps_follow_commit]) simp
      then show ?thesis
        using False ok Ret by (cases "follow_commit req s2")
          (auto simp: AppendEntries_def with_cm_lock_def Let_def intro: unlock)
    qed (use a False ok unlock in \<open>auto simp: AppendEntries_def with_cm_lock_def Let_def\<close>)
  next
    case False
    then show ?thesis
      using s1 s unlock[OF s1] by (auto simp: AppendEntries_def with_cm_lock_def Let_def)
  qed
qed

lemma keeps_RequestVote_locked: "keeps (RequestVote_locked now req)"
  unfolding RequestVote_locked_def
  by (rule keeps_lock, rule keepsI) (auto simp: Let_def intro!: srv_inv_upd)

lemma keeps_hb_request: "keeps (hb_request p t)"
proof (rule keepsI)
  fix s assume s: "srv_inv s"
  have i: "srv_inv (upd_cm (\<lambda>c. c\<lparr> nextIndex := a c, matchIndex := b c \<rparr>) s)" for a b
    using s by (rule srv_inv_upd) simp_all
  have j: "srv_inv u \<Longrightarrow> srv_inv (upd_cm (cmu_update (\<lambda>_. True)) u)" for u
    by (rule srv_inv_upd) simp_all
  show "srv_inv (final_state (hb_request p t s))"
    using s i j[OF s] j[OF i]
    by (cases "nextIndex (cm s) p") (auto simp: hb_request_def Let_def split: option.split)
qed

lemma keeps_hb_response: "keeps (hb_response now p t ni n resp)"
  unfolding hb_response_def
  by (rule keeps_lock, rule keepsI)
    (auto simp: Let_def commit_scan_def intro!: srv_inv_upd srv_inv_follower)

lemma keeps_RegisterMaster_locked: "keeps (RegisterMaster_locked dial a i)"
proof (rule keepsI)
  fix s assume s: "srv_inv s"
  let ?s1 = "upd_cm (\<lambda>c. c\<lparr> peerIds := peerIds c @ [i] \<rparr>)
              (s\<lparr> peers := (peers s)(i \<mapsto> Some a), peerAddr := (peerAddr s)(i \<mapsto> a) \<rparr>)"
  have "srv_inv ?s1" using s by (auto simp: srv_inv_def)
  with s show "srv_inv (final_state (RegisterMaster_locked dial a i s))"
    by (auto simp: RegisterMaster_locked_def Let_def intro!: srv_inv_upd)
qed

lemma keeps_RegisterMaster: "keeps (RegisterMaster dial a i)"
proof (rule keepsI)
  fix s assume "srv_inv s"
  from keepsD[OF keeps_RegisterMaster_locked this] show "srv_inv (final_state (RegisterMaster dial a i s))"
    by (auto simp: RegisterMaster_def intro!: final_obind_inv keepsD[OF keeps_Submit] split: option.split prod.split)
qed

lemma keeps_UpdateNode_local: "keeps (UpdateNode_local addr cpu memory sz disk r1 r2)"
proof (rule keepsI)
  fix s assume s: "srv_inv s"
  have "srv_inv (s\<lparr> nodeObjs := (nodeObjs s)[r := (nodeObjs s ! r)
      \<lparr> CpuUsage := cpu, MemUsage := memory, nSize := sz, Disk := disk \<rparr>] \<rparr>)" for r
    using s by (auto simp: srv_inv_def nodes_ok_def nth_upd_total)
  with s srv_inv_add_node[OF s] show "srv_inv (final_state (UpdateNode_local addr cpu memory sz disk r1 r2 s))"
    by (auto simp: UpdateNode_local_def Let_def split: option.split)
qed

section \<open>Reachable states\<close>

inductive server_step :: "server \<Rightarrow> server \<Rightarrow> bool" where
  ready: "server_step s (final_state (cm_ready now s))"
| timer_start: "server_step s (final_state (timer_start d i s))"
| timer_tick: "server_step s (final_state (timer_tick now i s))"
| vote_request: "server_step s (final_state (vote_request p el s))"
| vote_reply: "server_step s (final_state (vote_reply now p el reply s))"
| hb_request: "server_step s (final_state (hb_request p t s))"
| hb_response: "server_step s (final_state (hb_response now p t ni n resp s))"
| hb_loop: "server_step s (final_state (hb_loop_check s))"
| append: "length (cmLog (cm s)) < 2 ^ 63 \<Longrightarrow> server_step s (final_state (AppendEntries dial now req s))"
| vote: "server_step s (final_state (RequestVote_locked now rv s))"
| deferred: "server_step s (run_deferred now d s)"
| submit: "server_step s (final_state (Submit cmd s))"
| register: "server_step s (final_state (RegisterMaster dial a i s))"
| register_locked: "server_step s (final_state (RegisterMaster_locked dial a i s))"
| join: "server_step s (join_peer i a s)"
| heartbeat: "server_step s (final_state (UpdateNode_local addr cpu memory sz disk r1 r2 s))"

inductive reachable :: "server \<Rightarrow> bool" where
  start: "reachable (blank_server rnd addr)"
| step: "reachable s \<Longrightarrow> server_step s t \<Longrightarrow> reachable t"

inductive_cases server_stepE: "server_step s t"

lemma srv_inv_start: "srv_inv (blank_server rnd addr)"
  by (simp add: srv_inv_def blank_server_def NewConsensusModule_def log_ok_def nodes_ok_def)

lemma server_step_keeps: "server_step s t \<Longrightarrow> srv_inv s \<Longrightarrow> srv_inv t"
proof (induction rule: server_step.induct)
  case (append s dial now req)
  then show ?case by (intro keeps_AppendEntries) simp_all
next
  case (deferred s now d)
  then show ?case by (auto simp: run_deferred_def srv_inv_follower split: option.split)
next
  case (join s i a)
  then show ?case by (simp add: join_peer_def srv_inv_peer)
next
  case (ready s now)
  then show ?case by (auto simp: cm_ready_def intro!: srv_inv_upd)
next
  case (timer_start s d i)
  then show ?case by (auto simp: timer_start_def intro!: srv_inv_upd)
next
  case (hb_loop s)
  then show ?case by (auto simp: hb_loop_check_def intro!: srv_inv_upd)
next
  case (vote_request s p el)
  then show ?case by (auto simp: vote_request_def split: prod.split option.split)
qed (blast intro: keepsD keeps_timer_tick keeps_vote_reply keeps_hb_request keeps_hb_response
    keeps_RequestVote_locked keeps_Submit keeps_RegisterMaster keeps_RegisterMaster_locked keeps_UpdateNode_local)+

lemma reachable_inv: "reachable s \<Longrightarrow> srv_inv s"
  by (induction rule: reachable.induct) (auto intro: srv_inv_start server_step_keeps)

text \<open>C10. In every state a master can reach, whatever requests, answers and clocks it meets and however
  the calls end, its log starts with the sentinel; every peer id is in the table of clients, so that with the mutex free a vote
  request to it can be sent, unless the client is one on a nil connection (its dial had failed): that call
  panics; and each node table is consistent in itself: the object entered for an address has this address, the object entered for
  an id has this id, and with the mutex free the lookups return what these objects say.  (The two tables need not agree: two addresses can have drawn the same id.)\<close>
theorem reachable_server_invariant:
  assumes "reachable s"
  shows "cmLog (cm s) \<noteq> [] \<and> hd (cmLog (cm s)) = \<lparr> Command = CNil, Term = 0 \<rparr> \<and>
    (\<forall>p el. p \<in> set (peerIds (cm s)) \<longrightarrow> peers s p \<noteq> None \<and> (\<not> cmu (cm s) \<longrightarrow>
       (\<exists>a req. peers s p = Some (Some a) \<and> vote_request p el s = Ret s req) \<or>
       peers s p = Some None \<and> vote_request p el s = Panic s)) \<and>
    (\<forall>a r. nodeAddr s a = Some r \<longrightarrow> nAddr (nodeObjs s ! r) = a \<and>
       (\<not> cmu (cm s) \<longrightarrow> NodeID a s = Ret s (nID (nodeObjs s ! r)))) \<and>
    (\<forall>i r. nodes s i = Some r \<longrightarrow> nID (nodeObjs s ! r) = i \<and>
       (\<not> cmu (cm s) \<longrightarrow> Server_NodeAddr i s = Ret s (nAddr (nodeObjs s ! r))))"
proof -
  have i: "srv_inv s" by (rule reachable_inv[OF assms])
  then have "(\<exists>a req. peers s p = Some (Some a) \<and> vote_request p el s = Ret s req) \<or>
      peers s p = Some None \<and> vote_request p el s = Panic s" if "p \<in> set (peerIds (cm s))" "\<not> cmu (cm s)" for p el
    using that by (auto simp: srv_inv_def vote_request_def split: prod.split option.split)
  moreover have "peers s p \<noteq> None" if "p \<in> set (peerIds (cm s))" for p
    using i that by (auto simp: srv_inv_def)
  ultimately show ?thesis using i
    by (auto simp: srv_inv_def log_ok_def nodes_ok_def NodeID_def Server_NodeAddr_def)
qed

theorem reachable_server_invariant_witness:
  "\<exists>req. vote_request 7 0 (join_peer 7 ''b'' (blank_server 1 ''a'')) = Ret (join_peer 7 ''b'' (blank_server 1 ''a'')) req"
proof -
  have "reachable (join_peer 7 ''b'' (blank_server 1 ''a''))"
    by (rule reachable.step[OF reachable.start server_step.join])
  from reachable_server_invariant[OF this] show ?thesis
    by (auto simp: join_peer_def blank_server_def NewConsensusModule_def)
qed

end
