(* ===== verification/Server_Props.thy ===== *)
theory Server_Props
  imports Server_Inv
begin

text \<open>
  Uploads and nodes: the whole way of an upload through the master, the choice of the node, and
  what a failed upload, a heartbeat to a follower or a master that registers twice leave behind.
\<close>

section \<open>Recording a host\<close>

lemma host_update:
  assumes "fs_inv s"
  shows "fs_inv (upd_file f (Host_update g) s)" "ns (upd_file f (Host_update g) s) = ns s"
    "lookup (upd_file f (Host_update g) s) = lookup s"
proof -
  let ?t = "upd_file f (Host_update g) s"
  note inv = fs_invD[OF assms]
  have st: "same_tree s ?t" by simp
  have fld: "Checksum (files ?t ! h) = Checksum (files s ! h)" "FSPath (files ?t ! h) = FSPath (files s ! h)"
    "SemaphoreReplica (files ?t ! h) = SemaphoreReplica (files s ! h)" for h
    by (simp_all add: nth_upd_total)
  have len: "length (files ?t) = length (files s)" by simp
  have fo: "file_ok (entry s) h (files ?t ! h) = file_ok (entry s) h (files s ! h)" for h
    unfolding file_ok_def fld ..
  have "ns_ok (entry s) (files ?t) (ChecksumDB s)"
    using ns_ok_entry(1-4)[OF inv(3)] ns_ok_index[OF inv(3)]
    by (intro ns_okI; unfold fld fo len) blast+
  then have "ns_ok (entry ?t) (files ?t) (ChecksumDB ?t)" by simp
  moreover have "unlocked ?t" using inv(2) by (intro unlocked_upd) simp_all
  ultimately show "fs_inv ?t" using same_tree_inv[OF st inv(1)] by (simp add: fs_inv_def)
  show l: "lookup ?t = lookup s"
    using same_tree_walk[OF st inv(1) tree_root[OF inv(1)]] by (simp add: lookup_def fun_eq_iff)
  show "ns ?t = ns s" by (rule ext) (simp only: ns_def l fld)
qed

section \<open>The way of an upload\<close>

lemma free_id_found:
  assumes "m (draws (i + n)) = None"
  shows "\<exists>x. free_id draws m i = Some x \<and> m x = None"
  using assms
proof (induction n arbitrary: i)
  case 0
  then show ?case by (simp add: free_id.simps)
next
  case (Suc n)
  then show ?case by (cases "m (draws i)") (auto simp: free_id.simps[of draws m i])
qed

definition um_free :: "master \<Rightarrow> bool" where
  "um_free m \<longleftrightarrow> \<not> umu (upm m) \<and> \<not> cmu (cm (svr m))"

lemma free_id_drawn:
  assumes "free_id draws m n = Some x"
  shows "\<exists>j. x = draws j"
  by (rule free_id.raw_induct[where P = "\<lambda>d m n x. \<exists>j. x = d j", OF _ assms]) (auto split: if_splits)

text \<open>The entry that \<open>AddUpload\<close> makes.\<close>

definition placed :: "string \<Rightarrow> string \<Rightarrow> string \<Rightarrow> master \<Rightarrow> master" where
  "placed i host path m = m\<lparr> upm := (upm m)\<lparr> pending := insert path (pending (upm m)),
     uploads := (uploads (upm m))(i \<mapsto> \<lparr> upID = i, upHost = host, upPath = path, upHash = [], upSize = 0 \<rparr>) \<rparr> \<rparr>"

lemma placed_sel [simp]:
  "svr (placed i host path m) = svr m" "gfs (placed i host path m) = gfs m"
  "pending (upm (placed i host path m)) = insert path (pending (upm m))" "umu (upm (placed i host path m)) = umu (upm m)"
  "uploads (upm (placed i host path m)) =
     (uploads (upm m))(i \<mapsto> \<lparr> upID = i, upHost = host, upPath = path, upHash = [], upSize = 0 \<rparr>)"
  "uploadNodes (upm (placed i host path m)) = uploadNodes (upm m)"
  "um_free (placed i host path m) = um_free m"
  by (simp_all add: placed_def um_free_def)

text \<open>A node that lets the master register uploads.\<close>

definition grants :: "('w \<Rightarrow> string \<Rightarrow> 'w \<times> http_reply) \<Rightarrow> 'w \<Rightarrow> string \<Rightarrow> string \<Rightarrow> bool" where
  "grants get w host i \<longleftrightarrow> reply_status (snd (get w (upload_url host i))) = Some StatusOK"

lemma AddUpload_ok:
  assumes m: "um_free m" "path \<notin> pending (upm m)" "First (uploadNodes (upm m)) = Some (Some r)"
    and d: "uploads (upm m) (draws k) = None"
    and g: "\<forall>j. grants get w (nAddr (nodeObjs (svr m) ! r)) (draws j)"
  obtains j where "uploads (upm m) (draws j) = None"
    "AddUpload draws get path (m, w) =
       Ret (placed (draws j) (nAddr (nodeObjs (svr m) ! r)) path m,
         fst (get w (upload_url (nAddr (nodeObjs (svr m) ! r)) (draws j)))) (Inr (draws j, nAddr (nodeObjs (svr m) ! r)))"
proof -
  obtain j where j: "free_id draws (uploads (upm m)) 0 = Some (draws j)" "uploads (upm m) (draws j) = None"
    using free_id_found[of "uploads (upm m)" draws 0 k] d free_id_drawn by fastforce
  obtain w1 rep where w1: "get w (upload_url (nAddr (nodeObjs (svr m) ! r)) (draws j)) = (w1, rep)" by force
  have mu: "u\<lparr> umu := False \<rparr> = u" if "\<not> umu u" for u using that by (cases u) simp
  show thesis
    by (rule that[OF j(2)])
      (use m j g w1 in \<open>auto simp: AddUpload_def AddUpload_locked_def set_umu_def um_free_def placed_def Let_def mu grants_def dest!: spec[of _ j]\<close>)
qed

text \<open>\<open>FinishUpload\<close> once \<open>AddFile\<close> has returned: the node joins the hosts of the file.\<close>

lemma FinishUpload_run:
  assumes m: "um_free m" and up: "uploads (upm m) i = Some upl"
    and g: "AddFile (upPath upl) h (gfs m) = Ret g x" "fs_inv g" "lookup g (resolve (upPath upl)) = Some f"
    and n: "nodeAddr (svr m) (upHost upl) = Some r"
  obtains t where "FinishUpload i h m = Ret t (Inr ())" "fs_inv (gfs t)" "lookup (gfs t) (resolve (upPath upl)) = Some f"
    "Checksum (files (gfs t) ! f) = Checksum (files g ! f)"
    "Host (files (gfs t) ! f) = Host (files g ! f) @ [nID (nodeObjs (svr m) ! r)]" "ns (gfs t) = ns g"
    "uploads (upm t) = (uploads (upm m))(i := None)" "pending (upm t) = pending (upm m) - {upPath upl}"
    "svr t = svr m" "um_free t"
proof -
  let ?nid = "nID (nodeObjs (svr m) ! r)"
  let ?g = "upd_file f (Host_update (\<lambda>hs. hs @ [?nid])) g"
  note hu = host_update[OF g(2), of f "\<lambda>hs. hs @ [?nid]"]
  let ?t = "m\<lparr> gfs := ?g, upm := (upm m)\<lparr> uploads := (uploads (upm m))(i := None),
               pending := pending (upm m) - {upPath upl} \<rparr> \<rparr>"
  have mu: "u\<lparr> umu := False \<rparr> = u" if "\<not> umu u" for u using that by (cases u) simp
  have get: "GetFile (upPath upl) g = Ret g (Inr f)"
    using GetFile_lookup[OF fs_invD(1,2)[OF g(2)], of "upPath upl"] g(3) by simp
  have fl: "f < length (files g)" by (rule lookup_file(1)[OF g(2,3)])
  show thesis
  proof (rule that)
    show "FinishUpload i h m = Ret ?t (Inr ())"
      using m up g(1) get n
      by (simp add: FinishUpload_def with_um_lock_def um_free_def lift_fs_def lift_svr_def NodeID_def mu)
    show "fs_inv (gfs ?t)" "lookup (gfs ?t) (resolve (upPath upl)) = Some f" "ns (gfs ?t) = ns g"
      using hu g(3) by simp_all
    show "um_free ?t" using m by (simp add: um_free_def)
  qed (use fl in simp_all)
qed

lemma FinishUpload_ok:
  assumes m: "um_free m" and up: "uploads (upm m) i = Some upl" and s: "fs_inv (gfs m)"
    and p: "canonical (upPath upl)" "card {k. ns (gfs m) k = Some h} < 2 ^ 32 - 1"
      "ns (gfs m) (resolve (upPath upl)) = None \<or> ns (gfs m) (resolve (upPath upl)) = Some h"
    and n: "nodeAddr (svr m) (upHost upl) = Some r"
  obtains t f where "FinishUpload i h m = Ret t (Inr ())" "fs_inv (gfs t)"
    "GetFile (upPath upl) (gfs t) = Ret (gfs t) (Inr f)" "Checksum (files (gfs t) ! f) = h"
    "last (Host (files (gfs t) ! f)) = nID (nodeObjs (svr m) ! r)"
    "ns (gfs t) = (ns (gfs m))(resolve (upPath upl) := Some h)"
    "uploads (upm t) = (uploads (upm m))(i := None)" "pending (upm t) = pending (upm m) - {upPath upl}"
    "svr t = svr m" "um_free t"
proof -
  obtain g x where g: "AddFile (upPath upl) h (gfs m) = Ret g x" "fs_inv g"
    "ns g = (ns (gfs m))(resolve (upPath upl) := Some h)"
    using sdfs_ns.add_law[OF s p(1,2)] p(3) by auto
  then have "ns g (resolve (upPath upl)) = Some h" by simp
  then obtain f where f: "lookup g (resolve (upPath upl)) = Some f" "Checksum (files g ! f) = h"
    by (auto simp: ns_def)
  obtain t where t: "FinishUpload i h m = Ret t (Inr ())" "fs_inv (gfs t)" "lookup (gfs t) (resolve (upPath upl)) = Some f"
    "Checksum (files (gfs t) ! f) = Checksum (files g ! f)"
    "Host (files (gfs t) ! f) = Host (files g ! f) @ [nID (nodeObjs (svr m) ! r)]" "ns (gfs t) = ns g"
    "uploads (upm t) = (uploads (upm m))(i := None)" "pending (upm t) = pending (upm m) - {upPath upl}"
    "svr t = svr m" "um_free t"
    by (rule FinishUpload_run[OF m up g(1,2) f(1) n])
  have get: "GetFile (upPath upl) (gfs t) = Ret (gfs t) (Inr f)"
    using GetFile_lookup[OF fs_invD(1,2)[OF t(2)], of "upPath upl"] t(3) by simp
  show thesis by (rule that[OF t(1,2) get]) (use t f g(3) in simp_all)
qed

text \<open>C15. An upload goes all the way: if the path is not being uploaded and is free in the namespace or holds the same
  checksum already, a node is queued and answers, the master hands
  out a fresh id and the address of that node; when the node then reports the digest under that id, the
  namespace holds the file at the path with this checksum and the id of that node as its newest host,
  every other location is unchanged, and neither the upload nor the pending mark is left.\<close>
theorem upload_completes:
  assumes "um_free m" "path \<notin> pending (upm m)" "First (uploadNodes (upm m)) = Some (Some r)"
    and "uploads (upm m) (draws k) = None" and "\<forall>j. grants get w (nAddr (nodeObjs (svr m) ! r)) (draws j)"
    and "nodeAddr (svr m) (nAddr (nodeObjs (svr m) ! r)) = Some r"
    and "fs_inv (gfs m)" "canonical path" "card {k. ns (gfs m) k = Some h} < 2 ^ 32 - 1"
    and "ns (gfs m) (resolve path) = None \<or> ns (gfs m) (resolve path) = Some h"
  shows "\<exists>i m1 w1 m2 f. AddUpload draws get path (m, w) = Ret (m1, w1) (Inr (i, nAddr (nodeObjs (svr m) ! r))) \<and>
    uploads (upm m) i = None \<and> FinishUpload i h m1 = Ret m2 (Inr ()) \<and>
    fs_inv (gfs m2) \<and> GetFile path (gfs m2) = Ret (gfs m2) (Inr f) \<and> Checksum (files (gfs m2) ! f) = h \<and>
    last (Host (files (gfs m2) ! f)) = nID (nodeObjs (svr m) ! r) \<and>
    ns (gfs m2) = (ns (gfs m))(resolve path := Some h) \<and>
    uploads (upm m2) = uploads (upm m) \<and> pending (upm m2) = pending (upm m) \<and> um_free m2"
proof -
  let ?n = "nAddr (nodeObjs (svr m) ! r)"
  obtain j where j: "uploads (upm m) (draws j) = None"
    "AddUpload draws get path (m, w) = Ret (placed (draws j) ?n path m, fst (get w (upload_url ?n (draws j)))) (Inr (draws j, ?n))"
    by (rule AddUpload_ok[OF assms(1-5)])
  let ?u = "\<lparr> upID = draws j, upHost = ?n, upPath = path, upHash = [], upSize = 0 \<rparr>"
  let ?m1 = "placed (draws j) ?n path m"
  obtain t f where t: "FinishUpload (draws j) h ?m1 = Ret t (Inr ())" "fs_inv (gfs t)"
    "GetFile (upPath ?u) (gfs t) = Ret (gfs t) (Inr f)" "Checksum (files (gfs t) ! f) = h"
    "last (Host (files (gfs t) ! f)) = nID (nodeObjs (svr ?m1) ! r)"
    "ns (gfs t) = (ns (gfs ?m1))(resolve (upPath ?u) := Some h)"
    "uploads (upm t) = (uploads (upm ?m1))(draws j := None)" "pending (upm t) = pending (upm ?m1) - {upPath ?u}"
    "svr t = svr ?m1" "um_free t"
    by (rule FinishUpload_ok[of ?m1 "draws j" ?u h r]) (use assms(1,6-10) in simp_all)
  have "(uploads (upm m))(draws j := None) = uploads (upm m)" using j(1) by auto
  with j t assms(2) show ?thesis by (auto simp: fun_upd_idem)
qed

section \<open>Nodes and the upload queue\<close>

lemma heap_inv_cong:
  assumes "\<And>x. x \<in> set (items q) \<Longrightarrow> pri x = pri' x" "heap_inv pri q"
  shows "heap_inv pri' q"
proof -
  have sh: "shape q" using assms(2) by (simp add: heap_inv_def)
  have "key pri q i = key pri' q i" if "i < qlen q" for i
  proof -
    have "i < length (items q)" "items q ! i = the (data q ! i)"
      using sh that by (simp_all add: items_def shape_def)
    then have "the (data q ! i) \<in> set (items q)" by (metis nth_mem)
    with assms(1) show ?thesis by (simp add: key_def)
  qed
  moreover have "par i < qlen q" if "i < qlen q" for i using that by (simp add: par_def)
  ultimately show ?thesis using assms(2) by (simp add: heap_inv_def heap_on_def)
qed

text \<open>The queue holds pointers to existing nodes, ordered by their present free space.\<close>

definition queue_ok :: "master \<Rightarrow> bool" where
  "queue_ok m \<longleftrightarrow> heap_inv (node_pri (svr m)) (uploadNodes (upm m)) \<and>
     (\<forall>r \<in> set (items (uploadNodes (upm m))). r < length (nodeObjs (svr m)))"

lemma node_pri_append:
  "r < length (nodeObjs s) \<Longrightarrow> node_pri (add_node_obj n s) r = node_pri s r"
  by (simp add: node_pri_def add_node_obj_def nth_append)

lemma add_node_obj_sel [simp]:
  "cm (add_node_obj n s) = cm s" "nodeObjs (add_node_obj n s) = nodeObjs s @ [n]"
  "nodeAddr (add_node_obj n s) = (nodeAddr s)(nAddr n \<mapsto> length (nodeObjs s))"
  "nodes (add_node_obj n s) = (nodes s)(nID n \<mapsto> length (nodeObjs s))"
  by (simp_all add: add_node_obj_def)

lemma Submit_leader:
  assumes "\<not> cmu (cm s)" "cmState (cm s) = LEADER" "registered cmd"
  obtains t where "Submit cmd s = Ret t (True, cmId (cm s))"
    "cm t = (cm s)\<lparr> cmLog := cmLog (cm s) @ [\<lparr> Command = cmd, Term = currentTerm (cm s) \<rparr>] \<rparr>"
    "nodeObjs t = nodeObjs s" "nodeAddr t = nodeAddr s" "nodes t = nodes s"
proof -
  have mu2: "(cm s)\<lparr> cmLog := l, cmu := False \<rparr> = (cm s)\<lparr> cmLog := l \<rparr>" for l
    using assms(1) by (cases "cm s") simp
  obtain e where "Serialize \<lparr> Command = cmd, Term = currentTerm (cm s) \<rparr> = Some e"
    using Serialize_registered[OF assms(3)] by blast
  with assms show thesis
    by (intro that[of "upd_cm (cmu_update (\<lambda>_. False)) ((upd_cm (\<lambda>c. c\<lparr> cmu := True, cmLog := cmLog c @
          [\<lparr> Command = cmd, Term = currentTerm (cm s) \<rparr>] \<rparr>) s)\<lparr> logFile := logFile s @ [e] \<rparr>)"])
      (simp_all add: Submit_def with_cm_lock_def Let_def mu2)
qed

lemma UpdateNode_new:
  assumes "um_free m" "cmState (cm (svr m)) = LEADER" "nodeAddr (svr m) addr = None" "queue_ok m"
  shows "\<exists>m' n. UpdateNode addr cpu memory sz disk r1 r2 m = Ret m' ([], False) \<and>
    nodeAddr (svr m') addr = Some n \<and> nodes (svr m') (draw_id r1 r2 (svr m)) = Some n \<and>
    nAddr (nodeObjs (svr m') ! n) = addr \<and> Disk (nodeObjs (svr m') ! n) = disk \<and>
    Command (last (cmLog (cm (svr m')))) = CAddNode \<lparr> asnID = draw_id r1 r2 (svr m), NodeAddr = addr \<rparr> \<and>
    mset (items (uploadNodes (upm m'))) = add_mset n (mset (items (uploadNodes (upm m)))) \<and> queue_ok m' \<and>
    um_free m' \<and> gfs m' = gfs m \<and> uploads (upm m') = uploads (upm m) \<and> pending (upm m') = pending (upm m) \<and>
    nID (nodeObjs (svr m') ! n) = draw_id r1 r2 (svr m) \<and> cmState (cm (svr m')) = LEADER"
proof -
  let ?s = "svr m" and ?id = "draw_id r1 r2 (svr m)" and ?q = "uploadNodes (upm m)"
  let ?o = "\<lparr> nAddr = addr, nID = ?id, CpuUsage = cpu, MemUsage = memory, nSize = sz, Disk = disk, LastHeartbeat = 0 \<rparr>"
  let ?s1 = "add_node_obj ?o ?s" and ?n = "length (nodeObjs ?s)"
  have mu: "\<not> cmu (cm ?s)" using assms(1) by (simp add: um_free_def)
  have l: "UpdateNode_local addr cpu memory sz disk r1 r2 ?s = Ret ?s1 (Some (?n, ?id))"
    using mu assms(3) by (simp add: UpdateNode_local_def Let_def)
  obtain t where t: "Submit (CAddNode \<lparr> asnID = ?id, NodeAddr = addr \<rparr>) ?s1 = Ret t (True, cmId (cm ?s1))"
    "cm t = (cm ?s1)\<lparr> cmLog := cmLog (cm ?s1) @
       [\<lparr> Command = CAddNode \<lparr> asnID = ?id, NodeAddr = addr \<rparr>, Term = currentTerm (cm ?s1) \<rparr>] \<rparr>"
    "nodeObjs t = nodeObjs ?s1" "nodeAddr t = nodeAddr ?s1" "nodes t = nodes ?s1"
    by (rule Submit_leader[of ?s1, OF _ _ registered_simps(1)]) (use mu assms(2) in simp_all)
  have pri: "node_pri t r = node_pri ?s r" if "r < ?n" for r
    using t(3) node_pri_append[OF that, of ?o] by (simp add: node_pri_def)
  have lt: "\<forall>r \<in> set (items ?q). r < ?n" using assms(4) by (simp add: queue_ok_def)
  have "heap_inv (node_pri t) ?q"
    by (rule heap_inv_cong[of ?q "node_pri ?s"]) (use assms(4) lt pri in \<open>auto simp: queue_ok_def\<close>)
  then obtain q where q: "Push (node_pri t) ?n ?q = Some q" "heap_inv (node_pri t) q"
    "mset (items q) = add_mset ?n (mset (items ?q))"
    using heap_queue.push_ok[of "node_pri t" ?q ?n] by blast
  have qs: "set (items q) = insert ?n (set (items ?q))" using arg_cong[OF q(3), of set_mset] by simp
  let ?m = "m\<lparr> svr := t, upm := (upm m)\<lparr> uploadNodes := q \<rparr> \<rparr>"
  have "UpdateNode addr cpu memory sz disk r1 r2 m = Ret ?m ([], False)"
    using l t(1) q(1) by (simp add: UpdateNode_def lift_svr_def)
  moreover have "queue_ok ?m" using q(2) qs lt t(3) by (auto simp: queue_ok_def)
  ultimately show ?thesis using t q(3) assms(1,2) by (intro exI[of _ ?m] exI[of _ ?n]) (simp add: um_free_def)
qed

text \<open>The first heartbeat of a node on the leader registers it: it gets an object with its data under
  its address and a drawn id, an \<open>AddNode\<close> command is appended to the log, and the node is added to the
  upload queue, which stays a valid heap over the present free space of all nodes.\<close>
theorem first_heartbeat_registers_node:
  assumes "um_free m" "cmState (cm (svr m)) = LEADER" "nodeAddr (svr m) addr = None" "queue_ok m"
  shows "\<exists>m' n. UpdateNode addr cpu memory sz disk r1 r2 m = Ret m' ([], False) \<and>
    nodeAddr (svr m') addr = Some n \<and> nodes (svr m') (draw_id r1 r2 (svr m)) = Some n \<and>
    nAddr (nodeObjs (svr m') ! n) = addr \<and> Disk (nodeObjs (svr m') ! n) = disk \<and>
    Command (last (cmLog (cm (svr m')))) = CAddNode \<lparr> asnID = draw_id r1 r2 (svr m), NodeAddr = addr \<rparr> \<and>
    mset (items (uploadNodes (upm m'))) = add_mset n (mset (items (uploadNodes (upm m)))) \<and> queue_ok m'"
  using UpdateNode_new[OF assms] by blast

definition leader_master :: master where
  "leader_master = \<lparr> svr = upd_cm (cmState_update (\<lambda>_. LEADER)) (fresh_server 1 []),
     upm = newUploadManager, gfs = NewFS \<rparr>"

lemma leader_master_ok: "um_free leader_master" "cmState (cm (svr leader_master)) = LEADER"
  "nodeAddr (svr leader_master) a = None" "queue_ok leader_master" "gfs leader_master = NewFS"
  "uploads (upm leader_master) = Map.empty" "pending (upm leader_master) = {}"
  "items (uploadNodes (upm leader_master)) = []"
  using NewPQueue_ok
  by (auto simp: um_free_def leader_master_def newUploadManager_def queue_ok_def fresh_server_def
      NewConsensusModule_def NewPQueue_def items_def)

theorem first_heartbeat_registers_node_witness:
  "\<exists>m' n. UpdateNode ''n:1'' 0 0 0 500 7 8 leader_master = Ret m' ([], False) \<and>
     mset (items (uploadNodes (upm m'))) = {#n#} \<and> queue_ok m'"
  using first_heartbeat_registers_node[OF leader_master_ok(1-4), of "''n:1''" 0 0 0 500 7 8]
  by (auto simp: leader_master_ok(8))

text \<open>A new upload goes to a queued node with the most free space, while the queue is a valid heap;
  but a heartbeat of a known node changes its free space under the queue without moving it: afterwards
  uploads still go to the former best node, however little space it reports and whatever other nodes
  have.\<close>
theorem upload_goes_to_former_best_node:
  assumes "um_free m" "queue_ok m" "set (items (uploadNodes (upm m))) \<noteq> {}"
    and "\<forall>r \<in> set (items (uploadNodes (upm m))). nodeAddr (svr m) (nAddr (nodeObjs (svr m) ! r)) = Some r"
    and "path \<notin> pending (upm m)" "uploads (upm m) (draws k) = None" "\<forall>host j. grants get w host (draws j)"
  shows "\<exists>r i mw1 m2 mw3 i'. r \<in> set (items (uploadNodes (upm m))) \<and>
    (\<forall>r' \<in> set (items (uploadNodes (upm m))). node_pri (svr m) r' \<le> node_pri (svr m) r) \<and>
    AddUpload draws get path (m, w) = Ret mw1 (Inr (i, nAddr (nodeObjs (svr m) ! r))) \<and>
    UpdateNode (nAddr (nodeObjs (svr m) ! r)) cpu memory sz disk r1 r2 m = Ret m2 ([], False) \<and>
    node_pri (svr m2) r = sint disk \<and>
    AddUpload draws get path (m2, w) = Ret mw3 (Inr (i', nAddr (nodeObjs (svr m) ! r)))"
proof -
  let ?q = "uploadNodes (upm m)" and ?s = "svr m"
  have "mset (items ?q) \<noteq> {#}" using assms(3) by auto
  then obtain r where r: "First ?q = Some (Some r)" "r \<in> set (items ?q)"
    "\<forall>r' \<in> set (items ?q). node_pri ?s r' \<le> node_pri ?s r"
    using heap_queue.first_max[of "node_pri ?s" ?q] assms(2) by (auto simp: queue_ok_def)
  let ?a = "nAddr (nodeObjs ?s ! r)"
  obtain j where i: "AddUpload draws get path (m, w) =
      Ret (placed (draws j) ?a path m, fst (get w (upload_url ?a (draws j)))) (Inr (draws j, ?a))"
    by (rule AddUpload_ok[of m path r draws k get w]) (use assms(1,5-7) r(1) in simp_all)
  have rl: "r < length (nodeObjs ?s)" using assms(2) r(2) by (simp add: queue_ok_def)
  let ?o = "(nodeObjs ?s ! r)\<lparr> CpuUsage := cpu, MemUsage := memory, nSize := sz, Disk := disk \<rparr>"
  let ?m2 = "m\<lparr> svr := ?s\<lparr> nodeObjs := (nodeObjs ?s)[r := ?o] \<rparr> \<rparr>"
  have u: "UpdateNode ?a cpu memory sz disk r1 r2 m = Ret ?m2 ([], False)"
    using assms(1,4) r(2) by (simp add: UpdateNode_def UpdateNode_local_def lift_svr_def um_free_def)
  obtain i' mw3 where "AddUpload draws get path (?m2, w) = Ret mw3 (Inr (i', nAddr (nodeObjs (svr ?m2) ! r)))"
    by (rule AddUpload_ok[of ?m2 path r draws k get w])
      (use assms(1,5-7) r(1) in \<open>auto simp: um_free_def\<close>)
  with r i u rl show ?thesis by (auto simp: node_pri_def)
qed

text \<open>A leader with one node, for the examples.\<close>

lemma one_node_master:
  obtains m r where "um_free m" "queue_ok m" "items (uploadNodes (upm m)) = [r]"
    "First (uploadNodes (upm m)) = Some (Some r)" "nodeAddr (svr m) (nAddr (nodeObjs (svr m) ! r)) = Some r"
    "gfs m = NewFS" "uploads (upm m) = Map.empty" "pending (upm m) = {}"
proof -
  obtain m r where m: "nodeAddr (svr m) ''n:1'' = Some r" "nAddr (nodeObjs (svr m) ! r) = ''n:1''"
    "mset (items (uploadNodes (upm m))) = add_mset r (mset (items (uploadNodes (upm leader_master))))"
    "queue_ok m" "um_free m" "gfs m = gfs leader_master" "uploads (upm m) = uploads (upm leader_master)"
    "pending (upm m) = pending (upm leader_master)"
    using UpdateNode_new[OF leader_master_ok(1-4), of "''n:1''" 0 0 0 500 7 8] by blast
  then have it: "items (uploadNodes (upm m)) = [r]" by (simp add: leader_master_ok(8))
  have "First (uploadNodes (upm m)) = Some (Some r)"
    using heap_queue.first_max[of "node_pri (svr m)" "uploadNodes (upm m)"] m(4) it
    by (auto simp: queue_ok_def)
  moreover have "nodeAddr (svr m) (nAddr (nodeObjs (svr m) ! r)) = Some r"
    unfolding m(2) by (rule m(1))
  ultimately show thesis using m(4-8) it leader_master_ok by (intro that) simp_all
qed

theorem upload_completes_witness:
  "\<exists>m i m1 m2 f n. AddUpload (\<lambda>k. RandomString (\<lambda>_. k) 8) (\<lambda>w _. (w, Reply 200 [])) ''/a/b'' (m, ()) = Ret (m1, ()) (Inr (i, n)) \<and>
     FinishUpload i ''h'' m1 = Ret m2 (Inr ()) \<and> GetFile ''/a/b'' (gfs m2) = Ret (gfs m2) (Inr f)"
proof -
  obtain m r where m: "um_free m" "First (uploadNodes (upm m)) = Some (Some r)"
    "nodeAddr (svr m) (nAddr (nodeObjs (svr m) ! r)) = Some r" "gfs m = NewFS"
    "uploads (upm m) = Map.empty" "pending (upm m) = {}"
    by (rule one_node_master)
  have "\<exists>i m1 m2 f n. AddUpload (\<lambda>k. RandomString (\<lambda>_. k) 8) (\<lambda>w _. (w, Reply 200 [])) ''/a/b'' (m, ()) = Ret (m1, ()) (Inr (i, n)) \<and>
     FinishUpload i ''h'' m1 = Ret m2 (Inr ()) \<and> GetFile ''/a/b'' (gfs m2) = Ret (gfs m2) (Inr f)"
    using upload_completes[of m "''/a/b''" r "\<lambda>k. RandomString (\<lambda>_. k) 8" 0 "\<lambda>w _. (w, Reply 200 [])" "()" "''h''"]
      m NewFS_inv canonical_examples by (auto simp: grants_def reply_status_def StatusOK_def)
  then show ?thesis by blast
qed

theorem upload_goes_to_former_best_node_witness:
  "\<exists>m r m2. UpdateNode (nAddr (nodeObjs (svr m) ! r)) 0 0 0 1 7 8 m = Ret m2 ([], False) \<and>
     node_pri (svr m2) r = sint (1 :: i64)"
proof -
  obtain m r where m: "um_free m" "queue_ok m" "items (uploadNodes (upm m)) = [r]"
    "nodeAddr (svr m) (nAddr (nodeObjs (svr m) ! r)) = Some r"
    "uploads (upm m) = Map.empty" "pending (upm m) = {}"
    by (rule one_node_master)
  have "\<exists>r m2. UpdateNode (nAddr (nodeObjs (svr m) ! r)) 0 0 0 1 7 8 m = Ret m2 ([], False) \<and>
     node_pri (svr m2) r = sint (1 :: i64)"
    using upload_goes_to_former_best_node[of m "''/a/b''" "\<lambda>k. RandomString (\<lambda>_. k) 8" 0
      "\<lambda>w _. (w, Reply 200 [])" "()" 0 0 0 1 7 8] m by (auto simp: grants_def reply_status_def StatusOK_def)
  then show ?thesis by blast
qed

section \<open>What failures leave behind\<close>

text \<open>The calls of the upload manager, with arbitrary answers, and anything else that leaves its two tables alone.  The world
  behind the HTTP client is a number.\<close>

inductive um_step :: "master \<Rightarrow> master \<Rightarrow> bool" where
  add: "um_step m (fst (final_state (AddUpload draws (get :: nat \<Rightarrow> string \<Rightarrow> nat \<times> http_reply) p (m, w))))"
| finish: "um_step m (final_state (FinishUpload i h m))"
| other: "uploads (upm m') = uploads (upm m) \<Longrightarrow> pending (upm m') = pending (upm m) \<Longrightarrow> um_step m m'"

text \<open>Every recorded upload has a pending path, and no two have the same.\<close>

definition um_inv :: "master \<Rightarrow> bool" where
  "um_inv m \<longleftrightarrow> (\<forall>i u. uploads (upm m) i = Some u \<longrightarrow> upPath u \<in> pending (upm m)) \<and>
     (\<forall>i j u v. uploads (upm m) i = Some u \<longrightarrow> uploads (upm m) j = Some v \<longrightarrow> upPath u = upPath v \<longrightarrow> i = j)"

text \<open>A path that is pending without an upload: nothing can finish it.\<close>

definition orphan :: "string \<Rightarrow> master \<Rightarrow> bool" where
  "orphan path m \<longleftrightarrow> path \<in> pending (upm m) \<and> (\<forall>i u. uploads (upm m) i = Some u \<longrightarrow> upPath u \<noteq> path)"

lemma AddUpload_tables:
  obtains "upm (fst (final_state (AddUpload draws get p (m, w)))) = upm m"
  | b where "p \<notin> pending (upm m)" "upm (fst (final_state (AddUpload draws get p (m, w)))) = (upm m)\<lparr> pending := insert p (pending (upm m)), umu := b \<rparr>"
  | b i u where "p \<notin> pending (upm m)" "upPath u = p"
      "upm (fst (final_state (AddUpload draws get p (m, w)))) =
         (upm m)\<lparr> pending := insert p (pending (upm m)), uploads := (uploads (upm m))(i \<mapsto> u), umu := b \<rparr>"
proof (cases "umu (upm m) \<or> p \<in> pending (upm m)")
  case True
  then show thesis
    by (intro that(1)) (cases "upm m"; auto simp: AddUpload_def AddUpload_locked_def set_umu_def Let_def)
next
  case False
  show thesis
  proof (cases "First (uploadNodes (upm m))")
    case None
    then show thesis using False
      by (intro that(2)[of False]) (simp_all add: AddUpload_def AddUpload_locked_def set_umu_def Let_def)
  next
    case (Some o1)
    show thesis
    proof (cases o1)
      case None
      then show thesis using False Some
        by (intro that(2)[of False]) (simp_all add: AddUpload_def AddUpload_locked_def set_umu_def Let_def)
    next
      case (Some r)
      note fst = \<open>First (uploadNodes (upm m)) = Some o1\<close>[unfolded Some]
      show thesis
      proof (cases "free_id draws (uploads (upm m)) 0")
        case None
        then show thesis using False fst
          by (intro that(2)[of True]) (simp_all add: AddUpload_def AddUpload_locked_def set_umu_def Let_def)
      next
        case (Some rnd)
        let ?u = "\<lparr> upID = rnd, upHost = nAddr (nodeObjs (svr m) ! r), upPath = p, upHash = [], upSize = 0 \<rparr>"
        have "upm (fst (final_state (AddUpload draws get p (m, w)))) =
            (upm m)\<lparr> pending := insert p (pending (upm m)), uploads := (uploads (upm m))(rnd \<mapsto> ?u), umu := False \<rparr>"
          using False fst Some
          by (auto simp: AddUpload_def AddUpload_locked_def set_umu_def Let_def split: prod.split option.split)
        then show thesis using False by (intro that(3)[of ?u False rnd]) simp_all
      qed
    qed
  qed
qed

lemma upm_lift [simp]: "lift_fs r m = Ret t a \<Longrightarrow> upm t = upm m" "lift_fs r m = Panic t \<Longrightarrow> upm t = upm m"
  "lift_fs r m = Block t \<Longrightarrow> upm t = upm m"
  by (cases r; auto simp: lift_fs_def)+

lemma FinishUpload_tables:
  obtains b where "upm (final_state (FinishUpload i h m)) = (upm m)\<lparr> umu := b \<rparr>"
  | b u where "uploads (upm m) i = Some u"
      "upm (final_state (FinishUpload i h m)) = (upm m)\<lparr> uploads := (uploads (upm m))(i := None), pending := pending (upm m) - {upPath u}, umu := b \<rparr>"
proof -
  show thesis
  proof (cases "umu (upm m) \<or> uploads (upm m) i = None")
    case True
    then show thesis
      by (intro that(1)[of "umu (upm m)"]) (cases "upm m"; auto simp: FinishUpload_def with_um_lock_def)
  next
    case False
    then obtain u where u: "uploads (upm m) i = Some u" by blast
    let ?m = "m\<lparr> upm := (upm m)\<lparr> umu := True \<rparr> \<rparr>"
    show thesis
    proof (cases "lift_fs (AddFile (upPath u) h (gfs ?m)) ?m")
      case (Ret m1 a)
      then have m1: "upm m1 = (upm m)\<lparr> umu := True \<rparr>" by (auto dest: upm_lift(1))
      show thesis
      proof (cases "lift_fs (GetFile (upPath u) (gfs m1)) m1")
        case r2: (Ret m2 r)
        then have m2: "upm m2 = (upm m)\<lparr> umu := True \<rparr>" using m1 by (auto dest: upm_lift(1))
        show thesis
        proof (cases r)
          case (Inl e)
          then show thesis using False u Ret r2 m2 by (intro that(1)[of False]) (simp add: FinishUpload_def with_um_lock_def)
        next
          case (Inr f)
          show thesis
          proof (cases "cmu (cm (svr m2))")
            case True
            then show thesis using False u Ret r2 m2 Inr
              by (intro that(1)[of True]) (simp add: FinishUpload_def with_um_lock_def NodeID_def lift_svr_def)
          next
            case free: False
            then show thesis using False u Ret r2 m2 Inr
              by (intro that(2)[of u False]) (simp_all add: FinishUpload_def with_um_lock_def NodeID_def lift_svr_def)
          qed
        qed
      next
        case (Panic m2)
        then have "upm m2 = (upm m)\<lparr> umu := True \<rparr>" using m1 by (auto dest: upm_lift(2))
        then show thesis using False u Ret Panic by (intro that(1)[of False]) (simp add: FinishUpload_def with_um_lock_def)
      next
        case (Block m2)
        then have "upm m2 = (upm m)\<lparr> umu := True \<rparr>" using m1 by (auto dest: upm_lift(3))
        then show thesis using False u Ret Block by (intro that(1)[of True]) (simp add: FinishUpload_def with_um_lock_def)
      qed
    next
      case (Panic m1)
      then have "upm m1 = (upm m)\<lparr> umu := True \<rparr>" by (auto dest: upm_lift(2))
      then show thesis using False u Panic by (intro that(1)[of False]) (simp add: FinishUpload_def with_um_lock_def)
    next
      case (Block m1)
      then have "upm m1 = (upm m)\<lparr> umu := True \<rparr>" by (auto dest: upm_lift(3))
      then show thesis using False u Block by (intro that(1)[of True]) (simp add: FinishUpload_def with_um_lock_def)
    qed
  qed
qed

lemma AddUpload_inv_aux: "um_inv m \<Longrightarrow> um_inv (fst (final_state (AddUpload draws get p (m, w))))"
proof (cases rule: AddUpload_tables[of draws get p m w])
  case (3 b i u)
  moreover assume "um_inv m"
  ultimately show ?thesis unfolding um_inv_def 3(3) by (auto split: if_splits) metis+
qed (auto simp: um_inv_def)

lemma um_step_inv:
  assumes "um_step m m'"
  shows "um_inv m \<Longrightarrow> um_inv m'" "um_inv m \<Longrightarrow> orphan path m \<Longrightarrow> orphan path m'"
  using assms
proof (induction rule: um_step.induct)
  case (add m draws get p w)
  { case 1 then show ?case by (rule AddUpload_inv_aux) }
  { case 2 then show ?case by (cases rule: AddUpload_tables[of draws get p m w]) (auto simp: orphan_def) }
next
  case (finish m i h)
  { case 1 then show ?case by (cases rule: FinishUpload_tables[of i h m]) (auto simp: um_inv_def) }
  { case 2 then show ?case by (cases rule: FinishUpload_tables[of i h m]) (auto simp: orphan_def) }
next
  case (other m' m)
  { case 1 with other show ?case by (simp add: um_inv_def) }
  { case 2 with other show ?case by (simp add: orphan_def) }
qed

lemma um_steps_inv:
  assumes "um_step\<^sup>*\<^sup>* m m'" "um_inv m"
  shows "um_inv m'" "orphan path m \<Longrightarrow> orphan path m'"
  using assms by (induction rule: rtranclp_induct) (auto dest: um_step_inv)

lemma pending_refused:
  assumes "path \<in> pending (upm m)"
  shows "AddUpload draws get path (m, w) = (if umu (upm m) then Block (m, w) else Ret (m, w) (Inl AlreadyPending))"
proof -
  have "set_umu False (set_umu True m) = m" if "\<not> umu (upm m)"
    using that by (cases m; cases "upm m") (simp add: set_umu_def)
  with assms show ?thesis by (simp add: AddUpload_def AddUpload_locked_def Let_def) (simp add: set_umu_def)
qed

text \<open>C38. A failed upload blocks its path.  When \<open>AddUpload\<close> has failed because no node is queued, its path is refused for ever: after
  any further calls of \<open>AddUpload\<close> and \<open>FinishUpload\<close>, whatever their arguments and the answers of the nodes, an \<open>AddUpload\<close> of the path is
  refused as already in progress (or waits, if the mutex has been left held).  When it has failed because the
  node did not answer with 200, an upload with an id the client has not been told is on record, and the path is refused in this way
  as long as this upload has not been finished.\<close>
theorem failed_upload_blocks_path:
  assumes "upm m0 = newUploadManager" "um_step\<^sup>*\<^sup>* m0 m"
    and "AddUpload draws get path (m, w) = Ret (m1, w1) (Inl e)" "um_step\<^sup>*\<^sup>* m1 m2"
  shows "(e = NoNodes \<longrightarrow> AddUpload draws' get' path (m2, w') =
      (if umu (upm m2) then Block (m2, w') else Ret (m2, w') (Inl AlreadyPending))) \<and>
    (e = HttpFailed \<or> e = NodeRefused \<longrightarrow> (\<exists>i u. uploads (upm m1) i = Some u \<and> upPath u = path \<and>
      (uploads (upm m2) i = Some u \<longrightarrow> AddUpload draws' get' path (m2, w') =
        (if umu (upm m2) then Block (m2, w') else Ret (m2, w') (Inl AlreadyPending)))))"
proof -
  have "um_inv m0" using assms(1) by (simp add: um_inv_def newUploadManager_def)
  then have m: "um_inv m" by (rule um_steps_inv(1)[OF assms(2)])
  have m1: "um_inv m1"
    using AddUpload_inv_aux[OF m, of draws get path w] assms(3) by simp
  have "path \<in> pending (upm m2)" if "e = NoNodes"
  proof -
    have "orphan path m1" using assms(3) m that
      by (auto simp: orphan_def um_inv_def AddUpload_def AddUpload_locked_def set_umu_def Let_def split: if_splits option.splits prod.splits)
    then show ?thesis using um_steps_inv(2)[OF assms(4) m1] by (simp add: orphan_def)
  qed
  moreover have "\<exists>i u. uploads (upm m1) i = Some u \<and> upPath u = path" if "e = HttpFailed \<or> e = NodeRefused"
    using assms(3) that
    by (auto simp: AddUpload_def AddUpload_locked_def set_umu_def Let_def split: if_splits option.splits prod.splits)
  moreover have "path \<in> pending (upm m2)" if "uploads (upm m2) i = Some u" "upPath u = path" for i u
    using um_steps_inv(1)[OF assms(4) m1] that by (auto simp: um_inv_def)
  ultimately show ?thesis using pending_refused[of path m2 draws' get' w'] by blast
qed

theorem failed_upload_blocks_path_witness:
  "\<exists>m1. AddUpload (\<lambda>k. RandomString (\<lambda>_. k) 8) (\<lambda>w _. (w, NetError)) ''/a/b'' (leader_master, ()) = Ret (m1, ()) (Inl NoNodes) \<and>
     AddUpload (\<lambda>_. []) (\<lambda>w _. (w, Reply 200 [])) ''/a/b'' (m1, ()) =
       (if umu (upm m1) then Block (m1, ()) else Ret (m1, ()) (Inl AlreadyPending))"
proof -
  obtain m1 where m1: "AddUpload (\<lambda>k. RandomString (\<lambda>_. k) 8) (\<lambda>w _. (w, NetError)) ''/a/b'' (leader_master, ()) =
      Ret (m1, ()) (Inl NoNodes)"
    by (simp add: AddUpload_def AddUpload_locked_def set_umu_def leader_master_def newUploadManager_def Let_def First_def NewPQueue_def)
  have m0: "upm leader_master = newUploadManager" by (simp add: leader_master_def)
  from failed_upload_blocks_path[OF m0 rtranclp.rtrancl_refl m1 rtranclp.rtrancl_refl, of "\<lambda>_. []" "\<lambda>w _. (w, Reply 200 [])" "()"] m1
  show ?thesis by auto
qed

text \<open>A node whose first heartbeat reaches a follower is lost for uploads on that server: the call
  fails, but the node is registered locally without being queued; when the server leads later, the next
  heartbeat finds the address known, succeeds and still does not queue the node.\<close>
theorem heartbeat_to_follower_loses_node:
  assumes "um_free m" "cmState (cm (svr m)) \<noteq> LEADER" "nodeAddr (svr m) addr = None"
  shows "\<exists>m1 a m2. UpdateNode addr cpu memory sz disk r1 r2 m = Ret m1 (a, True) \<and>
    nodeAddr (svr m1) addr \<noteq> None \<and> uploadNodes (upm m1) = uploadNodes (upm m) \<and>
    UpdateNode addr cpu' memory' sz' disk' r1' r2'
      (m1\<lparr> svr := upd_cm (cmState_update (\<lambda>_. LEADER)) (svr m1) \<rparr>) = Ret m2 ([], False) \<and>
    uploadNodes (upm m2) = uploadNodes (upm m)"
proof -
  let ?o = "\<lparr> nAddr = addr, nID = draw_id r1 r2 (svr m), CpuUsage = cpu, MemUsage = memory, nSize = sz,
    Disk = disk, LastHeartbeat = 0 \<rparr>"
  let ?m1 = "m\<lparr> svr := add_node_obj ?o (svr m) \<rparr>"
  have mu: "\<not> cmu (cm (svr m))" using assms(1) by (simp add: um_free_def)
  have same: "upd_cm (\<lambda>c. c\<lparr> cmu := False \<rparr>) t = t" if "\<not> cmu (cm t)" for t
    using that by (cases "cm t") (simp add: upd_cm_def)
  have "Submit cmd (add_node_obj ?o (svr m)) = Ret (add_node_obj ?o (svr m)) (False, currentLeader (cm (svr m)))" for cmd
    using mu assms(2) same[of "add_node_obj ?o (svr m)"] by (simp add: Submit_def with_cm_lock_def)
  then have "UpdateNode addr cpu memory sz disk r1 r2 m = Ret ?m1
      (case peerAddr (add_node_obj ?o (svr m)) (currentLeader (cm (svr m))) of Some a \<Rightarrow> a | None \<Rightarrow> [], True)"
    using mu assms(3)
    by (simp add: UpdateNode_def UpdateNode_local_def lift_svr_def PeerAddr_def Let_def)
  then show ?thesis
    using mu by (auto simp: UpdateNode_def UpdateNode_local_def lift_svr_def)
qed

theorem heartbeat_to_follower_loses_node_witness:
  "\<exists>m1 a. UpdateNode ''n:1'' 0 0 0 500 7 8 \<lparr> svr = fresh_server 1 [2], upm = newUploadManager, gfs = NewFS \<rparr> =
     Ret m1 (a, True) \<and> nodeAddr (svr m1) ''n:1'' \<noteq> None"
  using heartbeat_to_follower_loses_node[of "\<lparr> svr = fresh_server 1 [2], upm = newUploadManager, gfs = NewFS \<rparr>"
      "''n:1''" 0 0 0 500 7 8 0 0 0 0 0 0]
  by (auto simp: um_free_def newUploadManager_def fresh_server_def NewConsensusModule_def)

text \<open>A master that registers twice stops the cluster: the second \<open>RegisterMaster\<close> with a known id
  reports the duplicate but returns with the mutex held, and from then on no vote, append, submit or
  heartbeat step of that server returns.\<close>
theorem duplicate_master_blocks_server:
  assumes "dial a" "\<not> cmu (cm s)" "i \<in> set (peerIds (cm s))"
  shows "\<exists>t. RegisterMaster dial a i s = Ret t (\<lparr> rrSuccess = False, rrConnectId = i \<rparr>, True) \<and>
    (\<forall>now req rv cmd. AppendEntries dial now req t = Block t \<and> RequestVote now rv t = Block t \<and>
      Submit cmd t = Block t \<and> leaderSendHeartbeats t = Block t \<and>
      RegisterMaster dial a i t = Block t)"
proof -
  let ?t = "upd_cm (cmu_update (\<lambda>_. True)) s"
  have "stuck ?t" by (simp add: stuck_def)
  with stuck_all[OF this] assms show ?thesis by (auto simp: RegisterMaster_def RegisterMaster_locked_def)
qed

theorem duplicate_master_blocks_server_witness:
  "\<exists>t. RegisterMaster (\<lambda>_. True) ''b'' 2 (fresh_server 1 [2]) =
     Ret t (\<lparr> rrSuccess = False, rrConnectId = 2 \<rparr>, True) \<and> Submit CNil t = Block t"
  using duplicate_master_blocks_server[of "\<lambda>_. True" "''b''" "fresh_server 1 [2]" 2] by auto

end
