(* ===== verification/Http.thy ===== *)
theory Http
  imports Util
begin

text \<open>
  \<open>router/context.go\<close> and \<open>router/router.go\<close>: responses, the parser of the \<open>Range\<close> header and the
  dispatch of requests, with the parts of \<open>strconv\<close>, \<open>fmt\<close> and \<open>net/http\<close> they call.

  A \<open>ctx\<close> holds the \<open>Context\<close> (its \<open>status\<close>) and what its \<open>ResponseWriter\<close> has: the headers set so
  far, the status line and headers that have been sent, and the body.  As in \<open>net/http\<close>, only the
  first \<open>WriteHeader\<close> counts and the first \<open>Write\<close> sends 200 if no status was sent.

  The numbers of a \<open>Range\<close> are integers: \<open>ParseInt\<close> bounds what is read by 64 bits, sizes are not
  negative, so that no sum or difference in \<open>ParseRange\<close> leaves the range of \<open>int64\<close>.
\<close>

section \<open>Decimal numbers\<close>

definition digit_char :: "nat \<Rightarrow> char" where
  "digit_char d = char_of (d + 48)"

definition digit_val :: "char \<Rightarrow> nat option" where
  "digit_val c = (let n = of_char c :: nat in if 48 \<le> n \<and> n \<le> 57 then Some (n - 48) else None)"

fun parse_digits :: "nat \<Rightarrow> string \<Rightarrow> nat option" where
  "parse_digits acc [] = Some acc"
| "parse_digits acc (c # cs) = (case digit_val c of
       None \<Rightarrow> None
     | Some d \<Rightarrow> parse_digits (acc * 10 + d) cs)"

definition parse_unsigned :: "string \<Rightarrow> nat option" where
  "parse_unsigned s = (if s = [] then None else parse_digits 0 s)"

text \<open>\<open>strconv.ParseInt(s, 10, 64)\<close>; \<open>None\<close> is a syntax or range error.\<close>

definition ParseInt :: "string \<Rightarrow> int option" where
  "ParseInt s = (case s of
       [] \<Rightarrow> None
     | c # cs \<Rightarrow>
         (let neg = (c = CHR ''-'');
              digits = (if c = CHR ''+'' \<or> c = CHR ''-'' then cs else s) in
          case parse_unsigned digits of
            None \<Rightarrow> None
          | Some n \<Rightarrow>
              if \<not> neg \<and> n < 2 ^ 63 then Some (int n)
              else if neg \<and> n \<le> 2 ^ 63 then Some (- int n) else None))"

text \<open>The verb \<open>%d\<close>.\<close>

fun show_nat :: "nat \<Rightarrow> string" where
  "show_nat n = (if n < 10 then [digit_char n] else show_nat (n div 10) @ [digit_char (n mod 10)])"

definition show_int :: "int \<Rightarrow> string" where
  "show_int i = (if i < 0 then CHR ''-'' # show_nat (nat (- i)) else show_nat (nat i))"

declare show_nat.simps [simp del]

section \<open>Contexts\<close>

datatype payload = Text string | Json "(string \<times> string) list" | Bytes "byte list"

record ctx =
  cStatus :: nat
  header :: "string \<rightharpoonup> string"
  sentStatus :: "nat option"
  sentHeader :: "string \<rightharpoonup> string"
  sentBody :: "payload list"

definition NewContext :: ctx where
  "NewContext = \<lparr> cStatus = 0, header = Map.empty, sentStatus = None, sentHeader = Map.empty, sentBody = [] \<rparr>"

definition StatusCode :: "nat \<Rightarrow> ctx \<Rightarrow> ctx" where
  "StatusCode code c = c\<lparr> cStatus := code \<rparr>"

definition SetHeader :: "string \<Rightarrow> string \<Rightarrow> ctx \<Rightarrow> ctx" where
  "SetHeader k v c = c\<lparr> header := (header c)(k \<mapsto> v) \<rparr>"

definition SetContentType :: "string \<Rightarrow> ctx \<Rightarrow> ctx" where
  "SetContentType t c = SetHeader ''Content-Type'' t c"

definition WriteHeader :: "nat \<Rightarrow> ctx \<Rightarrow> ctx" where
  "WriteHeader code c = (case sentStatus c of
       Some _ \<Rightarrow> c
     | None \<Rightarrow> c\<lparr> sentStatus := Some code, sentHeader := header c \<rparr>)"

definition Write :: "payload \<Rightarrow> ctx \<Rightarrow> ctx" where
  "Write p c = (let c1 = WriteHeader 200 c in c1\<lparr> sentBody := sentBody c1 @ [p] \<rparr>)"

text \<open>\<open>Context.String\<close> with the text that \<open>Fprintf\<close> produces.\<close>

definition String :: "nat \<Rightarrow> string \<Rightarrow> ctx \<Rightarrow> ctx" where
  "String code message c =
     (let c1 = SetContentType ''text/plain'' (StatusCode code c) in
      Write (Text message) (WriteHeader (cStatus c1) c1))"

text \<open>\<open>Fprintf\<close> on a text that is passed as the format, without operands (\<open>doPrintf\<close> of Go's \<open>fmt\<close>): a verb has flags,
  an index, a width, a precision; there is no operand for it.  A verb is taken to be one byte.\<close>

fun parsenum :: "nat \<Rightarrow> bool \<Rightarrow> string \<Rightarrow> bool \<times> string" where
  "parsenum num isnum [] = (isnum, [])"
| "parsenum num isnum (c # cs) = (case digit_val c of
       None \<Rightarrow> (isnum, c # cs)
     | Some v \<Rightarrow> if 1000000 < num then (False, []) else parsenum (num * 10 + v) True cs)"

text \<open>The rest, whether an index was found, and whether operand numbers are still good.\<close>

definition argNumber :: "string \<Rightarrow> string \<times> bool \<times> bool" where
  "argNumber s =
     (if s = [] \<or> hd s \<noteq> CHR ''['' then (s, False, True)
      else let inner = takeWhile (\<lambda>x. x \<noteq> CHR '']'') (tl s) in
        if length s < 3 \<or> length inner = length (tl s) then (tl s, False, False)
        else (drop (length inner + 2) s, parsenum 0 False inner = (True, []), False))"

text \<open>The parts of a verb; each takes and returns the output so far, the rest, and the two flags.\<close>

type_synonym verb_state = "string \<times> string \<times> bool \<times> bool"

definition verb_index :: "verb_state \<Rightarrow> verb_state" where
  "verb_index v = (case v of (out, s, found, good) \<Rightarrow> case argNumber s of (r, f, g) \<Rightarrow> (out, r, f, good \<and> g))"

definition verb_width :: "verb_state \<Rightarrow> verb_state" where
  "verb_width v = (case v of (out, s, found, good) \<Rightarrow>
     if s \<noteq> [] \<and> hd s = CHR ''*'' then (out @ ''%!(BADWIDTH)'', tl s, False, good)
     else case parsenum 0 False s of (wid, r) \<Rightarrow> (out, r, found, good \<and> \<not> (found \<and> wid)))"

definition verb_prec :: "verb_state \<Rightarrow> verb_state" where
  "verb_prec v = (case v of (out, s, found, good) \<Rightarrow>
     if s \<noteq> [] \<and> hd s = CHR ''.'' then
       (case verb_index (out, tl s, False, good \<and> \<not> found) of (out1, r, f, g) \<Rightarrow>
          if r \<noteq> [] \<and> hd r = CHR ''*'' then (out1 @ ''%!(BADPREC)'', tl r, False, g)
          else (out1, snd (parsenum 0 False r), f, g))
     else v)"

definition verb_end :: "verb_state \<Rightarrow> string \<times> string" where
  "verb_end v = (case v of (out, s, found, good) \<Rightarrow>
     if s = [] then (out @ ''%!(NOVERB)'', [])
     else (out @ (if hd s = CHR ''%'' then ''%''
        else ''%!'' @ [hd s] @ (if good then ''(MISSING)'' else ''(BADINDEX)'')), tl s))"

definition printf_verb :: "string \<Rightarrow> string \<times> string" where
  "printf_verb s =
     (let v = verb_prec (verb_width (verb_index ('''', dropWhile (\<lambda>c. c \<in> set ''#0+- '') s, False, True)))
      in verb_end (if fst (snd (snd v)) then v else verb_index v))"

lemma parsenum_length: "length (snd (parsenum n b s)) \<le> length s"
  by (induction n b s rule: parsenum.induct) (auto split: option.splits)

lemma argNumber_length: "length (fst (argNumber s)) \<le> length s"
  by (simp add: argNumber_def Let_def)

lemma verb_lengths:
  "length (fst (snd (verb_index v))) \<le> length (fst (snd v))" "length (fst (snd (verb_width v))) \<le> length (fst (snd v))"
  "length (snd (verb_end v)) \<le> length (fst (snd v))"
  using argNumber_length[of "fst (snd v)"] parsenum_length[of 0 False "fst (snd v)"]
  by (auto simp: verb_index_def verb_width_def verb_end_def split: prod.splits)

lemma verb_prec_length: "length (fst (snd (verb_prec v))) \<le> length (fst (snd v))"
proof -
  obtain out s found good where v: "v = (out, s, found, good)" by (cases v)
  obtain o1 r f g where i: "verb_index (out, tl s, False, good \<and> \<not> found) = (o1, r, f, g)" by (metis prod_cases4)
  have "length r \<le> length (tl s)" using verb_lengths(1)[of "(out, tl s, False, good \<and> \<not> found)"] i by simp
  then show ?thesis using i parsenum_length[of 0 False r] by (auto simp: verb_prec_def v)
qed

lemma printf_verb_length: "length (snd (printf_verb s)) \<le> length s"
proof -
  define x :: verb_state where "x = ('''', dropWhile (\<lambda>c. c \<in> set ''#0+- '') s, False, True)"
  define v where "v = verb_prec (verb_width (verb_index x))"
  have "length (fst (snd v)) \<le> length (fst (snd x))"
    unfolding v_def by (rule order_trans[OF verb_prec_length order_trans[OF verb_lengths(2) verb_lengths(1)]])
  also have "\<dots> \<le> length s" by (simp add: x_def length_dropWhile_le)
  finally have "length (snd (verb_end v)) \<le> length s" "length (snd (verb_end (verb_index v))) \<le> length s"
    using verb_lengths(3)[of v] verb_lengths(3)[of "verb_index v"] verb_lengths(1)[of v] by linarith+
  then show ?thesis unfolding printf_verb_def Let_def x_def[symmetric] v_def[symmetric] by simp
qed

function sprintf0 :: "string \<Rightarrow> string" where
  "sprintf0 [] = []"
| "sprintf0 (c # cs) =
     (if c \<noteq> CHR ''%'' then c # sprintf0 cs else fst (printf_verb cs) @ sprintf0 (snd (printf_verb cs)))"
  by pat_completeness auto
termination
  by (relation "measure length") (auto simp: less_Suc_eq_le printf_verb_length)

lemma sprintf0_plain: "CHR ''%'' \<notin> set s \<Longrightarrow> sprintf0 s = s"
  by (induction s) auto

text \<open>\<open>Context.JSON\<close> for a map of strings, whose encoding cannot fail.\<close>

definition JSON :: "nat \<Rightarrow> (string \<times> string) list \<Rightarrow> ctx \<Rightarrow> ctx" where
  "JSON code h c =
     (let c1 = SetContentType ''application/JSON'' (StatusCode code c) in
      Write (Json h) (WriteHeader (cStatus c1) c1))"

section \<open>Queries\<close>

text \<open>\<open>url.QueryUnescape\<close>; \<open>None\<close> is a malformed escape.\<close>

definition hex_val :: "char \<Rightarrow> nat option" where
  "hex_val c = (let n = of_char c :: nat in
     if 48 \<le> n \<and> n \<le> 57 then Some (n - 48)
     else if 97 \<le> n \<and> n \<le> 102 then Some (n - 87)
     else if 65 \<le> n \<and> n \<le> 70 then Some (n - 55) else None)"

fun QueryUnescape :: "string \<Rightarrow> string option" where
  "QueryUnescape [] = Some []"
| "QueryUnescape (x # xs) =
     (if x = CHR ''%'' then
        (case xs of
           a # b # ys \<Rightarrow>
             (case (hex_val a, hex_val b) of
                (Some h, Some l) \<Rightarrow> map_option (\<lambda>r. char_of (16 * h + l) # r) (QueryUnescape ys)
              | _ \<Rightarrow> None)
         | _ \<Rightarrow> None)
      else map_option (\<lambda>r. (if x = CHR ''+'' then CHR '' '' else x) # r) (QueryUnescape xs))"

text \<open>\<open>url.ParseQuery\<close> on the parts between the ampersands: a part with a semicolon or a malformed escape is
  left out.\<close>

fun parse_query :: "string list \<Rightarrow> (string \<times> string) list" where
  "parse_query [] = []"
| "parse_query (p # ps) =
     (if p = [] \<or> CHR '';'' \<in> set p then parse_query ps
      else case (QueryUnescape (takeWhile (\<lambda>c. c \<noteq> CHR ''='') p), QueryUnescape (drop 1 (dropWhile (\<lambda>c. c \<noteq> CHR ''='') p))) of
        (Some k, Some v) \<Rightarrow> (k, v) # parse_query ps
      | _ \<Rightarrow> parse_query ps)"

text \<open>\<open>Context.Query\<close> on the raw query of the request: the first value, or the empty string.\<close>

definition Query :: "string \<Rightarrow> string \<Rightarrow> string" where
  "Query raw queryString = (case map_of (parse_query (split_on (CHR ''&'') raw)) queryString of
       Some v \<Rightarrow> v | None \<Rightarrow> [])"

text \<open>Host, path and raw query of an absolute \<open>http://\<close> URL without a fragment and with a path that needs no
  escapes, as the program builds them.\<close>

definition url_parts :: "string \<Rightarrow> string \<times> string \<times> string" where
  "url_parts url =
     (let r = drop 7 url; rest = dropWhile (\<lambda>c. c \<noteq> CHR ''/'') r in
      (takeWhile (\<lambda>c. c \<noteq> CHR ''/'') r, takeWhile (\<lambda>c. c \<noteq> CHR ''?'') rest,
       drop 1 (dropWhile (\<lambda>c. c \<noteq> CHR ''?'') rest)))"

section \<open>Range headers\<close>

record range =
  Start :: int
  End :: int

datatype 'a parsed = ParsePanic | ParseError | ParseOk 'a

definition parse_part :: "int \<Rightarrow> string \<Rightarrow> (int \<times> int) option" where
  "parse_part sz r =
     (case split_on (CHR ''-'') r of
        [a] \<Rightarrow> map_option (\<lambda>start. (start, sz - 1)) (ParseInt a)
      | [a, b] \<Rightarrow>
          if a = [] then map_option (\<lambda>e. (sz - e, sz - 1)) (ParseInt b)
          else if b = [] then map_option (\<lambda>start. (start, sz - 1)) (ParseInt a)
          else (case ParseInt a of
              None \<Rightarrow> None
            | Some start \<Rightarrow> (case ParseInt b of
                None \<Rightarrow> None
              | Some e \<Rightarrow> if e < start then None else Some (start, e)))
      | _ \<Rightarrow> None)"

fun parse_parts :: "int \<Rightarrow> string list \<Rightarrow> range list option" where
  "parse_parts sz [] = Some []"
| "parse_parts sz (r # rs) = (case parse_part sz r of
       None \<Rightarrow> None
     | Some (start, e) \<Rightarrow>
         if start \<ge> sz \<or> e \<ge> sz then None
         else map_option (\<lambda>result. \<lparr> Start = start, End = e + 1 \<rparr> # result) (parse_parts sz rs))"

definition ParseRange :: "int \<Rightarrow> string \<Rightarrow> range list parsed" where
  "ParseRange sz rangeHeader =
     (if rangeHeader = [] then ParseOk []
      else case slice_to rangeHeader 6 of
        None \<Rightarrow> ParsePanic
      | Some p \<Rightarrow>
          if p \<noteq> ''bytes='' then ParseError
          else (case parse_parts sz (split_on (CHR '','') (drop 6 rangeHeader)) of
              None \<Rightarrow> ParseError
            | Some rs \<Rightarrow> ParseOk rs))"

section \<open>Dispatch\<close>

text \<open>\<open>addRoute\<close> and \<open>ServeHTTP\<close>; the key is the method followed by the path.\<close>

definition addRoute :: "string \<Rightarrow> string \<Rightarrow> 'h \<Rightarrow> (string \<rightharpoonup> 'h) \<Rightarrow> (string \<rightharpoonup> 'h)" where
  "addRoute meth path handler routes = routes(meth @ path \<mapsto> handler)"

definition ServeHTTP ::
  "(string \<rightharpoonup> 'h) \<Rightarrow> ('h \<Rightarrow> ctx \<Rightarrow> 's \<Rightarrow> ('s, ctx) outcome) \<Rightarrow> string \<Rightarrow> string \<Rightarrow> 's \<Rightarrow> ('s, ctx) outcome" where
  "ServeHTTP routes run meth path s = (case routes (meth @ path) of
       Some handler \<Rightarrow> run handler (SetHeader ''Content-Type'' ''text/plain'' NewContext) s
     | None \<Rightarrow> Ret s (Write (Text ''NOT FOUND'') (WriteHeader 404 NewContext)))"

text \<open>What a router promises: it runs the handler of a registered method and path, and answers 404 to everything else without
  a change of its state; so what holds after every handler holds after every request.\<close>

locale dispatcher =
  fixes routes :: "string \<rightharpoonup> 'h" and run :: "'h \<Rightarrow> ctx \<Rightarrow> 's \<Rightarrow> ('s, ctx) outcome"
    and serve :: "string \<Rightarrow> string \<Rightarrow> 's \<Rightarrow> ('s, ctx) outcome"
  assumes dispatch: "serve meth path s = ServeHTTP routes run meth path s"
begin

lemma routed:
  "routes (meth @ path) = Some h \<Longrightarrow> serve meth path s = run h (SetHeader ''Content-Type'' ''text/plain'' NewContext) s"
  by (simp add: dispatch ServeHTTP_def)

lemma unrouted: "routes (meth @ path) = None \<Longrightarrow> serve meth path s = Ret s (Write (Text ''NOT FOUND'') (WriteHeader 404 NewContext))"
  by (simp add: dispatch ServeHTTP_def)

lemma every_request: "(\<And>h c. P (run h c s)) \<Longrightarrow> (\<And>c. P (Ret s c)) \<Longrightarrow> P (serve meth path s)"
  by (cases "routes (meth @ path)") (simp_all add: routed unrouted)

end

section \<open>Reading back what was printed\<close>

lemma digit_val_char [simp]: "d < 10 \<Longrightarrow> digit_val (digit_char d) = Some d"
  by (simp add: digit_val_def digit_char_def Let_def)

lemma parse_digits_append:
  "parse_digits acc (xs @ ys) = (case parse_digits acc xs of None \<Rightarrow> None | Some n \<Rightarrow> parse_digits n ys)"
  by (induction xs arbitrary: acc) (auto split: option.split)

lemma show_nat_not_Nil [simp]: "show_nat n \<noteq> []"
  by (subst show_nat.simps) simp

lemma show_int_of_nat: "show_int (int n) = show_nat n"
  by (simp add: show_int_def)

lemma parse_show_nat: "parse_digits 0 (show_nat n) = Some n"
proof (induction n rule: show_nat.induct)
  case (1 n)
  then show ?case
    by (subst show_nat.simps) (auto simp: parse_digits_append)
qed

lemma digit_char_bounds: "d < 10 \<Longrightarrow> 48 \<le> (of_char (digit_char d) :: nat) \<and> (of_char (digit_char d) :: nat) \<le> 57"
  by (simp add: digit_char_def)

lemma set_show_nat: "c \<in> set (show_nat n) \<Longrightarrow> \<exists>d < 10. c = digit_char d"
proof (induction n rule: show_nat.induct)
  case (1 n)
  show ?case
  proof (cases "n < 10")
    case True
    with 1 show ?thesis by (subst (asm) show_nat.simps) auto
  next
    case False
    then have "show_nat n = show_nat (n div 10) @ [digit_char (n mod 10)]" by (subst show_nat.simps) simp
    then have "c \<in> set (show_nat (n div 10)) \<or> c = digit_char (n mod 10)" using "1.prems" by auto
    moreover have "n mod 10 < 10" by simp
    ultimately show ?thesis using "1.IH"[OF False] by blast
  qed
qed

lemma digit_not_special:
  assumes "d < 10"
  shows "digit_char d \<noteq> CHR ''-''" "digit_char d \<noteq> CHR ''+''" "digit_char d \<noteq> CHR '',''"
  using digit_char_bounds[OF assms] by auto

lemma show_nat_chars: "CHR ''-'' \<notin> set (show_nat n)" "CHR ''+'' \<notin> set (show_nat n)" "CHR '','' \<notin> set (show_nat n)"
  using set_show_nat digit_not_special by metis+

lemma ParseInt_show_nat: "n < 2 ^ 63 \<Longrightarrow> ParseInt (show_nat n) = Some (int n)"
  using parse_show_nat[of n] show_nat_chars[of n]
  by (cases "show_nat n") (auto simp: ParseInt_def parse_unsigned_def Let_def)

section \<open>What a query value becomes on the way\<close>

text \<open>Characters that a query carries unescaped, except that \<open>+\<close> arrives as a blank.\<close>

definition plain_query :: "string \<Rightarrow> bool" where
  "plain_query v \<longleftrightarrow> set v \<inter> {CHR ''%'', CHR ''&'', CHR '';''} = {}"

definition blanked :: "string \<Rightarrow> string" where
  "blanked v = replace_all (CHR ''+'') (CHR '' '') v"

lemma QueryUnescape_plain: "CHR ''%'' \<notin> set v \<Longrightarrow> QueryUnescape v = Some (blanked v)"
  by (induction v) (auto simp: blanked_def replace_all_def)

lemma blanked_id: "CHR ''+'' \<notin> set v \<Longrightarrow> blanked v = v"
  by (induction v) (auto simp: blanked_def replace_all_def)

lemma blanked_changes: "CHR ''+'' \<in> set v \<Longrightarrow> CHR '' '' \<in> set (blanked v)"
  by (force simp: blanked_def replace_all_def)

text \<open>One parameter \<open>k=v\<close> of a query.\<close>

lemma cut_param:
  assumes "CHR ''='' \<notin> set k"
  shows "takeWhile (\<lambda>c. c \<noteq> CHR ''='') (k @ CHR ''='' # v) = k"
    "drop 1 (dropWhile (\<lambda>c. c \<noteq> CHR ''='') (k @ CHR ''='' # v)) = v"
  using assms by (induction k) auto

lemma parse_query_param:
  assumes "set k \<inter> {CHR ''='', CHR ''+'', CHR ''%'', CHR '';''} = {}" "plain_query v"
  shows "parse_query ((k @ CHR ''='' # v) # ps) = (k, blanked v) # parse_query ps"
proof -
  have k: "CHR ''='' \<notin> set k" "CHR ''+'' \<notin> set k" "CHR ''%'' \<notin> set k" "CHR '';'' \<notin> set k" using assms(1) by auto
  have v: "CHR ''%'' \<notin> set v" "CHR '';'' \<notin> set v" using assms(2) by (auto simp: plain_query_def)
  show ?thesis
    using QueryUnescape_plain[OF k(3)] QueryUnescape_plain[OF v(1)] blanked_id[OF k(2)] k(4) v(2)
    unfolding parse_query.simps cut_param[OF k(1)] by simp
qed

lemma Query_one:
  assumes "set k \<inter> {CHR ''='', CHR ''+'', CHR ''%'', CHR ''&'', CHR '';''} = {}" "plain_query v"
  shows "Query (k @ CHR ''='' # v) k = blanked v"
proof -
  have "CHR ''&'' \<notin> set (k @ CHR ''='' # v)" using assms by (auto simp: plain_query_def)
  then show ?thesis
    using parse_query_param[of k v "[]"] assms by (simp add: Query_def split_on_no_sep)
qed

lemma Query_first:
  assumes "set k \<inter> {CHR ''='', CHR ''+'', CHR ''%'', CHR ''&'', CHR '';''} = {}" "plain_query v"
  shows "Query (k @ CHR ''='' # v @ CHR ''&'' # rest) k = blanked v"
proof -
  have "CHR ''&'' \<notin> set (k @ CHR ''='' # v)" using assms by (auto simp: plain_query_def)
  then have "split_on (CHR ''&'') (k @ CHR ''='' # v @ CHR ''&'' # rest) = (k @ CHR ''='' # v) # split_on (CHR ''&'') rest"
    using split_on_append_sep[of "CHR ''&''" "k @ CHR ''='' # v" rest] by (simp add: split_on_no_sep)
  then show ?thesis using parse_query_param[of k v] assms by (simp add: Query_def)
qed

lemma url_parts_query:
  assumes "CHR ''/'' \<notin> set host" "CHR ''?'' \<notin> set path"
  shows "url_parts (''http://'' @ host @ (CHR ''/'' # path) @ CHR ''?'' # raw) = (host, CHR ''/'' # path, raw)"
proof -
  have "dropWhile (\<lambda>c. c \<noteq> CHR ''/'') (host @ (CHR ''/'' # path) @ CHR ''?'' # raw) = (CHR ''/'' # path) @ CHR ''?'' # raw"
    "takeWhile (\<lambda>c. c \<noteq> CHR ''/'') (host @ (CHR ''/'' # path) @ CHR ''?'' # raw) = host"
    using assms(1) by (induction host) auto
  moreover have "takeWhile (\<lambda>c. c \<noteq> CHR ''?'') ((CHR ''/'' # path) @ CHR ''?'' # raw) = CHR ''/'' # path"
    "drop 1 (dropWhile (\<lambda>c. c \<noteq> CHR ''?'') ((CHR ''/'' # path) @ CHR ''?'' # raw)) = raw"
    using assms(2) by (induction path) auto
  ultimately show ?thesis by (simp add: url_parts_def Let_def)
qed

section \<open>Properties\<close>

lemma parse_part_pair:
  assumes "a < 2 ^ 63" "b < 2 ^ 63" "a \<le> b"
  shows "parse_part sz (show_nat a @ CHR ''-'' # show_nat b) = Some (int a, int b)"
  using assms
  by (simp add: parse_part_def split_on_append_sep split_on_no_sep show_nat_chars ParseInt_show_nat)

lemma slice_bytes: "slice_to (''bytes='' @ s) 6 = Some ''bytes=''"
  by (simp add: slice_to_def)

lemma drop_bytes: "drop 6 (''bytes='' @ s) = s"
  by simp

lemma ParseRange_one:
  assumes "CHR '','' \<notin> set s"
  shows "ParseRange sz (''bytes='' @ s) =
    (case parse_parts sz [s] of None \<Rightarrow> ParseError | Some rs \<Rightarrow> ParseOk rs)"
  unfolding ParseRange_def slice_bytes drop_bytes split_on_no_sep[OF assms] by simp

lemma parse_parts_sound:
  "parse_parts sz ps = Some rs \<Longrightarrow> r \<in> set rs \<Longrightarrow>
   Start r < sz \<and> End r \<le> sz \<and> (0 \<le> sz \<longrightarrow> Start r < End r)"
proof (induction ps arbitrary: rs)
  case (Cons p ps)
  obtain a b rs' where p: "parse_part sz p = Some (a, b)" "a < sz" "b < sz"
    "parse_parts sz ps = Some rs'" "rs = \<lparr> Start = a, End = b + 1 \<rparr> # rs'"
    using Cons.prems(1) by (auto split: option.splits if_splits)
  have "a \<le> b"
    using p(1-3) by (auto simp: parse_part_def split: list.splits if_splits option.splits)
  with p Cons.IH[OF p(4)] Cons.prems(2) show ?case by auto
qed simp

lemma ParseRange_pair:
  assumes "a \<le> b" "int b < sz" "sz < 2 ^ 63"
  shows "ParseRange sz (''bytes='' @ show_nat a @ ''-'' @ show_nat b) =
    ParseOk [\<lparr> Start = int a, End = int b + 1 \<rparr>]"
proof -
  have "int b < int (2 ^ 63)" using assms by simp
  then have b: "b < 2 ^ 63" by (simp only: of_nat_less_iff)
  have a: "a < 2 ^ 63" by (rule le_less_trans[OF assms(1) b])
  have "CHR '','' \<notin> set (show_nat a @ CHR ''-'' # show_nat b)" by (simp add: show_nat_chars)
  from ParseRange_one[OF this, of sz] parse_part_pair[OF a b assms(1)] assms show ?thesis by simp
qed

text \<open>A range that ends behind the file is refused.\<close>

lemma ParseRange_outside:
  assumes "a \<le> b" "sz \<le> int b" "b < 2 ^ 63"
  shows "ParseRange sz (''bytes='' @ show_nat a @ ''-'' @ show_nat b) = ParseError"
proof -
  have a: "a < 2 ^ 63" by (rule le_less_trans[OF assms(1,3)])
  have "CHR '','' \<notin> set (show_nat a @ CHR ''-'' # show_nat b)" by (simp add: show_nat_chars)
  from ParseRange_one[OF this, of sz] parse_part_pair[OF a assms(3,1)] assms(2) show ?thesis by simp
qed

text \<open>C27. A range header that prints two positions inside the file is read back as exactly this interval,
  its end exclusive.\<close>
theorem ParseRange_round_trip:
  assumes "a \<le> b" "int b < sz" "sz < 2 ^ 63"
  shows "ParseRange sz (''bytes='' @ show_nat a @ ''-'' @ show_nat b) =
    ParseOk [\<lparr> Start = int a, End = int b + 1 \<rparr>]"
  using assms by (rule ParseRange_pair)

theorem ParseRange_round_trip_witness:
  "ParseRange 100 (''bytes='' @ show_nat 5 @ ''-'' @ show_nat 9) = ParseOk [\<lparr> Start = 5, End = 10 \<rparr>]"
  using ParseRange_round_trip[of 5 9 100] by simp

text \<open>C28. Every range \<open>ParseRange\<close> accepts is not empty and ends inside the file, but it may begin before
  the file: a suffix longer than the file is accepted with a negative start.  A header of fewer than six
  characters panics.\<close>
theorem ParseRange_bounds:
  assumes "ParseRange sz h = ParseOk rs" "0 \<le> sz" "0 < sz \<and> sz < int n \<and> n < 2 ^ 63" "t \<noteq> []" "length t < 6"
  shows "(\<forall>r \<in> set rs. Start r < End r \<and> End r \<le> sz) \<and>
    (\<exists>r. ParseRange sz (''bytes=-'' @ show_nat n) = ParseOk [r] \<and> Start r < 0) \<and>
    ParseRange sz t = ParsePanic"
proof -
  have rs: "\<forall>r \<in> set rs. Start r < End r \<and> End r \<le> sz"
    using assms(1,2) parse_parts_sound[of sz _ rs]
    by (auto simp: ParseRange_def split: if_splits option.splits)
  have "parse_part sz (CHR ''-'' # show_nat n) = Some (sz - int n, sz - 1)"
    using assms(3) split_on_append_sep[of "CHR ''-''" "[]" "show_nat n"]
    by (simp add: parse_part_def split_on_no_sep show_nat_chars ParseInt_show_nat)
  moreover have "CHR '','' \<notin> set (CHR ''-'' # show_nat n)" by (simp add: show_nat_chars)
  ultimately have "ParseRange sz (''bytes='' @ CHR ''-'' # show_nat n) =
      ParseOk [\<lparr> Start = sz - int n, End = sz \<rparr>]"
    using ParseRange_one[of "CHR ''-'' # show_nat n" sz] assms(3) by simp
  moreover have "ParseRange sz t = ParsePanic"
    using assms(4,5) by (simp add: ParseRange_def slice_to_def)
  ultimately show ?thesis using rs assms(3) by auto
qed

theorem ParseRange_bounds_witness:
  "(\<exists>r. ParseRange 10 (''bytes=-'' @ show_nat 20) = ParseOk [r] \<and> Start r < 0) \<and> ParseRange 10 ''x'' = ParsePanic"
  using ParseRange_bounds[of 10 "[]" "[]" 20 "''x''"] by (simp add: ParseRange_def)

end
