(* ===== verification/HashStore.thy ===== *)
theory HashStore
  imports Util
begin

text \<open>
  \<open>sdfs/hashstore.go\<close>: the content-addressed store of a storage node.

  \<open>s\<close> is a map to pointers that \<open>Get\<close> hands out, so the objects live in \<open>hs_files\<close> and
  \<open>hs_s\<close> holds indices.  \<open>hs_disk\<close> is the directory tree the node writes, path to content.
  \<open>digest\<close> stands for \<open>sha256\<close> (an argument: every statement holds for every digest
  function, or names what it needs of it).  What the operating system and the reader of an
  upload do is the argument \<open>hs_env\<close>: the name \<open>RandomString\<close> drew, whether \<open>Create\<close> and
  \<open>Rename\<close> succeed, the bytes the reader delivers and whether it ends with an error.

  \<open>hs_inv\<close> is the representation invariant; \<open>replicas\<close> abstracts a store to the multiset
  of the names it holds, one copy per reference.
\<close>

section \<open>Data\<close>

record hs_file =
  Hash :: string
  OpenCount :: i32
  ReplicaCount :: i32
  fileSize :: i64

record hash_store =
  hs_s :: "string \<rightharpoonup> nat"
  hs_Size :: i64
  hs_files :: "hs_file list"
  hs_disk :: "string \<rightharpoonup> byte list"

record hs_env =
  tmp_name :: string
  create_ok :: bool
  body :: "byte list"
  body_ok :: bool
  rename_ok :: bool

datatype hs_error = CreateFailed | ReadFailed | RenameFailed | HashNotFound | FileBusy

definition NewHashStore :: hash_store where
  "NewHashStore = \<lparr> hs_s = Map.empty, hs_Size = 0, hs_files = [], hs_disk = Map.empty \<rparr>"

definition GetSize :: "hash_store \<Rightarrow> i64" where
  "GetSize h = hs_Size h"

definition upd_hs :: "nat \<Rightarrow> (hs_file \<Rightarrow> hs_file) \<Rightarrow> hash_store \<Rightarrow> hash_store" where
  "upd_hs i g h = h\<lparr> hs_files := (hs_files h)[i := g (hs_files h ! i)] \<rparr>"

definition new_hs_file :: "string \<Rightarrow> i64 \<Rightarrow> hs_file" where
  "new_hs_file hsum sz = \<lparr> Hash = hsum, OpenCount = 0, ReplicaCount = 1, fileSize = sz \<rparr>"

section \<open>Operations\<close>

text \<open>\<open>Get\<close> hands out the pointer and counts one more reader; the handler that called it
  decrements \<open>OpenCount\<close> when it is done (\<open>Release\<close>).\<close>

definition HS_Get :: "string \<Rightarrow> hash_store \<Rightarrow> hash_store \<times> (hs_error + nat)" where
  "HS_Get hash h = (case hs_s h hash of
       Some i \<Rightarrow> (upd_hs i (OpenCount_update (\<lambda>c. c + 1)) h, Inr i)
     | None \<Rightarrow> (h, Inl HashNotFound))"

definition Release :: "nat \<Rightarrow> hash_store \<Rightarrow> hash_store" where
  "Release i h = upd_hs i (OpenCount_update (\<lambda>c. c - 1)) h"

text \<open>The name of an object: the digest in base64 with \<open>/\<close> replaced by \<open>_\<close>.\<close>

definition object_name :: "byte list \<Rightarrow> string" where
  "object_name d = replace_all (CHR ''/'') (CHR ''_'') (EncodeToString d)"

text \<open>The part of \<open>Add\<close> under the store's lock: \<open>sz\<close> bytes of digest name \<open>hsum\<close> lie in
  the temporary file.\<close>

definition Add_commit :: "hs_env \<Rightarrow> string \<Rightarrow> i64 \<Rightarrow> hash_store \<Rightarrow> hash_store \<times> (hs_error + string)" where
  "Add_commit env hsum sz h =
     (let tmpName = DataPathPrefix @ tmp_name env; n = DataPathPrefix @ hsum in
      case hs_s h hsum of
        Some i \<Rightarrow>
          (upd_hs i (ReplicaCount_update (\<lambda>c. c + 1))
             (h\<lparr> hs_disk := (hs_disk h)(tmpName := None) \<rparr>), Inr hsum)
      | None \<Rightarrow>
          if \<not> rename_ok env then (h, Inl RenameFailed)
          else
            (h\<lparr> hs_disk := (hs_disk h)(tmpName := None, n := hs_disk h tmpName),
                hs_s := (hs_s h)(hsum \<mapsto> length (hs_files h)),
                hs_files := hs_files h @ [new_hs_file hsum sz],
                hs_Size := hs_Size h + sz \<rparr>, Inr hsum))"

definition HS_Add :: "(byte list \<Rightarrow> byte list) \<Rightarrow> hs_env \<Rightarrow> hash_store \<Rightarrow> hash_store \<times> (hs_error + string)" where
  "HS_Add digest env h =
     (let tmpName = DataPathPrefix @ tmp_name env in
      if \<not> create_ok env then (h, Inl CreateFailed)
      else if \<not> body_ok env then (h\<lparr> hs_disk := (hs_disk h)(tmpName := None) \<rparr>, Inl ReadFailed)
      else
        let hsum = object_name (digest (body env));
            h1 = h\<lparr> hs_disk := (hs_disk h)(tmpName \<mapsto> body env) \<rparr> in
        Add_commit env hsum (of_nat (length (body env))) h1)"

definition AddLocal :: "string \<Rightarrow> i64 \<Rightarrow> hash_store \<Rightarrow> hash_store" where
  "AddLocal checksum sz h =
     h\<lparr> hs_s := (hs_s h)(checksum \<mapsto> length (hs_files h)),
        hs_files := hs_files h @ [new_hs_file checksum sz] \<rparr>"

definition HS_Remove :: "string \<Rightarrow> hash_store \<Rightarrow> hash_store \<times> (hs_error + unit)" where
  "HS_Remove hash h = (case hs_s h hash of
       Some i \<Rightarrow>
         let f = hs_files h ! i in
         if 1 < sint (ReplicaCount f) then (upd_hs i (ReplicaCount_update (\<lambda>c. c - 1)) h, Inr ())
         else if OpenCount f \<noteq> 0 then (h, Inl FileBusy)
         else (h\<lparr> hs_Size := hs_Size h - fileSize f, hs_s := (hs_s h)(hash := None) \<rparr>, Inr ())
     | None \<Rightarrow> (h, Inl HashNotFound))"

section \<open>Object names\<close>

lemma replace_all_inj_on:
  assumes "new \<notin> set xs" "new \<notin> set ys" "replace_all old new xs = replace_all old new ys"
  shows "xs = ys"
  using assms
proof (induction xs arbitrary: ys)
  case Nil
  then show ?case by (cases ys) (auto simp: replace_all_def)
next
  case (Cons x xs)
  then obtain y ys' where "ys = y # ys'" by (cases ys) (auto simp: replace_all_def)
  with Cons show ?case by (auto simp: replace_all_def split: if_splits)
qed

lemma underscore_free: "CHR ''_'' \<notin> set (EncodeToString d)"
  using set_EncodeToString[of d] by (auto simp: b64_alphabet_def pad_def)

lemma object_name_inj: "object_name d = object_name e \<longleftrightarrow> d = e"
  using replace_all_inj_on[OF underscore_free underscore_free] EncodeToString_inj
  unfolding object_name_def by blast

lemma object_name_no_slash: "CHR ''/'' \<notin> set (object_name d)"
  by (auto simp: object_name_def replace_all_def)

lemma length_object_name: "length (object_name d) = (length d + 2) div 3 * 4"
  by (simp add: object_name_def replace_all_def length_EncodeToString)

section \<open>Invariant and abstraction\<close>

text \<open>The digest functions the store is used with: \<open>sha256.Size\<close> is 32.\<close>

definition sha_sized :: "(byte list \<Rightarrow> byte list) \<Rightarrow> bool" where
  "sha_sized digest = (\<forall>b. length (digest b) = 32)"

definition live_size :: "hash_store \<Rightarrow> i64" where
  "live_size h = (\<Sum>k \<in> dom (hs_s h). fileSize (hs_files h ! the (hs_s h k)))"

definition entry_ok :: "(byte list \<Rightarrow> byte list) \<Rightarrow> hash_store \<Rightarrow> string \<Rightarrow> nat \<Rightarrow> bool" where
  "entry_ok digest h k i \<longleftrightarrow>
     i < length (hs_files h) \<and> Hash (hs_files h ! i) = k \<and> 0 < sint (ReplicaCount (hs_files h ! i)) \<and>
     (\<exists>c. hs_disk h (DataPathPrefix @ k) = Some c \<and> k = object_name (digest c) \<and>
          fileSize (hs_files h ! i) = of_nat (length c))"

definition hs_inv :: "(byte list \<Rightarrow> byte list) \<Rightarrow> hash_store \<Rightarrow> bool" where
  "hs_inv digest h \<longleftrightarrow>
     finite (dom (hs_s h)) \<and> hs_Size h = live_size h \<and>
     (\<forall>k i. hs_s h k = Some i \<longrightarrow> entry_ok digest h k i)"

definition copies :: "hash_store \<Rightarrow> string \<Rightarrow> nat" where
  "copies h k = (case hs_s h k of None \<Rightarrow> 0 | Some i \<Rightarrow> nat (sint (ReplicaCount (hs_files h ! i))))"

lemma hs_invI:
  "finite (dom (hs_s h)) \<Longrightarrow> hs_Size h = live_size h \<Longrightarrow>
   (\<And>k i. hs_s h k = Some i \<Longrightarrow> entry_ok digest h k i) \<Longrightarrow> hs_inv digest h"
  by (simp add: hs_inv_def)

lemma hs_inv_entry: "hs_inv digest h \<Longrightarrow> hs_s h k = Some i \<Longrightarrow> entry_ok digest h k i"
  by (simp add: hs_inv_def)

lemma hs_inv_finite: "hs_inv digest h \<Longrightarrow> finite (dom (hs_s h))"
  by (simp add: hs_inv_def)

lemma hs_inv_Size: "hs_inv digest h \<Longrightarrow> hs_Size h = live_size h"
  by (simp add: hs_inv_def)

lemma entry_ref_inj: "entry_ok digest h k i \<Longrightarrow> entry_ok digest h k' i \<Longrightarrow> k = k'"
  by (auto simp: entry_ok_def)

lemma hs_inv_ref_inj:
  "hs_inv digest h \<Longrightarrow> hs_s h k = Some i \<Longrightarrow> hs_s h k' = Some i \<Longrightarrow> k = k'"
  by (blast dest: hs_inv_entry entry_ref_inj)

lemma hs_inv_bound: "hs_inv digest h \<Longrightarrow> hs_s h k = Some i \<Longrightarrow> i < length (hs_files h)"
  by (drule (1) hs_inv_entry) (simp add: entry_ok_def)

lemma live_size_cong:
  assumes "\<And>k i. hs_s h k = Some i \<Longrightarrow> fileSize (fs ! i) = fileSize (hs_files h ! i)"
  shows "(\<Sum>k \<in> dom (hs_s h). fileSize (fs ! the (hs_s h k))) = live_size h"
  unfolding live_size_def
proof (rule sum.cong)
  fix k assume "k \<in> dom (hs_s h)"
  then show "fileSize (fs ! the (hs_s h k)) = fileSize (hs_files h ! the (hs_s h k))"
    using assms by auto
qed simp

lemma live_size_insert:
  assumes "finite (dom m)" "k \<notin> dom m"
  shows "(\<Sum>x \<in> dom (m(k \<mapsto> j)). fileSize (fs ! the ((m(k \<mapsto> j)) x))) =
         fileSize (fs ! j) + (\<Sum>x \<in> dom m. fileSize (fs ! the (m x)))"
proof -
  have "(\<Sum>x \<in> dom m. fileSize (fs ! the ((m(k \<mapsto> j)) x))) = (\<Sum>x \<in> dom m. fileSize (fs ! the (m x)))"
    using assms(2) by (intro sum.cong) auto
  with assms show ?thesis by simp
qed

lemma live_size_remove:
  assumes "finite (dom m)" "m k = Some j"
  shows "(\<Sum>x \<in> dom (m(k := None)). fileSize (fs ! the ((m(k := None)) x))) =
         (\<Sum>x \<in> dom m. fileSize (fs ! the (m x))) - fileSize (fs ! j)"
proof -
  have "(\<Sum>x \<in> dom m - {k}. fileSize (fs ! the ((m(k := None)) x))) =
        (\<Sum>x \<in> dom m - {k}. fileSize (fs ! the (m x)))"
    by (intro sum.cong) auto
  with assms show ?thesis by (simp add: sum_diff1 domI)
qed

lemma hs_inv_New: "hs_inv digest NewHashStore"
  by (simp add: hs_inv_def NewHashStore_def live_size_def)

section \<open>Preservation\<close>

lemma hs_inv_upd:
  assumes inv: "hs_inv digest h"
    and g: "Hash (g (hs_files h ! i)) = Hash (hs_files h ! i)"
      "fileSize (g (hs_files h ! i)) = fileSize (hs_files h ! i)"
    and pos: "\<And>k. hs_s h k = Some i \<Longrightarrow> 0 < sint (ReplicaCount (g (hs_files h ! i)))"
  shows "hs_inv digest (upd_hs i g h)"
proof (rule hs_invI)
  show "finite (dom (hs_s (upd_hs i g h)))"
    using hs_inv_finite[OF inv] by (simp add: upd_hs_def)
  have "fileSize ((hs_files h)[i := g (hs_files h ! i)] ! j) = fileSize (hs_files h ! j)"
    if "hs_s h k = Some j" for k j
    using g(2) hs_inv_bound[OF inv that] by (auto simp: nth_upd)
  from live_size_cong[of h, OF this]
  have "(\<Sum>k \<in> dom (hs_s h). fileSize ((hs_files h)[i := g (hs_files h ! i)] ! the (hs_s h k))) =
    live_size h" .
  with hs_inv_Size[OF inv] show "hs_Size (upd_hs i g h) = live_size (upd_hs i g h)"
    unfolding live_size_def[of "upd_hs i g h"] by (simp add: upd_hs_def)
next
  fix k j assume "hs_s (upd_hs i g h) k = Some j"
  then have "hs_s h k = Some j" by (simp add: upd_hs_def)
  with hs_inv_entry[OF inv this] pos[of k] g show "entry_ok digest (upd_hs i g h) k j"
    by (cases "j = i") (auto simp: entry_ok_def upd_hs_def)
qed

lemma hs_inv_disk:
  assumes inv: "hs_inv digest h" and p: "\<And>k. k \<in> dom (hs_s h) \<Longrightarrow> p \<noteq> DataPathPrefix @ k"
  shows "hs_inv digest (h\<lparr> hs_disk := (hs_disk h)(p := v) \<rparr>)"
proof (rule hs_invI)
  fix k i assume "hs_s (h\<lparr> hs_disk := (hs_disk h)(p := v) \<rparr>) k = Some i"
  then have k: "hs_s h k = Some i" by simp
  with p[of k] hs_inv_entry[OF inv k]
  show "entry_ok digest (h\<lparr> hs_disk := (hs_disk h)(p := v) \<rparr>) k i"
    by (auto simp: entry_ok_def)
qed (use inv in \<open>simp_all add: hs_inv_def live_size_def\<close>)

lemma live_name:
  assumes "hs_inv digest h" "k \<in> dom (hs_s h)"
  obtains c where "k = object_name (digest c)"
proof -
  obtain i where "hs_s h k = Some i" using assms(2) by auto
  from hs_inv_entry[OF assms(1) this] show thesis using that unfolding entry_ok_def by blast
qed

lemma tmp_not_object:
  assumes "sha_sized digest" "length t = 16"
  shows "t \<noteq> object_name (digest c)"
  using assms length_object_name[of "digest c"] by (auto simp: sha_sized_def)

lemma tmp_not_live:
  assumes "hs_inv digest h" "sha_sized digest" "length t = 16" "k \<in> dom (hs_s h)"
  shows "DataPathPrefix @ t \<noteq> DataPathPrefix @ k"
  using live_name[OF assms(1,4)] tmp_not_object[OF assms(2,3)] by auto

lemma hs_inv_create:
  assumes inv: "hs_inv digest h" and new: "hs_s h k = None"
    and c: "hs_disk h (DataPathPrefix @ k) = Some c" "k = object_name (digest c)"
  shows "hs_inv digest (h\<lparr> hs_s := (hs_s h)(k \<mapsto> length (hs_files h)),
     hs_files := hs_files h @ [new_hs_file k (of_nat (length c))],
     hs_Size := hs_Size h + of_nat (length c) \<rparr>)" (is "hs_inv digest ?h")
proof (rule hs_invI)
  show "finite (dom (hs_s ?h))" using hs_inv_finite[OF inv] by simp
  let ?fs = "hs_files h @ [new_hs_file k (of_nat (length c))]"
  have "fileSize (?fs ! i) = fileSize (hs_files h ! i)" if "hs_s h x = Some i" for x i
    using hs_inv_bound[OF inv that] by (simp add: nth_append)
  from live_size_cong[OF this] have "(\<Sum>x \<in> dom (hs_s h). fileSize (?fs ! the (hs_s h x))) = live_size h" .
  moreover have "fileSize (?fs ! length (hs_files h)) = of_nat (length c)"
    by (simp add: new_hs_file_def)
  ultimately have "live_size ?h = of_nat (length c) + live_size h"
    using live_size_insert[OF hs_inv_finite[OF inv], where k = k and j = "length (hs_files h)" and fs = ?fs] new
    unfolding live_size_def[of ?h] by (simp add: domIff del: dom_fun_upd)
  then show "hs_Size ?h = live_size ?h" using hs_inv_Size[OF inv] by simp
next
  fix x i assume x: "hs_s ?h x = Some i"
  show "entry_ok digest ?h x i"
  proof (cases "x = k")
    case True
    with x have "i = length (hs_files h)" by simp
    with True c show ?thesis by (simp add: entry_ok_def new_hs_file_def)
  next
    case False
    with x have x: "hs_s h x = Some i" by simp
    from hs_inv_entry[OF inv this] show ?thesis by (auto simp: entry_ok_def nth_append)
  qed
qed

lemma hs_inv_delete:
  assumes inv: "hs_inv digest h" and k: "hs_s h k = Some i"
  shows "hs_inv digest (h\<lparr> hs_Size := hs_Size h - fileSize (hs_files h ! i),
     hs_s := (hs_s h)(k := None) \<rparr>)" (is "hs_inv digest ?h")
proof (rule hs_invI)
  show "finite (dom (hs_s ?h))" using hs_inv_finite[OF inv] by simp
  show "hs_Size ?h = live_size ?h"
    using live_size_remove[OF hs_inv_finite[OF inv] k, of "hs_files h"] hs_inv_Size[OF inv]
    unfolding live_size_def by (simp del: dom_fun_upd)
next
  fix x j assume "hs_s ?h x = Some j"
  then have x: "hs_s h x = Some j" by (simp split: if_splits)
  from hs_inv_entry[OF inv x] show "entry_ok digest ?h x j" by (simp add: entry_ok_def)
qed

section \<open>What the operations do\<close>

lemma hs_s_upd_hs [simp]: "hs_s (upd_hs i g h) = hs_s h"
  by (simp add: upd_hs_def)

lemma copies_upd_other:
  assumes "hs_inv digest h" "hs_s h k = Some i" "x \<noteq> k"
  shows "copies (upd_hs i g h) x = copies h x"
proof -
  have "hs_s h x \<noteq> Some i" using hs_inv_ref_inj[OF assms(1,2)] assms(3) by blast
  then show ?thesis by (auto simp: copies_def upd_hs_def split: option.split)
qed

lemma copies_upd_same:
  assumes "hs_inv digest h" "hs_s h k = Some i"
  shows "copies (upd_hs i g h) k = nat (sint (ReplicaCount (g (hs_files h ! i))))"
  using hs_inv_bound[OF assms] assms(2) by (simp add: copies_def upd_hs_def)

lemma copies_upd_open: "copies (upd_hs i (OpenCount_update f) h) = copies h"
  by (rule ext) (auto simp: copies_def upd_hs_def nth_upd_total split: option.split)

lemma copies_disk [simp]: "copies (h\<lparr> hs_disk := d \<rparr>) = copies h"
  by (rule ext) (simp add: copies_def split: option.split)

lemma copies_pos: "hs_inv digest h \<Longrightarrow> 0 < copies h k \<longleftrightarrow> k \<in> dom (hs_s h)"
  by (auto simp: copies_def entry_ok_def dest: hs_inv_entry split: option.splits)

lemma sint_inc: "sint (c :: i32) < 2 ^ 31 - 1 \<Longrightarrow> sint (c + 1) = sint c + 1"
  using sint_ge[of c] by (simp add: sint_word_ariths(1) signed_take_bit_int_eq_self)

lemma sint_dec: "0 < sint (c :: i32) \<Longrightarrow> sint (c - 1) = sint c - 1"
  using sint_lt[of c] by (simp add: sint_word_ariths(2) signed_take_bit_int_eq_self)

lemma copies_create:
  assumes "hs_inv digest h" "hs_s h k = None"
  shows "copies (h\<lparr> hs_s := (hs_s h)(k \<mapsto> length (hs_files h)),
     hs_files := hs_files h @ [new_hs_file k z], hs_Size := v \<rparr>) = (copies h)(k := Suc (copies h k))"
proof (rule ext)
  fix x
  show "copies (h\<lparr> hs_s := (hs_s h)(k \<mapsto> length (hs_files h)),
     hs_files := hs_files h @ [new_hs_file k z], hs_Size := v \<rparr>) x =
     ((copies h)(k := Suc (copies h k))) x"
    using assms(2) hs_inv_bound[OF assms(1), of x]
    by (auto simp: copies_def new_hs_file_def nth_append split: option.split)
qed

lemma copies_upd:
  assumes "hs_inv digest h" "hs_s h k = Some i"
  shows "copies (upd_hs i g h) = (copies h)(k := nat (sint (ReplicaCount (g (hs_files h ! i)))))"
  using copies_upd_other[OF assms] copies_upd_same[OF assms] by (intro ext) auto

lemma copies_Some:
  "hs_inv digest h \<Longrightarrow> hs_s h k = Some i \<Longrightarrow>
   int (copies h k) = sint (ReplicaCount (hs_files h ! i)) \<and> 0 < copies h k"
  by (frule (1) hs_inv_entry) (simp add: copies_def entry_ok_def)

lemma hs_inv_drop_tmp:
  assumes "hs_inv digest h" "sha_sized digest" "length t = 16"
  shows "hs_inv digest (h\<lparr> hs_disk := (hs_disk h)(DataPathPrefix @ t := v) \<rparr>)"
  using hs_inv_disk[OF assms(1)] tmp_not_live[OF assms] by blast

text \<open>A digest name that is stored once more.\<close>

lemma Add_commit_new:
  assumes inv: "hs_inv digest h" and sha: "sha_sized digest" and t: "length (tmp_name env) = 16"
    and ok: "rename_ok env" and new: "hs_s h k = None"
    and c: "hs_disk h (DataPathPrefix @ tmp_name env) = Some c" "k = object_name (digest c)"
  obtains h' where "Add_commit env k (of_nat (length c)) h = (h', Inr k)" "hs_inv digest h'"
    "copies h' = (copies h)(k := Suc (copies h k))"
proof -
  let ?t = "DataPathPrefix @ tmp_name env" and ?n = "DataPathPrefix @ k"
  let ?h0 = "h\<lparr> hs_disk := (hs_disk h)(?t := None) \<rparr>"
  let ?h1 = "h\<lparr> hs_disk := (hs_disk h)(?t := None, ?n := Some c) \<rparr>"
  have "?n \<noteq> DataPathPrefix @ x" if "x \<in> dom (hs_s ?h0)" for x using that new by auto
  from hs_inv_disk[OF hs_inv_drop_tmp[OF inv sha t, of None] this, where v = "Some c"]
  have inv1: "hs_inv digest ?h1" by simp
  show thesis
  proof (rule that)
    show "Add_commit env k (of_nat (length c)) h =
      (?h1\<lparr> hs_s := (hs_s ?h1)(k \<mapsto> length (hs_files ?h1)),
          hs_files := hs_files ?h1 @ [new_hs_file k (of_nat (length c))],
          hs_Size := hs_Size ?h1 + of_nat (length c) \<rparr>, Inr k)"
      by (simp add: Add_commit_def Let_def ok c(1) new)
    show "hs_inv digest (?h1\<lparr> hs_s := (hs_s ?h1)(k \<mapsto> length (hs_files ?h1)),
          hs_files := hs_files ?h1 @ [new_hs_file k (of_nat (length c))],
          hs_Size := hs_Size ?h1 + of_nat (length c) \<rparr>)"
      by (rule hs_inv_create[OF inv1]) (use new c in simp_all)
    show "copies (?h1\<lparr> hs_s := (hs_s ?h1)(k \<mapsto> length (hs_files ?h1)),
          hs_files := hs_files ?h1 @ [new_hs_file k (of_nat (length c))],
          hs_Size := hs_Size ?h1 + of_nat (length c) \<rparr>) = (copies h)(k := Suc (copies h k))"
      by (subst copies_create[OF inv1]) (simp_all add: new)
  qed
qed

lemma Add_commit_again:
  assumes inv: "hs_inv digest h" and sha: "sha_sized digest" and t: "length (tmp_name env) = 16"
    and old: "hs_s h k = Some i" and cnt: "copies h k < 2 ^ 31 - 1"
  obtains h' where "Add_commit env k z h = (h', Inr k)" "hs_inv digest h'"
    "copies h' = (copies h)(k := Suc (copies h k))"
proof -
  let ?h1 = "h\<lparr> hs_disk := (hs_disk h)(DataPathPrefix @ tmp_name env := None) \<rparr>"
  let ?g = "ReplicaCount_update (\<lambda>c. c + 1)"
  have inv1: "hs_inv digest ?h1" by (rule hs_inv_drop_tmp[OF inv sha t])
  note n = copies_Some[OF inv old]
  with cnt have s: "sint (ReplicaCount (hs_files h ! i) + 1) = sint (ReplicaCount (hs_files h ! i)) + 1"
    by (intro sint_inc) simp
  show thesis
  proof (rule that)
    show "Add_commit env k z h = (upd_hs i ?g ?h1, Inr k)"
      by (simp add: Add_commit_def Let_def old)
    show "hs_inv digest (upd_hs i ?g ?h1)"
      using n s by (intro hs_inv_upd[OF inv1]) simp_all
    have "hs_s ?h1 k = Some i" using old by simp
    moreover have "nat (sint (ReplicaCount (hs_files h ! i)) + 1) = Suc (copies h k)"
      using n by linarith
    ultimately show "copies (upd_hs i ?g ?h1) = (copies h)(k := Suc (copies h k))"
      using copies_upd[OF inv1, of k i ?g] s by simp
  qed
qed

lemma HS_Add_ok:
  assumes inv: "hs_inv digest h" and sha: "sha_sized digest" and t: "length (tmp_name env) = 16"
    and ok: "create_ok env" "body_ok env"
      "rename_ok env \<or> hs_s h (object_name (digest (body env))) \<noteq> None"
    and cnt: "copies h (object_name (digest (body env))) < 2 ^ 31 - 1"
  obtains h' where "HS_Add digest env h = (h', Inr (object_name (digest (body env))))"
    "hs_inv digest h'"
    "copies h' = (copies h)(object_name (digest (body env)) :=
       Suc (copies h (object_name (digest (body env)))))"
proof -
  let ?k = "object_name (digest (body env))"
  let ?h1 = "h\<lparr> hs_disk := (hs_disk h)(DataPathPrefix @ tmp_name env \<mapsto> body env) \<rparr>"
  have inv1: "hs_inv digest ?h1" by (rule hs_inv_drop_tmp[OF inv sha t])
  have run: "HS_Add digest env h = Add_commit env ?k (of_nat (length (body env))) ?h1"
    using ok(1,2) by (simp add: HS_Add_def Let_def)
  show thesis
  proof (cases "hs_s h ?k")
    case None
    then have "hs_s ?h1 ?k = None" by simp
    moreover have "rename_ok env" using ok(3) None by simp
    ultimately obtain h' where
      "Add_commit env ?k (of_nat (length (body env))) ?h1 = (h', Inr ?k)" "hs_inv digest h'"
      "copies h' = (copies ?h1)(?k := Suc (copies ?h1 ?k))"
      using Add_commit_new[OF inv1 sha t, of ?k "body env"] by auto
    with run show thesis by (intro that) simp_all
  next
    case (Some i)
    then have "hs_s ?h1 ?k = Some i" by simp
    from Add_commit_again[OF inv1 sha t this] cnt obtain h' where
      "Add_commit env ?k (of_nat (length (body env))) ?h1 = (h', Inr ?k)" "hs_inv digest h'"
      "copies h' = (copies ?h1)(?k := Suc (copies ?h1 ?k))" by auto
    with run show thesis by (intro that) simp_all
  qed
qed

lemma HS_Add_error:
  assumes inv: "hs_inv digest h" and sha: "sha_sized digest" and t: "length (tmp_name env) = 16"
    and r: "HS_Add digest env h = (h', Inl e)"
  shows "hs_inv digest h' \<and> copies h' = copies h \<and> hs_s h' = hs_s h"
  using r hs_inv_drop_tmp[OF inv sha t] inv
  by (auto simp: HS_Add_def Add_commit_def Let_def split: if_splits option.splits)

lemma hs_inv_open:
  assumes "hs_inv digest h"
  shows "hs_inv digest (upd_hs i (OpenCount_update f) h)"
proof (rule hs_inv_upd[OF assms])
  fix k assume "hs_s h k = Some i"
  from hs_inv_entry[OF assms this]
  show "0 < sint (ReplicaCount (OpenCount_update f (hs_files h ! i)))"
    by (simp add: entry_ok_def)
qed simp_all

lemma HS_Get_keeps:
  assumes "hs_inv digest h" "HS_Get k h = (h', r)"
  shows "hs_inv digest h' \<and> copies h' = copies h"
proof (cases "hs_s h k")
  case (Some i)
  with assms(2) have "h' = upd_hs i (OpenCount_update (\<lambda>c. c + 1)) h" by (simp add: HS_Get_def)
  then show ?thesis
    using hs_inv_open[OF assms(1)] by (simp add: copies_upd_open)
qed (use assms in \<open>simp add: HS_Get_def\<close>)

lemma Release_keeps:
  assumes "hs_inv digest h"
  shows "hs_inv digest (Release i h) \<and> copies (Release i h) = copies h"
  using hs_inv_open[OF assms] by (simp add: Release_def copies_upd_open)

lemma HS_Remove_ok:
  assumes inv: "hs_inv digest h" and r: "HS_Remove k h = (h', Inr u)"
  shows "hs_inv digest h' \<and> 0 < copies h k \<and> copies h' = (copies h)(k := copies h k - 1)"
proof (cases "hs_s h k")
  case None
  with r show ?thesis by (simp add: HS_Remove_def)
next
  case (Some i)
  let ?c = "ReplicaCount (hs_files h ! i)" and ?g = "ReplicaCount_update (\<lambda>c. c - 1)"
  note n = copies_Some[OF inv Some]
  show ?thesis
  proof (cases "1 < sint ?c")
    case True
    then have h': "h' = upd_hs i ?g h" using r Some by (simp add: HS_Remove_def Let_def)
    have s: "sint (?c - 1) = sint ?c - 1" using True by (intro sint_dec) simp
    have "hs_inv digest h'" unfolding h' using True s by (intro hs_inv_upd[OF inv]) simp_all
    moreover have "nat (sint ?c - 1) = copies h k - 1" using n by linarith
    ultimately show ?thesis
      using copies_upd[OF inv Some, of ?g] n s unfolding h' by simp
  next
    case False
    then have h': "h' = h\<lparr> hs_Size := hs_Size h - fileSize (hs_files h ! i), hs_s := (hs_s h)(k := None) \<rparr>"
      using r Some by (auto simp: HS_Remove_def Let_def split: if_splits)
    have "copies h k = 1" using n False by linarith
    moreover have "copies h' = (copies h)(k := 0)"
      unfolding h' by (rule ext) (simp add: copies_def split: option.split)
    ultimately show ?thesis using hs_inv_delete[OF inv Some] unfolding h' by simp
  qed
qed

lemma HS_Remove_error:
  "HS_Remove k h = (h', Inl e) \<Longrightarrow> h' = h"
  by (auto simp: HS_Remove_def Let_def split: option.splits if_splits)

section \<open>Reference counting over whole histories\<close>

text \<open>
  A component whose steps gain and lose references.  The client fact is the balance over any
  history; it needs every counter to stay below the limit of its machine type.
\<close>

fun run_steps :: "('op \<Rightarrow> 's \<Rightarrow> 's \<times> 'r) \<Rightarrow> 's \<Rightarrow> 'op list \<Rightarrow> 's \<times> 'r list" where
  "run_steps step s [] = (s, [])"
| "run_steps step s (op # ops) =
     (let (s1, r) = step op s; (s2, rs) = run_steps step s1 ops in (s2, r # rs))"

fun total :: "('op \<Rightarrow> 'r \<Rightarrow> 'k \<Rightarrow> nat) \<Rightarrow> 'op list \<Rightarrow> 'r list \<Rightarrow> 'k \<Rightarrow> nat" where
  "total f (op # ops) (r # rs) k = f op r k + total f ops rs k"
| "total f _ _ k = 0"

locale ref_counted =
  fixes step :: "'op \<Rightarrow> 's \<Rightarrow> 's \<times> 'r"
    and inv :: "'s \<Rightarrow> bool"
    and legal :: "'op \<Rightarrow> bool"
    and cnt :: "'s \<Rightarrow> 'k \<Rightarrow> nat"
    and gain :: "'op \<Rightarrow> 'r \<Rightarrow> 'k \<Rightarrow> nat"
    and loss :: "'op \<Rightarrow> 'r \<Rightarrow> 'k \<Rightarrow> nat"
    and limit :: nat
  assumes step_inv: "inv s \<Longrightarrow> legal op \<Longrightarrow> \<forall>k. cnt s k < limit \<Longrightarrow> inv (fst (step op s))"
    and step_cnt: "inv s \<Longrightarrow> legal op \<Longrightarrow> \<forall>k. cnt s k < limit \<Longrightarrow>
      cnt (fst (step op s)) k + loss op (snd (step op s)) k = cnt s k + gain op (snd (step op s)) k"
    and gain_le: "gain op r k \<le> 1"
begin

lemma run_balance:
  assumes "inv s" "\<forall>op \<in> set ops. legal op" "\<forall>k. cnt s k + length ops \<le> limit"
  shows "inv (fst (run_steps step s ops)) \<and>
    cnt (fst (run_steps step s ops)) k + total loss ops (snd (run_steps step s ops)) k =
    cnt s k + total gain ops (snd (run_steps step s ops)) k"
  using assms
proof (induction ops arbitrary: s)
  case (Cons op ops)
  obtain s1 r where st: "step op s = (s1, r)" by force
  have lim: "\<forall>k. cnt s k < limit"
  proof
    fix k show "cnt s k < limit" using Cons.prems(3)[rule_format, of k] by simp
  qed
  from Cons.prems st step_inv[OF _ _ lim, of op] step_cnt[OF _ _ lim, of op]
  have "inv s1" and bal: "\<And>k. cnt s1 k + loss op r k = cnt s k + gain op r k" by auto
  moreover have "cnt s1 k + length ops \<le> limit" for k
    using bal[of k] gain_le[of op r k] Cons.prems(3)[rule_format, of k] by simp
  ultimately have "inv (fst (run_steps step s1 ops)) \<and>
    cnt (fst (run_steps step s1 ops)) k + total loss ops (snd (run_steps step s1 ops)) k =
    cnt s1 k + total gain ops (snd (run_steps step s1 ops)) k"
    using Cons by simp
  with st bal[of k] show ?case by (simp add: split_beta)
qed simp

end

datatype hs_op = HAdd hs_env | HGet string | HRelease nat | HRemove string
datatype hs_reply = RError hs_error | RName string | RRef nat | RUnit

definition as_reply :: "('a \<Rightarrow> hs_reply) \<Rightarrow> hash_store \<times> (hs_error + 'a) \<Rightarrow> hash_store \<times> hs_reply" where
  "as_reply f x = (fst x, case snd x of Inl e \<Rightarrow> RError e | Inr a \<Rightarrow> f a)"

fun hs_step :: "(byte list \<Rightarrow> byte list) \<Rightarrow> hs_op \<Rightarrow> hash_store \<Rightarrow> hash_store \<times> hs_reply" where
  "hs_step digest (HAdd env) h = as_reply RName (HS_Add digest env h)"
| "hs_step digest (HGet k) h = as_reply RRef (HS_Get k h)"
| "hs_step digest (HRelease i) h = (Release i h, RUnit)"
| "hs_step digest (HRemove k) h = as_reply (\<lambda>_. RUnit) (HS_Remove k h)"

fun hs_legal :: "hs_op \<Rightarrow> bool" where
  "hs_legal (HAdd env) = (length (tmp_name env) = 16)"
| "hs_legal _ = True"

fun added :: "hs_op \<Rightarrow> hs_reply \<Rightarrow> string \<Rightarrow> nat" where
  "added (HAdd env) (RName n) k = (if n = k then 1 else 0)"
| "added _ _ k = 0"

fun removed :: "hs_op \<Rightarrow> hs_reply \<Rightarrow> string \<Rightarrow> nat" where
  "removed (HRemove n) RUnit k = (if n = k then 1 else 0)"
| "removed _ _ k = 0"

lemma hs_step_balance:
  assumes inv: "hs_inv digest h" and sha: "sha_sized digest" and l: "hs_legal op"
    and lim: "\<forall>k. copies h k < 2 ^ 31 - 1"
  shows "hs_inv digest (fst (hs_step digest op h)) \<and>
    copies (fst (hs_step digest op h)) k + removed op (snd (hs_step digest op h)) k =
    copies h k + added op (snd (hs_step digest op h)) k"
proof (cases op)
  case (HAdd env)
  have t: "length (tmp_name env) = 16" using l HAdd by simp
  obtain h' r where r: "HS_Add digest env h = (h', r)" by force
  show ?thesis
  proof (cases r)
    case (Inl e)
    with HS_Add_error[OF inv sha t] r HAdd show ?thesis by (simp add: as_reply_def)
  next
    case (Inr n)
    with r have ok: "create_ok env" "body_ok env" "rename_ok env \<or> hs_s h (object_name (digest (body env))) \<noteq> None"
      by (auto simp: HS_Add_def Add_commit_def Let_def split: if_splits option.splits)
    from HS_Add_ok[OF inv sha t ok] lim obtain h2 where
      h2: "HS_Add digest env h = (h2, Inr (object_name (digest (body env))))" "hs_inv digest h2"
      "copies h2 = (copies h)(object_name (digest (body env)) :=
         Suc (copies h (object_name (digest (body env)))))" by blast
    then show ?thesis using HAdd by (simp add: as_reply_def)
  qed
next
  case (HGet n)
  obtain h' r where r: "HS_Get n h = (h', r)" by force
  with HS_Get_keeps[OF inv r] HGet show ?thesis by (cases r) (simp_all add: as_reply_def)
next
  case (HRelease i)
  with Release_keeps[OF inv, of i] show ?thesis by simp
next
  case (HRemove n)
  obtain h' r where r: "HS_Remove n h = (h', r)" by force
  show ?thesis
  proof (cases r)
    case (Inl e)
    with r HS_Remove_error[of n h h' e] inv HRemove show ?thesis by (simp add: as_reply_def)
  next
    case (Inr u)
    with HS_Remove_ok[OF inv, of n h' u] r HRemove show ?thesis by (auto simp: as_reply_def)
  qed
qed

interpretation hs: ref_counted "hs_step digest" "\<lambda>h. sha_sized digest \<and> hs_inv digest h" hs_legal
  copies added removed "2 ^ 31 - 1" for digest
proof (unfold_locales, goal_cases)
  case (3 op r k)
  then show ?case by (cases "(op, r, k)" rule: added.cases) auto
qed (use hs_step_balance in blast)+

section \<open>Properties\<close>

text \<open>A digest for the concrete examples: 32 bytes, the first of them the length of the content.\<close>

definition len_digest :: "byte list \<Rightarrow> byte list" where
  "len_digest b = of_nat (length b) # replicate 31 0"

definition plain_env :: "byte list \<Rightarrow> hs_env" where
  "plain_env b = \<lparr> tmp_name = RandomString (\<lambda>i. i) 16, create_ok = True, body = b,
     body_ok = True, rename_ok = True \<rparr>"

lemma sha_sized_len_digest: "sha_sized len_digest"
  by (simp add: sha_sized_def len_digest_def)

lemma plain_env_legal: "hs_legal (HAdd (plain_env b))"
  by (simp add: plain_env_def)

text \<open>C11. Along every history of \<open>Add\<close>, \<open>Get\<close>, release and \<open>Remove\<close> calls on a new store (\<open>AddLocal\<close>, which
  a node runs for the files it finds at its start, is not among them and does break the balance, see \<open>AddLocal_breaks_Size\<close>), whatever
  fails on the way, \<open>Size\<close> is the sum of the sizes of the stored files, every stored name is the
  digest name of the bytes that lie on disk under it, and the reference count of each name is the
  number of successful \<open>Add\<close> calls minus the number of successful \<open>Remove\<close> calls.\<close>
theorem hs_history_balance:
  assumes "sha_sized digest" and "\<forall>op \<in> set ops. hs_legal op" and "length ops < 2 ^ 31"
    and "run_steps (hs_step digest) NewHashStore ops = (h, replies)"
  shows "GetSize h = live_size h \<and> hs_inv digest h \<and>
    copies h k + total removed ops replies k = total added ops replies k"
proof -
  have "copies NewHashStore k = 0" for k by (simp add: copies_def NewHashStore_def)
  with assms hs_inv_New[of digest] hs.run_balance[of digest NewHashStore ops k] hs_inv_Size[of digest h]
  show ?thesis by (simp add: GetSize_def)
qed

theorem hs_history_balance_witness:
  "\<exists>h. run_steps (hs_step len_digest) NewHashStore [HAdd (plain_env [7])] =
       (h, [RName (object_name (len_digest [7]))]) \<and>
     copies h (object_name (len_digest [7])) = 1"
proof -
  let ?ops = "[HAdd (plain_env [7])]" and ?k = "object_name (len_digest [7])"
  obtain h where h: "run_steps (hs_step len_digest) NewHashStore ?ops = (h, [RName ?k])"
    by (simp add: HS_Add_def Add_commit_def NewHashStore_def plain_env_def as_reply_def Let_def)
  from hs_history_balance[OF sha_sized_len_digest _ _ h, of ?k] plain_env_legal
  have "copies h ?k = 1" by simp
  with h show ?thesis by blast
qed

text \<open>What an upload stored can be read back: after a successful \<open>Add\<close>, \<open>Get\<close> of the returned
  name succeeds and the bytes on disk under that name have the digest and the recorded size; if
  the digest has no collision with the uploaded bytes, they are the uploaded bytes.\<close>
theorem Add_then_Get:
  assumes "hs_inv digest h" "sha_sized digest" "hs_legal (HAdd env)"
    and "create_ok env" "body_ok env" "rename_ok env"
    and "copies h (object_name (digest (body env))) < 2 ^ 31 - 1"
  shows "\<exists>h' k i c. HS_Add digest env h = (h', Inr k) \<and> k = object_name (digest (body env)) \<and>
    snd (HS_Get k h') = Inr i \<and> hs_disk h' (DataPathPrefix @ k) = Some c \<and>
    fileSize (hs_files h' ! i) = of_nat (length c) \<and>
    digest c = digest (body env) \<and> ((\<forall>b. digest b = digest (body env) \<longrightarrow> b = body env) \<longrightarrow> c = body env)"
proof -
  let ?k = "object_name (digest (body env))"
  from assms HS_Add_ok[of digest h env] obtain h' where h': "HS_Add digest env h = (h', Inr ?k)"
    "hs_inv digest h'" "copies h' = (copies h)(?k := Suc (copies h ?k))" by auto
  then have "?k \<in> dom (hs_s h')" using copies_pos[OF h'(2), of ?k] by simp
  then obtain i where i: "hs_s h' ?k = Some i" by auto
  from hs_inv_entry[OF h'(2) i] obtain c where
    "hs_disk h' (DataPathPrefix @ ?k) = Some c" "?k = object_name (digest c)"
    "fileSize (hs_files h' ! i) = of_nat (length c)"
    by (auto simp: entry_ok_def)
  moreover have "snd (HS_Get ?k h') = Inr i" using i by (simp add: HS_Get_def)
  ultimately show ?thesis using h'(1) by (auto simp: object_name_inj)
qed

theorem Add_then_Get_witness:
  "\<exists>h' k i. HS_Add len_digest (plain_env [7]) NewHashStore = (h', Inr k) \<and> snd (HS_Get k h') = Inr i"
  using Add_then_Get[OF hs_inv_New sha_sized_len_digest plain_env_legal, of "[7]"]
  by (auto simp: plain_env_def copies_def NewHashStore_def)

text \<open>The name of an object cannot leave the data directory and never clashes: it contains no
  path separator, different digests have different names, and a 32-byte digest gives 44
  characters, so that no temporary file (16 characters) has the name of an object.\<close>
theorem object_names_safe:
  "CHR ''/'' \<notin> set (object_name d) \<and> (object_name d = object_name e \<longleftrightarrow> d = e) \<and>
   length (object_name (replicate 32 b)) = 44 \<and> length (RandomString rnd 16) = 16"
  by (simp add: object_name_no_slash object_name_inj length_object_name)

text \<open>C26. What \<open>Remove\<close> does with a stored name.  With more than one reference it drops one, whether or not a reader has the file open, and the file
  stays.  The last reference is protected: while a reader has the file open, \<open>Remove\<close> is refused and changes nothing.  Once every
  reader has released it, \<open>Remove\<close> succeeds, the name is gone and \<open>Size\<close> has shrunk by the size of the file, but the bytes stay on disk.\<close>
theorem Remove_waits_for_readers:
  assumes "hs_inv digest h" "hs_s h k = Some i"
  shows "(1 < copies h k \<longrightarrow> (\<exists>h'. HS_Remove k h = (h', Inr ()) \<and> copies h' = (copies h)(k := copies h k - 1) \<and> hs_s h' = hs_s h \<and>
      GetSize h' = GetSize h \<and> hs_disk h' = hs_disk h \<and> OpenCount (hs_files h' ! i) = OpenCount (hs_files h ! i))) \<and>
    (copies h k = 1 \<and> OpenCount (hs_files h ! i) \<noteq> 0 \<longrightarrow> HS_Remove k h = (h, Inl FileBusy)) \<and>
    (copies h k = 1 \<and> OpenCount (hs_files h ! i) = 0 \<longrightarrow>
      (case HS_Get k h of (h1, r) \<Rightarrow> r = Inr i \<and> HS_Remove k h1 = (h1, Inl FileBusy) \<and>
       (case HS_Remove k (Release i h1) of (h2, r2) \<Rightarrow>
         r2 = Inr () \<and> snd (HS_Get k h2) = Inl HashNotFound \<and>
         GetSize h2 = GetSize h - fileSize (hs_files h ! i) \<and> hs_disk h2 = hs_disk h)))"
proof -
  have cp: "int (copies h k) = sint (ReplicaCount (hs_files h ! i))" using copies_Some[OF assms] by simp
  have "\<exists>h'. HS_Remove k h = (h', Inr ()) \<and> copies h' = (copies h)(k := copies h k - 1) \<and> hs_s h' = hs_s h \<and>
      GetSize h' = GetSize h \<and> hs_disk h' = hs_disk h \<and> OpenCount (hs_files h' ! i) = OpenCount (hs_files h ! i)" if "1 < copies h k"
  proof -
    have "1 < sint (ReplicaCount (hs_files h ! i))" using that cp by simp
    then obtain h' where h': "HS_Remove k h = (h', Inr ())" "hs_s h' = hs_s h" "GetSize h' = GetSize h" "hs_disk h' = hs_disk h"
      "OpenCount (hs_files h' ! i) = OpenCount (hs_files h ! i)"
      using hs_inv_bound[OF assms] assms(2) by (auto simp: HS_Remove_def upd_hs_def GetSize_def Let_def)
    with HS_Remove_ok[OF assms(1) h'(1)] show ?thesis by auto
  qed
  moreover have "HS_Remove k h = (h, Inl FileBusy)" if "copies h k = 1" "OpenCount (hs_files h ! i) \<noteq> 0"
    using that cp assms(2) by (auto simp: HS_Remove_def Let_def)
  moreover have "case HS_Get k h of (h1, r) \<Rightarrow> r = Inr i \<and> HS_Remove k h1 = (h1, Inl FileBusy) \<and>
       (case HS_Remove k (Release i h1) of (h2, r2) \<Rightarrow>
         r2 = Inr () \<and> snd (HS_Get k h2) = Inl HashNotFound \<and>
         GetSize h2 = GetSize h - fileSize (hs_files h ! i) \<and> hs_disk h2 = hs_disk h)"
    if "copies h k = 1" "OpenCount (hs_files h ! i) = 0"
    using that cp hs_inv_bound[OF assms] assms(2)
    by (simp add: HS_Get_def HS_Remove_def Release_def upd_hs_def GetSize_def Let_def)
  ultimately show ?thesis by (intro conjI impI) simp_all
qed

theorem Remove_waits_for_readers_witness:
  "snd (HS_Remove (object_name (len_digest [7]))
     (fst (HS_Get (object_name (len_digest [7]))
       (fst (HS_Add len_digest (plain_env [7]) NewHashStore))))) = Inl FileBusy"
proof -
  let ?h = "fst (HS_Add len_digest (plain_env [7]) NewHashStore)"
  let ?k = "object_name (len_digest [7])"
  have h: "?h = \<lparr> hs_s = [?k \<mapsto> 0], hs_Size = 1, hs_files = [new_hs_file ?k 1],
      hs_disk = (Map.empty)(DataPathPrefix @ tmp_name (plain_env [7]) := None, DataPathPrefix @ ?k \<mapsto> [7]) \<rparr>"
    by (simp add: HS_Add_def Add_commit_def NewHashStore_def plain_env_def Let_def)
  obtain h' where "HS_Add len_digest (plain_env [7]) NewHashStore = (h', Inr ?k)" "hs_inv len_digest h'"
    using HS_Add_ok[OF hs_inv_New sha_sized_len_digest, of "plain_env [7]"]
    by (auto simp: plain_env_def copies_def NewHashStore_def)
  then have "hs_inv len_digest ?h" by simp
  from Remove_waits_for_readers[OF this, of ?k 0] show ?thesis
    by (auto simp: h copies_def new_hs_file_def split: prod.splits)
qed

text \<open>\<open>AddLocal\<close>, which a node runs for every file it finds in its data directory at start, does
  not add the file to \<open>Size\<close>, but \<open>Remove\<close> subtracts it: loading a file and removing it leaves
  \<open>Size\<close> too small by the size of the file (negative for an otherwise empty store).\<close>
theorem AddLocal_breaks_Size:
  "case HS_Remove k (AddLocal k z h) of (h', r) \<Rightarrow>
     r = Inr () \<and> GetSize (AddLocal k z h) = GetSize h \<and> GetSize h' = GetSize h - z"
  by (simp add: HS_Remove_def AddLocal_def new_hs_file_def GetSize_def Let_def)

end
