(* ===== verification/NodeRouter.thy ===== *)
theory NodeRouter
  imports Http HashStore
begin

text \<open>
  \<open>router/download.go\<close> and \<open>router/node.go\<close>: the HTTP handlers of a storage node, over its table of
  download links and its hash store.

  Downloads are objects behind pointers (\<open>downloads\<close> and \<open>downloadsQueue\<close> share them), so they live in
  \<open>dlObjs\<close>.  \<open>r.mu\<close> is a \<open>sync.RWMutex\<close>: \<open>rlocks\<close> read locks, a write lock, and whether a writer waits
  (it then keeps new readers out).  A download's own mutex is only taken for a moment while \<open>r.mu\<close> is
  held and is left held only by the panic in \<open>UpdateQueue\<close>, which also leaves \<open>r.mu\<close> held; it is not
  modelled.

  \<open>UpdateQueue\<close> deletes from a slice while ranging over it, so its model keeps the backing array and
  the length of the slice apart.

  Requests to other machines go through the arguments \<open>post\<close>, \<open>get\<close> and \<open>fetch\<close>; the first two take and return
  the state \<open>'w\<close> of the rest of the world.  A handler gets the values of its query, its headers and its body as
  arguments; \<open>node_serve\<close> reads them off a request.  Of a message that quotes an error the part before the quotation is kept.  That
  \<open>net/http\<close> compares what is written with a \<open>Content-Length\<close> set before is not modelled.
\<close>

section \<open>Data\<close>

record download =
  dlID :: string
  dlHash :: string
  dlFileName :: string
  dlExpire :: int
  dlCount :: u64

record router =
  downloads :: "string \<rightharpoonup> nat"
  downloadsQueue :: "nat list"
  rUploads :: "string set"
  MasterAddr :: string
  rNodeAddr :: string
  dlObjs :: "download list"
  rlocks :: nat
  wlock :: bool
  wwait :: bool

record node_state =
  rt :: router
  hs :: hash_store

datatype node_route = RUpload | RDownload | RDelete | RAddDownload | RAddUpload | RDebugPrintHS

definition NewRouter :: "string \<Rightarrow> string \<Rightarrow> router" where
  "NewRouter master nodeA =
     \<lparr> downloads = Map.empty, downloadsQueue = [], rUploads = {}, MasterAddr = master, rNodeAddr = nodeA,
       dlObjs = [], rlocks = 0, wlock = False, wwait = False \<rparr>"

definition node_routes :: "string \<rightharpoonup> node_route" where
  "node_routes =
     addRoute ''GET'' URLDebugPrintHashstore RDebugPrintHS
      (addRoute ''GET'' URLSDFSUpload RAddUpload
        (addRoute ''GET'' URLSDFSDownload RAddDownload
          (addRoute ''GET'' URLSDFSDelete RDelete
            (addRoute ''GET'' URLDownload RDownload
              (addRoute ''POST'' URLUpload RUpload Map.empty)))))"

section \<open>The lock\<close>

definition rt_Lock :: "router \<Rightarrow> (router, unit) outcome" where
  "rt_Lock r = (if wlock r then Block r
     else if 0 < rlocks r then Block (r\<lparr> wwait := True \<rparr>)
     else Ret (r\<lparr> wlock := True \<rparr>) ())"

definition rt_Unlock :: "router \<Rightarrow> router" where
  "rt_Unlock r = r\<lparr> wlock := False \<rparr>"

definition rt_RLock :: "router \<Rightarrow> (router, unit) outcome" where
  "rt_RLock r = (if wlock r \<or> wwait r then Block r else Ret (r\<lparr> rlocks := rlocks r + 1 \<rparr>) ())"

definition rt_RUnlock :: "router \<Rightarrow> router" where
  "rt_RUnlock r = r\<lparr> rlocks := rlocks r - 1 \<rparr>"

definition lift_rt :: "(router, 'a) outcome \<Rightarrow> node_state \<Rightarrow> (node_state, 'a) outcome" where
  "lift_rt m s = (case m of
       Ret r a \<Rightarrow> Ret (s\<lparr> rt := r \<rparr>) a | Panic r \<Rightarrow> Panic (s\<lparr> rt := r \<rparr>) | Block r \<Rightarrow> Block (s\<lparr> rt := r \<rparr>))"

section \<open>Download links\<close>

definition expired :: "int \<Rightarrow> download \<Rightarrow> bool" where
  "expired t d \<longleftrightarrow> dlCount d = 0 \<and> dlExpire d < t"

text \<open>\<open>append(q[:i], q[i+1:]...)\<close> on the backing array \<open>arr\<close> of a slice of length \<open>len\<close>.\<close>

definition delete_at :: "nat \<Rightarrow> nat \<Rightarrow> 'a list \<Rightarrow> 'a list" where
  "delete_at i len arr = take i arr @ drop (Suc i) (take len arr) @ drop (len - 1) arr"

text \<open>The loop: index \<open>i\<close>, \<open>k\<close> iterations to go, the backing array and the present length of
  \<open>r.downloadsQueue\<close>.\<close>

fun uq_loop :: "int \<Rightarrow> nat \<Rightarrow> nat \<Rightarrow> nat list \<Rightarrow> nat \<Rightarrow> router \<Rightarrow> (router, nat list \<times> nat) outcome" where
  "uq_loop t i 0 arr len r = Ret r (arr, len)"
| "uq_loop t i (Suc k) arr len r =
     (let d = dlObjs r ! (arr ! i) in
      if expired t d then
        (let r1 = r\<lparr> downloads := (downloads r)(dlID d := None) \<rparr> in
         if len < Suc i then Panic (r1\<lparr> downloadsQueue := take len arr \<rparr>)
         else uq_loop t (Suc i) k (delete_at i len arr) (len - 1) r1)
      else uq_loop t (Suc i) k arr len r)"

definition UpdateQueue :: "int \<Rightarrow> router \<Rightarrow> (router, unit) outcome" where
  "UpdateQueue t r =
     obind (rt_Lock r) (\<lambda>r1 _.
       obind (uq_loop t 0 (length (downloadsQueue r1)) (downloadsQueue r1) (length (downloadsQueue r1)) r1)
         (\<lambda>r2 (arr, len). Ret (rt_Unlock (r2\<lparr> downloadsQueue := take len arr \<rparr>)) ()))"

text \<open>In seconds.\<close>

definition NewDownload :: "int \<Rightarrow> string \<Rightarrow> string \<Rightarrow> string \<Rightarrow> download" where
  "NewDownload t rnd hash filename =
     \<lparr> dlID = rnd, dlHash = hash, dlFileName = filename, dlExpire = t + 3600, dlCount = 0 \<rparr>"

text \<open>The condition of the loop that should draw another id is evaluated once: it never ends.\<close>

definition RequestDownload :: "int \<Rightarrow> string \<Rightarrow> string \<Rightarrow> string \<Rightarrow> router \<Rightarrow> (router, string) outcome" where
  "RequestDownload t rnd hash filename r =
     obind (UpdateQueue t r) (\<lambda>r1 _.
       let d = NewDownload t rnd hash filename in
       obind (rt_Lock r1) (\<lambda>r2 _.
         if downloads r2 (dlID d) \<noteq> None then Block r2
         else Ret (rt_Unlock (r2\<lparr> dlObjs := dlObjs r2 @ [d],
                downloads := (downloads r2)(dlID d \<mapsto> length (dlObjs r2)),
                downloadsQueue := downloadsQueue r2 @ [length (dlObjs r2)] \<rparr>)) (dlID d)))"

section \<open>Handlers\<close>

definition NR_AddUpload :: "string \<Rightarrow> ctx \<Rightarrow> node_state \<Rightarrow> (node_state, ctx) outcome" where
  "NR_AddUpload i c s =
     obind (lift_rt (rt_Lock (rt s)) s) (\<lambda>s1 _.
       if i \<in> rUploads (rt s1) then
         Ret (s1\<lparr> rt := rt_Unlock (rt s1) \<rparr>) (String 500 ''failed to add upload, id already exists'' c)
       else
         Ret (s1\<lparr> rt := rt_Unlock ((rt s1)\<lparr> rUploads := insert i (rUploads (rt s1)) \<rparr>) \<rparr>) (String 200 ''Success'' c))"

definition NR_AddDownload :: "int \<Rightarrow> string \<Rightarrow> string \<Rightarrow> string \<Rightarrow> ctx \<Rightarrow> node_state \<Rightarrow> (node_state, ctx) outcome" where
  "NR_AddDownload t rnd filehash filename c s =
     obind (lift_rt (RequestDownload t rnd filehash filename (rt s)) s) (\<lambda>s1 i. Ret s1 (String 200 i c))"

definition NR_Delete :: "string \<Rightarrow> ctx \<Rightarrow> node_state \<Rightarrow> (node_state, ctx) outcome" where
  "NR_Delete hash c s =
     (if hash = [] then Ret s (String 400 ''Bad Request: hash not found'' c)
      else case HS_Remove hash (hs s) of
        (h, Inl e) \<Rightarrow> Ret (s\<lparr> hs := h \<rparr>) (String 500 ''Internal Server Error: sdfs error'' c)
      | (h, Inr u) \<Rightarrow> Ret (s\<lparr> hs := h \<rparr>) (String 200 ''Success'' c))"

definition DebugPrintHS :: "ctx \<Rightarrow> node_state \<Rightarrow> (node_state, ctx) outcome" where
  "DebugPrintHS c s = Ret s (String 200
     (''HSSize: '' @ show_int (sint (hs_Size (hs s))) @ [CHR 0x0A] @ ''MasterAddr: '' @ MasterAddr (rt s) @
      '', NodeAddr: '' @ rNodeAddr (rt s)) c)"

text \<open>\<open>Download\<close> after the file has been taken from the store: \<open>i\<close> is the pointer \<open>Get\<close> returned.
  \<open>StatusCode\<close> only sets a field of the context.\<close>

definition send_whole :: "nat \<Rightarrow> ctx \<Rightarrow> node_state \<Rightarrow> (node_state, ctx) outcome" where
  "send_whole i c s =
     (let s1 = s\<lparr> hs := Release i (hs s) \<rparr> in
      case hs_disk (hs s) (DataPathPrefix @ Hash (hs_files (hs s) ! i)) of
        None \<Rightarrow> Ret s1 (String 500 ''Internal Server Error: sdfs error'' c)
      | Some b \<Rightarrow> Ret s1 (if b = [] then c else Write (Bytes b) c))"

definition send_range :: "range \<Rightarrow> int \<Rightarrow> nat \<Rightarrow> ctx \<Rightarrow> node_state \<Rightarrow> (node_state, ctx) outcome" where
  "send_range ra sz i c s =
     (let c1 = StatusCode 206
           (SetHeader ''Content-Length'' (show_int (End ra - Start ra + 1))
             (SetHeader ''Content-Range''
               (''bytes '' @ show_int (Start ra) @ ''-'' @ show_int (End ra) @ ''/'' @ show_int sz)
               (SetHeader ''Accept-Ranges'' ''bytes'' c)));
          s1 = s\<lparr> hs := Release i (hs s) \<rparr> in
      case hs_disk (hs s) (DataPathPrefix @ Hash (hs_files (hs s) ! i)) of
        None \<Rightarrow> Ret s1 (String 500 ''Internal Server Error: sdfs error'' c1)
      | Some b \<Rightarrow>
          if Start ra < 0 then Ret s1 (String 500 ''Internal Server Error: sdfs error'' c1)
          else (let out = take (nat (End ra - Start ra + 1)) (drop (nat (Start ra)) b) in
                Ret s1 (if out = [] then c1 else Write (Bytes out) c1)))"

definition send_file :: "string \<Rightarrow> nat \<Rightarrow> ctx \<Rightarrow> node_state \<Rightarrow> (node_state, ctx) outcome" where
  "send_file rangeHeader i c s =
     (let sz = sint (fileSize (hs_files (hs s) ! i)) in
      case ParseRange sz rangeHeader of
        ParsePanic \<Rightarrow> Panic s
      | ParseError \<Rightarrow> Ret s (String 500 ''Internal Server Error: sdfs error'' c)
      | ParseOk [] \<Rightarrow> send_whole i c s
      | ParseOk (ra # rest) \<Rightarrow> send_range ra sz i c s)"

definition NR_Download :: "string \<Rightarrow> string \<Rightarrow> ctx \<Rightarrow> node_state \<Rightarrow> (node_state, ctx) outcome" where
  "NR_Download i rangeHeader c s =
     (let c0 = SetContentType ''text/plain'' c in
      if i = [] then Ret s (String 400 ''Bad Request: id not found'' c0)
      else obind (lift_rt (rt_RLock (rt s)) s) (\<lambda>s1 _. case downloads (rt s1) i of
          None \<Rightarrow> Ret s1 (String 404 ''Not Found: id not exist'' c0)
        | Some d \<Rightarrow>
            (let r2 = rt_RUnlock ((rt s1)\<lparr> dlObjs := (dlObjs (rt s1))[d := (dlObjs (rt s1) ! d)
                         \<lparr> dlCount := dlCount (dlObjs (rt s1) ! d) + 1 \<rparr>] \<rparr>);
                 c1 = SetHeader ''Content-Disposition'' (''filename='' @ [CHR 0x22] @ dlFileName (dlObjs r2 ! d) @ [CHR 0x22])
                        (SetContentType ''application/octet-stream'' c0) in
             case HS_Get (dlHash (dlObjs r2 ! d)) (hs s1) of
               (h, Inl e) \<Rightarrow> Ret (s1\<lparr> rt := r2, hs := h \<rparr>) (String 500 ''Internal Server Error: sdfs error'' c1)
             | (h, Inr f) \<Rightarrow> send_file rangeHeader f c1 (s1\<lparr> rt := r2, hs := h \<rparr>))))"

text \<open>\<open>HTTPUploadCallback\<close>: a redirect names the next master.  \<open>None\<close> is an endless chain of
  redirects; the result says whether the callback succeeded.\<close>

partial_function (option) HTTPUploadCallback ::
  "('w \<Rightarrow> string \<Rightarrow> (string \<times> string) list \<Rightarrow> 'w \<times> http_reply) \<Rightarrow> string \<Rightarrow> (string \<times> string) list \<Rightarrow> 'w \<Rightarrow> ('w \<times> bool) option" where
  "HTTPUploadCallback post masterAddr request w =
     (case post w (URLSDFSScheme @ masterAddr @ URLUploadCallback) request of
        (w1, rep) \<Rightarrow> (case rep of
            NetError \<Rightarrow> Some (w1, False)
          | Broken st \<Rightarrow> Some (w1, False)
          | Reply st url \<Rightarrow>
              if st = 307 then HTTPUploadCallback post url request w1 else Some (w1, st = 200)))"

definition NR_Upload ::
  "('w \<Rightarrow> string \<Rightarrow> (string \<times> string) list \<Rightarrow> 'w \<times> http_reply) \<Rightarrow> (byte list \<Rightarrow> byte list) \<Rightarrow> hs_env \<Rightarrow> string \<Rightarrow> ctx
    \<Rightarrow> node_state \<times> 'w \<Rightarrow> (node_state \<times> 'w, ctx) outcome" where
  "NR_Upload post digest env i c sw = (case sw of (s, w) \<Rightarrow>
     if i = [] then Ret (s, w) (String 400 ''Bad Request: id not found'' c)
     else case HS_Add digest env (hs s) of
       (h, Inl e) \<Rightarrow> Ret (s\<lparr> hs := h \<rparr>, w) (String 400 ''Bad Request: failed to read body'' c)
     | (h, Inr hash) \<Rightarrow>
         (case HTTPUploadCallback post (MasterAddr (rt s))
                 [(''id'', i), (''hash'', hash), (''host'', rNodeAddr (rt s))] w of
            None \<Rightarrow> Block (s\<lparr> hs := h \<rparr>, w)
          | Some (w1, ok) \<Rightarrow>
              Ret (s\<lparr> hs := h \<rparr>, w1)
                (if ok then String 202 ''Success'' c else String 500 ''Internal Server Error'' c)))"

text \<open>The body of a JSON request: unreadable, not an object of the expected form, or an object; a value is a
  string or something else.\<close>

datatype jval = JStr string | JOther

datatype json_body = BodyError | BadJson | JObj "string \<rightharpoonup> jval"

text \<open>\<open>request[k].(string)\<close> where \<open>request\<close> started with empty strings; \<open>None\<close> is the failed assertion.\<close>

definition field :: "(string \<rightharpoonup> jval) \<Rightarrow> string \<Rightarrow> string option" where
  "field m k = (case m k of None \<Rightarrow> Some [] | Some (JStr v) \<Rightarrow> Some v | Some JOther \<Rightarrow> None)"

definition DownloadFileFromLink ::
  "(byte list \<Rightarrow> byte list) \<Rightarrow> (string \<Rightarrow> hs_env option) \<Rightarrow> string \<Rightarrow> node_state \<Rightarrow> node_state \<times> string" where
  "DownloadFileFromLink digest fetch link s = (case fetch link of
       None \<Rightarrow> (s, [])
     | Some env \<Rightarrow> (case HS_Add digest env (hs s) of
           (h, Inl e) \<Rightarrow> (s\<lparr> hs := h \<rparr>, [])
         | (h, Inr hash) \<Rightarrow> (s\<lparr> hs := h \<rparr>, hash)))"

text \<open>\<open>ReportReplicationToMaster\<close>: the URL it gets; the answer is dropped.\<close>

definition report_url :: "string \<Rightarrow> string \<Rightarrow> string \<Rightarrow> string" where
  "report_url masterAddr hash result =
     URLSDFSScheme @ masterAddr @ URLSDFSReplicaCallback @ ''?hash='' @ hash @ ''&result='' @ result"

definition CreateReplica ::
  "('w \<Rightarrow> string \<Rightarrow> 'w) \<Rightarrow> (byte list \<Rightarrow> byte list) \<Rightarrow> (string \<Rightarrow> hs_env option) \<Rightarrow> json_body \<Rightarrow> ctx
    \<Rightarrow> node_state \<times> 'w \<Rightarrow> (node_state \<times> 'w, ctx) outcome" where
  "CreateReplica get digest fetch b c sw = (case sw of (s, w) \<Rightarrow> (case b of
       BodyError \<Rightarrow> Ret sw (String 400 ''Bad Request'' c)
     | BadJson \<Rightarrow> Ret sw (String 400 ''Bad Request'' c)
     | JObj m \<Rightarrow>
         (let c1 = String 200 ''replica task added'' c in
          case field m ''link'' of
            None \<Rightarrow> Panic sw
          | Some link \<Rightarrow>
              (case DownloadFileFromLink digest fetch link s of (s1, hash) \<Rightarrow>
                 (case field m ''hash'' of
                    None \<Rightarrow> Panic (s1, w)
                  | Some want \<Rightarrow>
                      Ret (s1, get w (report_url (MasterAddr (rt s)) hash (if hash \<noteq> want then ''FAILED'' else ''OK''))) c1)))))"

section \<open>Dispatch\<close>

text \<open>The handlers behind the routes.  The request has the raw query \<open>raw\<close>, the header \<open>Range\<close> and the body
  \<open>env\<close>; \<open>t\<close> and \<open>rnd\<close> are the time and the id a handler may draw.\<close>

definition with_w :: "(node_state, 'a) outcome \<Rightarrow> 'w \<Rightarrow> (node_state \<times> 'w, 'a) outcome" where
  "with_w r w = (case r of Ret s a \<Rightarrow> Ret (s, w) a | Panic s \<Rightarrow> Panic (s, w) | Block s \<Rightarrow> Block (s, w))"

definition node_handler ::
  "('w \<Rightarrow> string \<Rightarrow> (string \<times> string) list \<Rightarrow> 'w \<times> http_reply) \<Rightarrow> (byte list \<Rightarrow> byte list) \<Rightarrow> int \<Rightarrow> string \<Rightarrow> hs_env
    \<Rightarrow> string \<Rightarrow> string \<Rightarrow> node_route \<Rightarrow> ctx \<Rightarrow> node_state \<times> 'w \<Rightarrow> (node_state \<times> 'w, ctx) outcome" where
  "node_handler post digest t rnd env raw rangeHeader h c sw = (case sw of (s, w) \<Rightarrow> (case h of
       RUpload \<Rightarrow> NR_Upload post digest env (Query raw ''id'') c sw
     | RDownload \<Rightarrow> with_w (NR_Download (Query raw ''id'') rangeHeader c s) w
     | RDelete \<Rightarrow> with_w (NR_Delete (Query raw ''hash'') c s) w
     | RAddDownload \<Rightarrow> with_w (NR_AddDownload t rnd (Query raw ''hash'') (Query raw ''name'') c s) w
     | RAddUpload \<Rightarrow> with_w (NR_AddUpload (Query raw ''id'') c s) w
     | RDebugPrintHS \<Rightarrow> with_w (DebugPrintHS c s) w))"

definition node_serve ::
  "('w \<Rightarrow> string \<Rightarrow> (string \<times> string) list \<Rightarrow> 'w \<times> http_reply) \<Rightarrow> (byte list \<Rightarrow> byte list) \<Rightarrow> int \<Rightarrow> string \<Rightarrow> hs_env
    \<Rightarrow> string \<Rightarrow> string \<Rightarrow> string \<Rightarrow> string \<Rightarrow> node_state \<times> 'w \<Rightarrow> (node_state \<times> 'w, ctx) outcome" where
  "node_serve post digest t rnd env raw rangeHeader meth path =
     ServeHTTP node_routes (node_handler post digest t rnd env raw rangeHeader) meth path"

interpretation node_dispatch: dispatcher node_routes "node_handler post digest t rnd env raw rh" "node_serve post digest t rnd env raw rh"
  for post digest t rnd env raw rh
  by unfold_locales (simp add: node_serve_def)

end
