(* ===== verification/FS_Print.thy ===== *)
theory FS_Print
  imports FS_Props
begin

text \<open>
  \<open>PrintDir\<close> and \<open>printSubDirs\<close> of \<open>sdfs/fs.go\<close>: the debug listing of the namespace.

  Go ranges over a map in an unspecified order; \<open>fk d\<close> and \<open>sk d\<close> are the orders in which the
  files and the subdirectories of the directory \<open>d\<close> come.  The recursion follows pointers: \<open>None\<close> is a recursion that is
  deeper than the fuel.  In a consistent namespace the number of directories is enough.
\<close>

section \<open>Printing\<close>

definition tabs :: "nat \<Rightarrow> string" where
  "tabs depth = replicate depth (CHR 0x09)"

abbreviation newline :: char where
  "newline \<equiv> CHR 0x0A"

fun printSubDirs :: "nat \<Rightarrow> (dref \<Rightarrow> string list) \<Rightarrow> (dref \<Rightarrow> string list) \<Rightarrow> fs \<Rightarrow> nat \<Rightarrow> dref \<Rightarrow> string option" where
  "printSubDirs 0 fk sk s depth d = None"
| "printSubDirs (Suc fuel) fk sk s depth d =
     (let tab = tabs depth in
      case those (map (\<lambda>k. case dSubDirs (dirs s ! d) k of
          None \<Rightarrow> Some []
        | Some v \<Rightarrow> printSubDirs fuel fk sk s (depth + 1) v) (sk d)) of
        None \<Rightarrow> None
      | Some subs \<Rightarrow>
          Some (tab @ ''[dir]'' @ dName (dirs s ! d) @ [newline] @
            concat (map (\<lambda>k. tab @ k @ [newline]) (fk d)) @ concat subs))"

definition PrintDir :: "nat \<Rightarrow> (dref \<Rightarrow> string list) \<Rightarrow> (dref \<Rightarrow> string list) \<Rightarrow> fs \<Rightarrow> dref \<Rightarrow> string option" where
  "PrintDir fuel fk sk s d =
     (case those (map (\<lambda>k. case dSubDirs (dirs s ! d) k of
          None \<Rightarrow> Some []
        | Some v \<Rightarrow> printSubDirs fuel fk sk s 1 v) (sk d)) of
        None \<Rightarrow> None
      | Some subs \<Rightarrow>
          Some (''[dir]'' @ dName (dirs s ! d) @ [newline] @
            concat (map (\<lambda>k. k @ [newline]) (fk d)) @ concat subs))"

text \<open>The two orders list the keys of the maps.\<close>

definition range_order :: "(dref \<Rightarrow> string list) \<Rightarrow> (dref \<Rightarrow> string list) \<Rightarrow> fs \<Rightarrow> bool" where
  "range_order fk sk s \<longleftrightarrow> (\<forall>d < length (dirs s).
     distinct (fk d) \<and> set (fk d) = dom (dFiles (dirs s ! d)) \<and>
     distinct (sk d) \<and> set (sk d) = dom (dSubDirs (dirs s ! d)))"

section \<open>What is printed\<close>

text \<open>The line of a directory and of a file, by its location.\<close>

fun line :: "fs \<Rightarrow> string list \<times> string option \<Rightarrow> string" where
  "line s (cs, None) = tabs (length cs) @ ''[dir]'' @ dName (dirs s ! the (walk s 0 cs)) @ [newline]"
| "line s (cs, Some n) = tabs (length cs) @ n @ [newline]"

text \<open>All directories and files below \<open>d\<close>, the directory at \<open>cs\<close>.\<close>

definition below :: "fs \<Rightarrow> string list \<Rightarrow> dref \<Rightarrow> (string list \<times> string option) set" where
  "below s cs d = {(cs @ es, x) | es x. \<exists>e. walk s d es = Some e \<and> (case x of None \<Rightarrow> True | Some n \<Rightarrow> dFiles (dirs s ! e) n \<noteq> None)}"

lemma below_step:
  "below s cs d = insert (cs, None) ((\<lambda>n. (cs, Some n)) ` dom (dFiles (dirs s ! d)) \<union>
     (\<Union>k \<in> dom (dSubDirs (dirs s ! d)). below s (cs @ [k]) (the (dSubDirs (dirs s ! d) k))))" (is "_ = ?r")
proof
  show "below s cs d \<subseteq> ?r"
  proof
    fix y assume "y \<in> below s cs d"
    then obtain es x e where y: "y = (cs @ es, x)" "walk s d es = Some e" "case x of None \<Rightarrow> True | Some n \<Rightarrow> dFiles (dirs s ! e) n \<noteq> None"
      by (auto simp: below_def)
    show "y \<in> ?r"
    proof (cases es)
      case Nil
      with y show ?thesis by (cases x) auto
    next
      case (Cons k fs)
      with y obtain v where "dSubDirs (dirs s ! d) k = Some v" "walk s v fs = Some e" by (auto split: option.splits)
      with y Cons have "y \<in> below s (cs @ [k]) (the (dSubDirs (dirs s ! d) k))" by (auto simp: below_def)
      with \<open>dSubDirs (dirs s ! d) k = Some v\<close> show ?thesis by blast
    qed
  qed
  show "?r \<subseteq> below s cs d"
  proof
    fix y assume "y \<in> ?r"
    then consider "y = (cs, None)" | n where "y = (cs, Some n)" "dFiles (dirs s ! d) n \<noteq> None"
      | k v where "dSubDirs (dirs s ! d) k = Some v" "y \<in> below s (cs @ [k]) v" by auto
    then show "y \<in> below s cs d"
    proof cases
      case (3 k v)
      then obtain es x e where y: "y = (cs @ k # es, x)" "walk s v es = Some e"
        "case x of None \<Rightarrow> True | Some n \<Rightarrow> dFiles (dirs s ! e) n \<noteq> None" by (auto simp: below_def)
      with 3(1) have "walk s d (k # es) = Some e" by simp
      then show ?thesis using y(1,3) unfolding below_def by blast
    qed (force simp: below_def)+
  qed
qed

lemma below_prefix: "y \<in> below s cs d \<Longrightarrow> take (length cs) (fst y) = cs"
  by (auto simp: below_def)

lemma below_disjoint: "k \<noteq> k' \<Longrightarrow> below s (cs @ [k]) d \<inter> below s (cs @ [k']) d' = {}"
  using below_prefix[of _ s "cs @ [k]" d] below_prefix[of _ s "cs @ [k']" d'] by fastforce

lemma those_Some: "(\<And>x. x \<in> set xs \<Longrightarrow> f x = Some (g x)) \<Longrightarrow> those (map f xs) = Some (map g xs)"
  by (induction xs) auto

lemma concat_map_line: "concat (map (\<lambda>k. concat (map (line s) (P k))) xs) = concat (map (line s) (concat (map P xs)))"
  by (induction xs) auto

text \<open>One directory, once its subdirectories are printed.\<close>

lemma listing_step:
  assumes inv: "tree_inv s" and ord: "range_order fk sk s" and d: "d < length (dirs s)" "walk s 0 cs = Some d"
    and sub: "\<And>k v. dSubDirs (dirs s ! d) k = Some v \<Longrightarrow>
      distinct (P k) \<and> set (P k) = below s (cs @ [k]) v \<and> pr v = Some (concat (map (line s) (P k)))"
  shows "\<exists>ps. distinct ps \<and> set ps = below s cs d \<and>
    (case those (map (\<lambda>k. case dSubDirs (dirs s ! d) k of None \<Rightarrow> Some [] | Some v \<Rightarrow> pr v) (sk d)) of
       None \<Rightarrow> None
     | Some subs \<Rightarrow> Some (tabs (length cs) @ ''[dir]'' @ dName (dirs s ! d) @ [newline] @
         concat (map (\<lambda>k. tabs (length cs) @ k @ [newline]) (fk d)) @ concat subs)) = Some (concat (map (line s) ps))"
proof -
  let ?ps = "(cs, None) # map (\<lambda>n. (cs, Some n)) (fk d) @ concat (map P (sk d))"
  have o: "distinct (fk d)" "set (fk d) = dom (dFiles (dirs s ! d))" "distinct (sk d)" "set (sk d) = dom (dSubDirs (dirs s ! d))"
    using ord d(1) by (simp_all add: range_order_def)
  have subs: "those (map (\<lambda>k. case dSubDirs (dirs s ! d) k of None \<Rightarrow> Some [] | Some v \<Rightarrow> pr v) (sk d)) =
      Some (map (\<lambda>k. concat (map (line s) (P k))) (sk d))"
    by (rule those_Some) (use o(4) sub in auto)
  have st: "set (P k) = below s (cs @ [k]) (the (dSubDirs (dirs s ! d) k))" "distinct (P k)" if "k \<in> set (sk d)" for k
    using that o(4) sub by auto
  have "set ?ps = below s cs d" unfolding below_step[of s cs d] using st(1) o(2,4) by auto
  moreover have "distinct ?ps"
  proof -
    have "distinct (concat (map P (sk d)))"
    proof (rule distinct_concat)
      show "distinct (map P (sk d))"
      proof (subst distinct_map, intro conjI inj_onI)
        fix k k' assume k: "k \<in> set (sk d)" "k' \<in> set (sk d)" "P k = P k'"
        have "below s (cs @ [k]) (the (dSubDirs (dirs s ! d) k)) \<noteq> {}" by (auto simp: below_step[of s "cs @ [k]"])
        with k st(1) below_disjoint show "k = k'" by (metis Int_absorb)
      qed (rule o(3))
      show "set ys \<inter> set zs = {}" if "ys \<in> set (map P (sk d))" "zs \<in> set (map P (sk d))" "ys \<noteq> zs" for ys zs
        using that st(1) below_disjoint by (metis (no_types, lifting) imageE list.set_map)
    qed (use st(2) in auto)
    moreover have "(cs, x) \<notin> set (P k)" if "k \<in> set (sk d)" for k x
      using st(1)[OF that] below_prefix[of "(cs, x)" s "cs @ [k]"] by fastforce
    ultimately show ?thesis using o(1) by (auto simp: distinct_map inj_on_def)
  qed
  ultimately show ?thesis using subs d(2)
    by (intro exI[of _ ?ps]) (simp add: concat_map_line comp_def)
qed

lemma printSubDirs_lists:
  assumes "tree_inv s" "range_order fk sk s" "d < length (dirs s)" "walk s 0 cs = Some d" "length (dirs s) \<le> d + fuel"
  shows "\<exists>ps. distinct ps \<and> set ps = below s cs d \<and>
    printSubDirs fuel fk sk s (length cs) d = Some (concat (map (line s) ps))"
  using assms(3-5)
proof (induction fuel arbitrary: d cs)
  case (Suc fuel)
  have "\<exists>ps. distinct ps \<and> set ps = below s (cs @ [k]) v \<and>
      printSubDirs fuel fk sk s (length cs + 1) v = Some (concat (map (line s) ps))"
    if "dSubDirs (dirs s ! d) k = Some v" for k v
    using Suc.IH[of v "cs @ [k]"] tree_subdir(1,2)[OF assms(1) Suc.prems(1) that] Suc.prems that
    by (auto simp: walk_append)
  then have "\<exists>ps. \<forall>v. dSubDirs (dirs s ! d) k = Some v \<longrightarrow> distinct ps \<and> set ps = below s (cs @ [k]) v \<and>
      printSubDirs fuel fk sk s (length cs + 1) v = Some (concat (map (line s) ps))" for k
    by (cases "dSubDirs (dirs s ! d) k") simp_all
  then obtain P where P: "\<forall>k v. dSubDirs (dirs s ! d) k = Some v \<longrightarrow> distinct (P k) \<and> set (P k) = below s (cs @ [k]) v \<and>
      printSubDirs fuel fk sk s (length cs + 1) v = Some (concat (map (line s) (P k)))"
    using choice[of "\<lambda>k ps. \<forall>v. dSubDirs (dirs s ! d) k = Some v \<longrightarrow> distinct ps \<and> set ps = below s (cs @ [k]) v \<and>
      printSubDirs fuel fk sk s (length cs + 1) v = Some (concat (map (line s) ps))"] by blast
  have "\<exists>ps. distinct ps \<and> set ps = below s cs d \<and>
    (case those (map (\<lambda>k. case dSubDirs (dirs s ! d) k of None \<Rightarrow> Some [] | Some v \<Rightarrow> printSubDirs fuel fk sk s (length cs + 1) v) (sk d)) of
       None \<Rightarrow> None
     | Some subs \<Rightarrow> Some (tabs (length cs) @ ''[dir]'' @ dName (dirs s ! d) @ [newline] @
         concat (map (\<lambda>k. tabs (length cs) @ k @ [newline]) (fk d)) @ concat subs)) = Some (concat (map (line s) ps))"
    by (rule listing_step[OF assms(1,2) Suc.prems(1,2)]) (use P in blast)
  then show ?case unfolding printSubDirs.simps Let_def .
qed simp

lemma PrintDir_step: "PrintDir fuel fk sk s 0 = printSubDirs (Suc fuel) fk sk s 0 0"
  unfolding PrintDir_def printSubDirs.simps tabs_def Let_def by (simp cong: option.case_cong)

text \<open>C21. The debug listing ends, and it shows the namespace: in whatever order the maps are traversed, every directory and
  every file location has exactly one line, indented by its depth, and there are no other lines.\<close>
theorem PrintDir_lists_namespace:
  assumes "fs_inv s" "range_order fk sk s"
  shows "\<exists>ps. distinct ps \<and>
    set ps = {(cs, None) | cs. walk s 0 cs \<noteq> None} \<union> {(cs, Some n) | cs n. ns s (cs, n) \<noteq> None} \<and>
    PrintDir (length (dirs s)) fk sk s (root s) = Some (concat (map (line s) ps))"
proof -
  have t: "tree_inv s" using assms(1) by (simp add: fs_inv_def)
  have "ns s (cs, n) \<noteq> None \<longleftrightarrow> (\<exists>e. walk s 0 cs = Some e \<and> dFiles (dirs s ! e) n \<noteq> None)" for cs n
    by (cases "walk s 0 cs") (auto simp: ns_def lookup_def)
  then have "y \<in> below s [] 0 \<longleftrightarrow> y \<in> {(cs, None) | cs. walk s 0 cs \<noteq> None} \<union> {(cs, Some n) | cs n. ns s (cs, n) \<noteq> None}" for y
    by (cases y; cases "snd y") (auto simp: below_def)
  then have "below s [] 0 = {(cs, None) | cs. walk s 0 cs \<noteq> None} \<union> {(cs, Some n) | cs n. ns s (cs, n) \<noteq> None}"
    by (intro set_eqI)
  moreover have "\<exists>ps. distinct ps \<and> set ps = below s [] 0 \<and>
      printSubDirs (Suc (length (dirs s))) fk sk s 0 0 = Some (concat (map (line s) ps))"
    using printSubDirs_lists[OF t assms(2) tree_root[OF t], of "[]" "Suc (length (dirs s))"]
    by (simp del: printSubDirs.simps)
  ultimately show ?thesis using t by (simp only: PrintDir_step root_tree)
qed

theorem PrintDir_lists_namespace_witness:
  "\<exists>ps. set ps = {(cs, None) | cs. walk NewFS 0 cs \<noteq> None} \<union> {(cs, Some n) | cs n. ns NewFS (cs, n) \<noteq> None} \<and>
     PrintDir (length (dirs NewFS)) (\<lambda>_. []) (\<lambda>_. []) NewFS (root NewFS) = Some (concat (map (line NewFS) ps))"
  using PrintDir_lists_namespace[OF NewFS_inv(1), of "\<lambda>_. []" "\<lambda>_. []"]
  by (auto simp: range_order_def NewFS_def NewDirectory_def)

end
