(* ===== verification/MasterRouter.thy ===== *)
theory MasterRouter
  imports Server_Props NodeRouter FS_Print
begin

text \<open>
  \<open>router/master.go\<close>: the HTTP handlers of a master, over the server, its upload manager and the global
  namespace (\<open>master\<close>).

  The state of the handlers that call storage nodes is the master together with the world \<open>'w\<close> behind the
  HTTP client \<open>get\<close>.  A text that a handler passes to \<open>Context.String\<close> as the format (the address of a node
  or master, a download link) is taken to hold no percent sign; \<open>Fprintf\<close> then writes the text itself.  The debug
  listing, which holds names chosen by clients, goes through \<open>sprintf0\<close>.
\<close>

section \<open>Data\<close>

datatype master_route = MHeartbeat | MDownload | MUpload | MDelete | MUploadCallback | MDebugPrintFS

definition master_routes :: "string \<rightharpoonup> master_route" where
  "master_routes =
     addRoute ''GET'' URLDebugPrintSDFS MDebugPrintFS
      (addRoute ''POST'' URLUploadCallback MUploadCallback
        (addRoute ''GET'' URLSDFSDelete MDelete
          (addRoute ''GET'' URLSDFSUpload MUpload
            (addRoute ''GET'' URLSDFSDownload MDownload
              (addRoute ''POST'' URLSDFSHeartbeat MHeartbeat Map.empty)))))"

text \<open>The body of a heartbeat once it is decoded; the floating-point numbers are kept as their bits.\<close>

record heartbeat =
  hbHost :: string
  hbCPU :: u64
  hbSize :: i64
  hbMemory :: u64
  hbDisk :: i64

datatype heartbeat_body = HBodyError | HBadJson | HBody heartbeat

text \<open>A master operation on a state that also holds the world.\<close>

definition with_world :: "(master, 'a) outcome \<Rightarrow> 'w \<Rightarrow> (master \<times> 'w, 'a) outcome" where
  "with_world r w = (case r of Ret m a \<Rightarrow> Ret (m, w) a | Panic m \<Rightarrow> Panic (m, w) | Block m \<Rightarrow> Block (m, w))"

section \<open>Downloads\<close>

text \<open>\<open>HTTPGetFileDownloadAddress\<close>: whatever the node answers, also an error page, becomes the id.\<close>

definition HTTPGetFileDownloadAddress ::
  "('w \<Rightarrow> string \<Rightarrow> 'w \<times> http_reply) \<Rightarrow> string \<Rightarrow> string \<Rightarrow> string \<Rightarrow> 'w \<Rightarrow> 'w \<times> string option" where
  "HTTPGetFileDownloadAddress get hostname fileHash fileName w =
     (case get w (URLSDFSScheme @ hostname @ URLSDFSDownload @ ''?hash='' @ fileHash @ ''&name='' @ fileName) of
        (w1, NetError) \<Rightarrow> (w1, None)
      | (w1, Broken st) \<Rightarrow> (w1, None)
      | (w1, Reply st b) \<Rightarrow> (w1, Some (URLSDFSScheme @ hostname @ URLDownload @ ''?id='' @ b)))"

definition MasterDownload ::
  "('w \<Rightarrow> string \<Rightarrow> 'w \<times> http_reply) \<Rightarrow> string \<Rightarrow> ctx \<Rightarrow> master \<times> 'w \<Rightarrow> (master \<times> 'w, ctx) outcome" where
  "MasterDownload get path c mw = (case mw of (m, w) \<Rightarrow>
     if path = [] then Ret mw (String 400 ''Bad Request: path not found'' c)
     else obind (with_world (lift_fs (GetFile path (gfs m)) m) w) (\<lambda>(m1, w1) r. case r of
         Inl e \<Rightarrow> Ret (m1, w1) (String 500 ''Internal Server Error: sdfs error'' c)
       | Inr f \<Rightarrow>
           (let hash = Checksum (files (gfs m1) ! f) in
            case Host (files (gfs m1) ! f) of
              [] \<Rightarrow> Panic (m1, w1)
            | v # vs \<Rightarrow>
                obind (with_world (lift_svr (Server_NodeAddr v (svr m1)) m1) w1) (\<lambda>(m2, w2) host.
                  case HTTPGetFileDownloadAddress get host hash (ParseFileName path) w2 of
                    (w3, None) \<Rightarrow> Ret (m2, w3) (String 500 ''Internal Server Error'' c)
                  | (w3, Some url) \<Rightarrow> Ret (m2, w3) (String 200 url c)))))"

section \<open>Deletion\<close>

text \<open>The loop over \<open>f.Host\<close>: the nodes that failed.\<close>

fun delete_hosts ::
  "('w \<Rightarrow> string \<Rightarrow> 'w \<times> http_reply) \<Rightarrow> string \<Rightarrow> i32 list \<Rightarrow> i32 list \<Rightarrow> master \<times> 'w \<Rightarrow> (master \<times> 'w, i32 list) outcome" where
  "delete_hosts get checksum [] failed mw = Ret mw failed"
| "delete_hosts get checksum (v # vs) failed (m, w) =
     obind (with_world (lift_svr (Server_NodeAddr v (svr m)) m) w) (\<lambda>(m1, w1) h.
       case get w1 (URLSDFSScheme @ h @ URLSDFSDelete @ ''?hash='' @ checksum) of
         (w2, rep) \<Rightarrow> (case rep of
             NetError \<Rightarrow> delete_hosts get checksum vs (failed @ [v]) (m1, w2)
           | Broken st \<Rightarrow> delete_hosts get checksum vs (if st \<noteq> 200 then failed @ [v] else failed) (m1, w2)
           | Reply st b \<Rightarrow> delete_hosts get checksum vs (if st \<noteq> 200 then failed @ [v] else failed) (m1, w2)))"

definition MasterDelete ::
  "('w \<Rightarrow> string \<Rightarrow> 'w \<times> http_reply) \<Rightarrow> string \<Rightarrow> ctx \<Rightarrow> master \<times> 'w \<Rightarrow> (master \<times> 'w, ctx) outcome" where
  "MasterDelete get path c mw = (case mw of (m, w) \<Rightarrow>
     if path = [] then Ret mw (String 400 ''Bad Request: path not found'' c)
     else obind (with_world (lift_fs (GetFile path (gfs m)) m) w) (\<lambda>(m1, w1) r. case r of
         Inl e \<Rightarrow> Ret (m1, w1) (String 500 ''Internal Server Error: sdfs error'' c)
       | Inr f \<Rightarrow>
           obind (with_world (lift_fs (File_Lock f (gfs m1)) m1) w1) (\<lambda>(m2, w2) u.
           obind (delete_hosts get (Checksum (files (gfs m2) ! f)) (Host (files (gfs m2) ! f)) [] (m2, w2))
             (\<lambda>(m3, w3) failed.
               if failed = [] then
                 (let m4 = m3\<lparr> gfs := File_Unlock f (gfs m3) \<rparr> in
                  obind (with_world (lift_fs (DeleteFile path (gfs m4)) m4) w3) (\<lambda>(m5, w5) d. case d of
                      Inl e \<Rightarrow> Ret (m5, w5) (String 500 ''Internal Server Error'' c)
                    | Inr u \<Rightarrow> Ret (m5, w5) (String 200 ''Success'' c)))
               else
                 Ret (m3\<lparr> gfs := File_Unlock f (upd_file f (Host_update (\<lambda>_. failed)) (gfs m3)) \<rparr>, w3)
                   (String 500 ''Internal Server Error'' c)))))"

section \<open>Uploads\<close>

definition MasterRequestUpload ::
  "(nat \<Rightarrow> string) \<Rightarrow> ('w \<Rightarrow> string \<Rightarrow> 'w \<times> http_reply) \<Rightarrow> string \<Rightarrow> ctx \<Rightarrow> master \<times> 'w \<Rightarrow> (master \<times> 'w, ctx) outcome" where
  "MasterRequestUpload draws get path c mw =
     (if path = [] then Ret mw (String 400 ''Bad Request'' c)
      else obind (AddUpload draws get path mw) (\<lambda>mw1 r. case r of
          Inl e \<Rightarrow> Ret mw1 (String 500 ''Internal Server Error'' c)
        | Inr (i, n) \<Rightarrow> Ret mw1 (JSON 200 [(''id'', i), (''node'', n)] c)))"

text \<open>The redirect of a follower names the id of the leader, not its address.\<close>

definition HTTPUploadCallbackServer :: "json_body \<Rightarrow> ctx \<Rightarrow> master \<Rightarrow> (master, ctx) outcome" where
  "HTTPUploadCallbackServer b c m =
     obind (lift_svr (CM_State (svr m)) m) (\<lambda>m1 st.
       if st \<noteq> LEADER then
         obind (lift_svr (CurrentLeader (svr m1)) m1) (\<lambda>m2 l. Ret m2 (String 307 (show_int (sint l)) c))
       else (case b of
           BodyError \<Rightarrow> Ret m1 (String 400 ''Bad Request'' c)
         | BadJson \<Rightarrow> Ret m1 (String 400 ''Bad Request'' c)
         | JObj q \<Rightarrow>
             (case (field q ''id'', field q ''hash'') of
                (Some i, Some hash) \<Rightarrow>
                  obind (FinishUpload i hash m1) (\<lambda>m2 r. case r of
                      Inl e \<Rightarrow> Ret m2 (String 500 ''Internal Server Error'' c)
                    | Inr u \<Rightarrow> Ret m2 (String 200 ''Success'' c))
              | _ \<Rightarrow> Panic m1)))"

section \<open>Heartbeats\<close>

text \<open>The two numbers are the ids that \<open>UpdateNode\<close> may draw.\<close>

definition HeartbeatHandler :: "i32 \<Rightarrow> i32 \<Rightarrow> heartbeat_body \<Rightarrow> ctx \<Rightarrow> master \<Rightarrow> (master, ctx) outcome" where
  "HeartbeatHandler r1 r2 b c m =
     obind (lift_svr (CM_State (svr m)) m) (\<lambda>m1 st.
       if st \<noteq> LEADER then
         obind (lift_svr (CurrentLeader (svr m1)) m1) (\<lambda>m2 l.
         obind (lift_svr (PeerAddr l (svr m2)) m2) (\<lambda>m3 leader. Ret m3 (String 307 leader c)))
       else (case b of
           HBodyError \<Rightarrow> Ret m1 (String 400 ''Bad Request'' c)
         | HBadJson \<Rightarrow> Ret m1 (String 400 ''Bad Request'' c)
         | HBody q \<Rightarrow>
             obind (UpdateNode (hbHost q) (hbCPU q) (hbMemory q) (hbSize q) (hbDisk q) r1 r2 m1) (\<lambda>m2 (addr, err).
               if err then Ret m2 (String 307 addr c) else Ret m2 (String 200 ''Success'' c))))"

section \<open>Debugging\<close>

text \<open>The error text is that of \<open>GetDir\<close>, quoted.  A recursion deeper than the number of directories does not end in Go
  before the stack overflows.  \<open>CreateReplicaCallback\<close> is empty, and no route leads to it.\<close>

definition DebugPrintFS :: "(dref \<Rightarrow> string list) \<Rightarrow> (dref \<Rightarrow> string list) \<Rightarrow> ctx \<Rightarrow> master \<Rightarrow> (master, ctx) outcome" where
  "DebugPrintFS fk sk c m =
     obind (lift_fs (GetDir ''/'' (gfs m)) m) (\<lambda>m1 r. case r of
         Inl e \<Rightarrow> Ret m1 (String 500 (''ISE: error: '' @ [CHR 0x22] @ ''directory not exist'' @ [CHR 0x22]) c)
       | Inr dir \<Rightarrow>
           (case PrintDir (length (dirs (gfs m1))) fk sk (gfs m1) dir of
              None \<Rightarrow> Panic m1
            | Some s \<Rightarrow> Ret m1 (String 200 (sprintf0 s) c)))"

definition CreateReplicaCallback :: "ctx \<Rightarrow> master \<Rightarrow> (master, ctx) outcome" where
  "CreateReplicaCallback c m = Ret m c"

section \<open>Dispatch\<close>

text \<open>A request to a master: its raw query, its body as the two handlers of POST requests decode it, and what the handlers
  draw or depend on (ids of nodes, ids of uploads, orders of maps).\<close>

record master_request =
  mqRaw :: string
  mqBody :: json_body
  mqHeartbeat :: heartbeat_body
  mqNodeIds :: "i32 \<times> i32"
  mqDraws :: "nat \<Rightarrow> string"
  mqFiles :: "dref \<Rightarrow> string list"
  mqSubDirs :: "dref \<Rightarrow> string list"

definition master_handler ::
  "('w \<Rightarrow> string \<Rightarrow> 'w \<times> http_reply) \<Rightarrow> master_request \<Rightarrow> master_route \<Rightarrow> ctx \<Rightarrow> master \<times> 'w \<Rightarrow> (master \<times> 'w, ctx) outcome" where
  "master_handler get q h c mw = (case mw of (m, w) \<Rightarrow> (case h of
       MHeartbeat \<Rightarrow> with_world (HeartbeatHandler (fst (mqNodeIds q)) (snd (mqNodeIds q)) (mqHeartbeat q) c m) w
     | MDownload \<Rightarrow> MasterDownload get (Query (mqRaw q) ''path'') c mw
     | MUpload \<Rightarrow> MasterRequestUpload (mqDraws q) get (Query (mqRaw q) ''path'') c mw
     | MDelete \<Rightarrow> MasterDelete get (Query (mqRaw q) ''path'') c mw
     | MUploadCallback \<Rightarrow> with_world (HTTPUploadCallbackServer (mqBody q) c m) w
     | MDebugPrintFS \<Rightarrow> with_world (DebugPrintFS (mqFiles q) (mqSubDirs q) c m) w))"

definition master_serve ::
  "('w \<Rightarrow> string \<Rightarrow> 'w \<times> http_reply) \<Rightarrow> master_request \<Rightarrow> string \<Rightarrow> string \<Rightarrow> master \<times> 'w \<Rightarrow> (master \<times> 'w, ctx) outcome" where
  "master_serve get q meth path = ServeHTTP master_routes (master_handler get q) meth path"

interpretation master_dispatch: dispatcher master_routes "master_handler get q" "master_serve get q" for get q
  by unfold_locales (simp add: master_serve_def)

end
