(* ===== verification/NodeRouter_Props.thy ===== *)
theory NodeRouter_Props
  imports NodeRouter
begin

text \<open>
  The node's handlers: what the clean-up of expired links does to the table, the life of a download
  from the request of a link to the bytes, partial downloads, uploads with their call back, and what
  the error paths leave locked or counted.
\<close>

section \<open>Clean-up of expired links\<close>

text \<open>Reference: a link that expired is dropped together with the turn of the link behind it.\<close>

fun sweep :: "('a \<Rightarrow> bool) \<Rightarrow> 'a list \<Rightarrow> 'a list" where
  "sweep P [] = []"
| "sweep P [x] = (if P x then [] else [x])"
| "sweep P (x # y # ys) = (if P x then y # sweep P ys else x # sweep P (y # ys))"

fun swept :: "('a \<Rightarrow> bool) \<Rightarrow> 'a list \<Rightarrow> 'a list" where
  "swept P [] = []"
| "swept P [x] = (if P x then [x] else [])"
| "swept P (x # y # ys) = (if P x then x # swept P ys else swept P (y # ys))"

lemma sweep_none: "\<forall>x \<in> set xs. \<not> P x \<Longrightarrow> sweep P xs = xs \<and> swept P xs = []"
  by (induction P xs rule: sweep.induct) auto

lemma set_sweep: "set (sweep P xs) \<union> set (swept P xs) = set xs"
proof (induction P xs rule: sweep.induct)
  case (3 P x y ys)
  then show ?case by (cases "P x") (simp_all add: insert_commute)
qed auto

lemma swept_holds: "x \<in> set (swept P xs) \<Longrightarrow> P x"
  by (induction P xs rule: sweep.induct) (auto split: if_splits)

lemma sweep_distinct:
  "distinct xs \<Longrightarrow> distinct (sweep P xs) \<and> distinct (swept P xs) \<and> set (sweep P xs) \<inter> set (swept P xs) = {}"
proof (induction P xs rule: sweep.induct)
  case (3 P x y ys)
  then show ?case using set_sweep[of P ys] set_sweep[of P "y # ys"] by (cases "P x") auto
qed auto

definition sparse :: "('a \<Rightarrow> bool) \<Rightarrow> 'a list \<Rightarrow> bool" where
  "sparse P xs \<longleftrightarrow> (\<forall>i. Suc i < length xs \<longrightarrow> \<not> (P (xs ! i) \<and> P (xs ! Suc i)))"

lemma sparse_Cons2: "sparse P (x # y # ys) \<longleftrightarrow> \<not> (P x \<and> P y) \<and> sparse P (y # ys)"
  unfolding sparse_def by (auto simp: nth_Cons less_Suc_eq_0_disj split: nat.splits)

lemma sparse_tl: "sparse P (x # xs) \<Longrightarrow> sparse P xs"
  unfolding sparse_def by (auto dest: spec[where x = "Suc i" for i])

lemma sweep_sparse: "sparse P xs \<Longrightarrow> sweep P xs = filter (\<lambda>x. \<not> P x) xs"
proof (induction P xs rule: sweep.induct)
  case (3 P x y ys)
  then show ?case using sparse_tl[of P y ys] by (auto simp: sparse_Cons2)
qed auto

text \<open>The loop keeps the processed part, the rest of the slice and, behind its end, copies of its last
  element.\<close>

lemma uq_loop_tail:
  assumes "\<forall>j. i \<le> j \<and> j < i + k \<longrightarrow> \<not> expired t (dlObjs r ! (arr ! j))"
  shows "uq_loop t i k arr len r = Ret r (arr, len)"
  using assms by (induction k arbitrary: i) (auto simp: Let_def)

lemma delete_at_shift:
  "delete_at (length front) (length front + length (x # xs)) (front @ (x # xs) @ replicate m l) =
     front @ xs @ last (x # xs) # replicate m l"
proof -
  have "drop (length xs) ((x # xs) @ replicate m l) = last (x # xs) # replicate m l"
    by (induction xs arbitrary: x) auto
  then show ?thesis by (simp add: delete_at_def)
qed

definition drop_links :: "nat list \<Rightarrow> router \<Rightarrow> router" where
  "drop_links ds r = r\<lparr> downloads := (\<lambda>i. if i \<in> (\<lambda>d. dlID (dlObjs r ! d)) ` set ds then None else downloads r i) \<rparr>"

lemma drop_links_simps [simp]:
  "dlObjs (drop_links ds r) = dlObjs r" "downloadsQueue (drop_links ds r) = downloadsQueue r"
  "rlocks (drop_links ds r) = rlocks r" "wlock (drop_links ds r) = wlock r" "wwait (drop_links ds r) = wwait r"
  "drop_links [] r = r" "rUploads (drop_links ds r) = rUploads r"
  by (simp_all add: drop_links_def)

lemma drop_links_Cons:
  "drop_links (d # ds) r = drop_links ds (r\<lparr> downloads := (downloads r)(dlID (dlObjs r ! d) := None) \<rparr>)"
  by (simp add: drop_links_def fun_eq_iff)

text \<open>One turn of the loop on a link that is kept, and on one that expired.\<close>

lemma uq_keep:
  assumes "\<not> expired t (dlObjs r ! x)"
  shows "uq_loop t (length front) (length (x # xs) + m) (front @ (x # xs) @ replicate m l) (length front + length (x # xs)) r =
    uq_loop t (length (front @ [x])) (length xs + m) ((front @ [x]) @ xs @ replicate m l) (length (front @ [x]) + length xs) r"
  using assms by (simp add: Let_def nth_append)

lemma uq_drop:
  assumes "expired t (dlObjs r ! x)"
  shows "uq_loop t (length front) (length (x # xs) + m) (front @ (x # xs) @ replicate m l) (length front + length (x # xs)) r =
    uq_loop t (Suc (length front)) (length xs + m) (front @ xs @ last (x # xs) # replicate m l) (length front + length xs)
      (r\<lparr> downloads := (downloads r)(dlID (dlObjs r ! x) := None) \<rparr>)"
  using assms delete_at_shift[of front x xs m l] by (simp add: Let_def nth_append)

lemma uq_drop_next:
  assumes "expired t (dlObjs r ! x)" "m = 0 \<or> last (y # ys) = l"
  shows "uq_loop t (length front) (length (x # y # ys) + m) (front @ (x # y # ys) @ replicate m l)
      (length front + length (x # y # ys)) r =
    uq_loop t (length (front @ [y])) (length ys + Suc m) ((front @ [y]) @ ys @ replicate (Suc m) (last (y # ys)))
      (length (front @ [y]) + length ys) (r\<lparr> downloads := (downloads r)(dlID (dlObjs r ! x) := None) \<rparr>)"
proof -
  have rep: "last (y # ys) # replicate m l = replicate (Suc m) (last (y # ys))" using assms(2) by auto
  show ?thesis unfolding uq_drop[OF assms(1)] last_ConsR[OF list.distinct(2)] rep by simp
qed

lemma uq_loop_sweep:
  assumes "m = 0 \<or> \<not> expired t (dlObjs r ! l)" "rest = [] \<or> m = 0 \<or> last rest = l"
    and "m = 0 \<longrightarrow> (\<exists>x \<in> set (butlast rest). expired t (dlObjs r ! x)) \<longrightarrow> \<not> expired t (dlObjs r ! last rest)"
  shows "\<exists>m' l'. uq_loop t (length front) (length rest + m) (front @ rest @ replicate m l) (length front + length rest) r =
    Ret (drop_links (swept (\<lambda>d. expired t (dlObjs r ! d)) rest) r)
        (front @ sweep (\<lambda>d. expired t (dlObjs r ! d)) rest @ replicate m' l',
         length front + length (sweep (\<lambda>d. expired t (dlObjs r ! d)) rest))"
  using assms
proof (induction "\<lambda>d. expired t (dlObjs r ! d)" rest arbitrary: front m l r rule: sweep.induct)
  case 1
  have "uq_loop t (length front) m (front @ replicate m l) (length front) r =
      Ret r (front @ replicate m l, length front)"
    using 1 by (intro uq_loop_tail) (auto simp: nth_append)
  then show ?case by auto
next
  case (2 x)
  show ?case
  proof (cases "expired t (dlObjs r ! x)")
    case True
    then have "m = 0" using 2 by auto
    with True show ?thesis
      unfolding uq_drop[OF True] by (intro exI[of _ 1] exI[of _ x]) (simp add: drop_links_Cons)
  next
    case False
    have "uq_loop t (length (front @ [x])) m ((front @ [x]) @ replicate m l) (length (front @ [x])) r =
        Ret r ((front @ [x]) @ replicate m l, length (front @ [x]))"
      using 2 by (intro uq_loop_tail) (auto simp: nth_append)
    with False show ?thesis unfolding uq_keep[OF False] by auto
  qed
next
  case (3 x y ys)
  show ?case
  proof (cases "expired t (dlObjs r ! x)")
    case True
    let ?r = "r\<lparr> downloads := (downloads r)(dlID (dlObjs r ! x) := None) \<rparr>"
    have lst: "\<not> expired t (dlObjs r ! last (y # ys))"
      using 3(3-5) True by (cases "m = 0") auto
    have "m = 0 \<or> last (y # ys) = l" using 3(4) by simp
    from uq_drop_next[OF True this] show ?thesis
      using "3.hyps"(1)[of ?r "Suc m" "last (y # ys)" "front @ [y]"] True lst
      by (auto simp: drop_links_Cons simp del: uq_loop.simps)
  next
    case False
    from uq_keep[OF False, of front "y # ys" m l] show ?thesis
      using "3.hyps"(2)[of r m l "front @ [x]"] False 3(3-5)
      by (auto simp del: uq_loop.simps)
  qed
qed

text \<open>When the last link expired behind another expired one, the index runs over the end.\<close>

lemma uq_loop_overrun:
  assumes "0 < m" "expired t (dlObjs r ! l)" "rest = [] \<or> last rest = l" "wlock r"
  shows "\<exists>r'. uq_loop t (length front) (length rest + m) (front @ rest @ replicate m l) (length front + length rest) r =
    Panic r' \<and> wlock r'"
  using assms
proof (induction "\<lambda>d. expired t (dlObjs r ! d)" rest arbitrary: front m r rule: sweep.induct)
  case 1
  then show ?case by (cases m) (auto simp: Let_def nth_append)
next
  case (2 x)
  then have "x = l" by simp
  with uq_drop[of t r x front "[]" m l] 2 show ?case by (cases m) (auto simp: Let_def nth_append)
next
  case (3 x y ys)
  show ?case
  proof (cases "expired t (dlObjs r ! x)")
    case True
    let ?r = "r\<lparr> downloads := (downloads r)(dlID (dlObjs r ! x) := None) \<rparr>"
    from uq_drop_next[OF True, of m y ys l front] show ?thesis
      using "3.hyps"(1)[of ?r "Suc m" "front @ [y]"] True 3(3-6)
      by (auto simp del: uq_loop.simps split: if_splits)
  next
    case False
    from uq_keep[OF False, of front "y # ys" m l] show ?thesis
      using "3.hyps"(2)[of r m "front @ [x]"] False 3(3-6)
      by (auto simp del: uq_loop.simps)
  qed
qed

lemma uq_prefix:
  assumes "\<forall>x \<in> set pre. \<not> expired t (dlObjs r ! x)"
  shows "uq_loop t (length front) (length (pre @ rest)) (front @ pre @ rest) (length front + length (pre @ rest)) r =
    uq_loop t (length (front @ pre)) (length rest) (front @ pre @ rest) (length (front @ pre) + length rest) r"
  using assms
proof (induction pre arbitrary: front)
  case (Cons x pre)
  then show ?case
    using uq_keep[of t r x front "pre @ rest" 0] Cons.IH[of "front @ [x]"] by (simp del: uq_loop.simps)
qed simp

definition overrun :: "int \<Rightarrow> router \<Rightarrow> bool" where
  "overrun t r \<longleftrightarrow> downloadsQueue r \<noteq> [] \<and> expired t (dlObjs r ! last (downloadsQueue r)) \<and>
     (\<exists>x \<in> set (butlast (downloadsQueue r)). expired t (dlObjs r ! x))"

lemma uq_overrun:
  assumes "overrun t r" "wlock r"
  shows "\<exists>r'. uq_loop t 0 (length (downloadsQueue r)) (downloadsQueue r) (length (downloadsQueue r)) r =
    Panic r' \<and> wlock r'"
proof -
  let ?q = "downloadsQueue r"
  obtain pre x rest where q: "butlast ?q = pre @ x # rest" "expired t (dlObjs r ! x)"
    "\<forall>y \<in> set pre. \<not> expired t (dlObjs r ! y)"
    using split_list_first_prop[of "butlast ?q" "\<lambda>x. expired t (dlObjs r ! x)"] assms(1)
    unfolding overrun_def by blast
  let ?l = "last ?q"
  have eq: "?q = pre @ x # rest @ [?l]"
    using append_butlast_last_id[of ?q] q(1) assms(1) by (simp add: overrun_def)
  have ex: "expired t (dlObjs r ! ?l)" using assms(1) by (simp add: overrun_def)
  obtain y ys where ys: "rest @ [?l] = y # ys" by (cases rest) auto
  have l: "last (y # ys) = ?l" unfolding ys[symmetric] by simp
  let ?r = "r\<lparr> downloads := (downloads r)(dlID (dlObjs r ! x) := None) \<rparr>"
  have "uq_loop t 0 (length ?q) ?q (length ?q) r =
      uq_loop t (length pre) (length (x # y # ys)) (pre @ x # y # ys) (length pre + length (x # y # ys)) r"
    using uq_prefix[OF q(3), of "[]" "x # y # ys"] eq ys by (simp del: uq_loop.simps)
  also have "\<dots> = uq_loop t (length (pre @ [y])) (length ys + Suc 0) ((pre @ [y]) @ ys @ replicate (Suc 0) ?l)
      (length (pre @ [y]) + length ys) ?r"
    using uq_drop_next[OF q(2), of 0 y ys ?l pre] l by (simp del: uq_loop.simps)
  finally show ?thesis
    using uq_loop_overrun[of "Suc 0" t ?r ?l ys "pre @ [y]"] ex l assms(2)
    by (auto simp del: uq_loop.simps split: if_splits)
qed

definition rt_free :: "router \<Rightarrow> bool" where
  "rt_free r \<longleftrightarrow> rlocks r = 0 \<and> \<not> wlock r \<and> \<not> wwait r"

definition clean :: "int \<Rightarrow> router \<Rightarrow> router" where
  "clean t r = (drop_links (swept (\<lambda>d. expired t (dlObjs r ! d)) (downloadsQueue r)) r)
     \<lparr> downloadsQueue := sweep (\<lambda>d. expired t (dlObjs r ! d)) (downloadsQueue r) \<rparr>"

lemma UpdateQueue_clean:
  assumes "rt_free r" "\<not> overrun t r"
  shows "UpdateQueue t r = Ret (clean t r) ()"
proof -
  let ?q = "downloadsQueue r" and ?P = "\<lambda>d. expired t (dlObjs r ! d)" and ?r = "r\<lparr> wlock := True \<rparr>"
  have "0 = (0 :: nat) \<longrightarrow> (\<exists>x \<in> set (butlast ?q). expired t (dlObjs ?r ! x)) \<longrightarrow> \<not> expired t (dlObjs ?r ! last ?q)"
    using assms(2) by (cases "?q = []") (auto simp: overrun_def)
  from uq_loop_sweep[of 0 t ?r undefined ?q "[]", OF _ _ this]
  obtain m l where "uq_loop t 0 (length ?q) ?q (length ?q) ?r =
      Ret (drop_links (swept ?P ?q) ?r) (sweep ?P ?q @ replicate m l, length (sweep ?P ?q))"
    by (simp del: uq_loop.simps) blast
  then show ?thesis using assms(1)
    by (cases r) (simp add: UpdateQueue_def rt_Lock_def rt_Unlock_def rt_free_def clean_def drop_links_def fun_eq_iff)
qed

lemma UpdateQueue_panic:
  assumes "rt_free r" "overrun t r"
  shows "\<exists>r'. UpdateQueue t r = Panic r' \<and> wlock r'"
  using uq_overrun[of t "r\<lparr> wlock := True \<rparr>"] assms
  by (auto simp: UpdateQueue_def rt_Lock_def rt_free_def overrun_def)

lemma locked_blocks:
  assumes "wlock r"
  shows "rt_Lock r = Block r" "rt_RLock r = Block r" "UpdateQueue t r = Block r" "RequestDownload t rnd h n r = Block r"
  using assms by (simp_all add: rt_Lock_def rt_RLock_def UpdateQueue_def RequestDownload_def)

text \<open>C20. \<open>UpdateQueue\<close> computes a simple function of the queue: it drops an expired link and gives the
  turn of the link behind it away.  If no two neighbours are expired this is the removal of all expired
  links.  But if the last link and any earlier one are expired, it panics with the router locked, and
  after that every request for a link and every download waits for ever.\<close>
theorem UpdateQueue_equals_sweep:
  assumes "rt_free r"
  shows "(if overrun t r
     then \<exists>r'. UpdateQueue t r = Panic r' \<and>
       (\<forall>t' rnd h n i rh c s. RequestDownload t' rnd h n r' = Block r' \<and>
          (i \<noteq> [] \<longrightarrow> NR_Download i rh c (s\<lparr> rt := r' \<rparr>) = Block (s\<lparr> rt := r' \<rparr>)))
     else UpdateQueue t r = Ret (clean t r) ()) \<and>
    (sparse (\<lambda>d. expired t (dlObjs r ! d)) (downloadsQueue r) \<longrightarrow>
       downloadsQueue (clean t r) = filter (\<lambda>d. \<not> expired t (dlObjs r ! d)) (downloadsQueue r))"
proof -
  have "NR_Download i rh c (s\<lparr> rt := r' \<rparr>) = Block (s\<lparr> rt := r' \<rparr>)" if "wlock r'" "i \<noteq> []" for r' i rh c s
    using that by (simp add: NR_Download_def lift_rt_def locked_blocks)
  then have "\<exists>r'. UpdateQueue t r = Panic r' \<and> (\<forall>t' rnd h n i rh c s. RequestDownload t' rnd h n r' = Block r' \<and>
      (i \<noteq> [] \<longrightarrow> NR_Download i rh c (s\<lparr> rt := r' \<rparr>) = Block (s\<lparr> rt := r' \<rparr>)))" if "overrun t r"
    using UpdateQueue_panic[OF assms that] locked_blocks(4) by blast
  then show ?thesis using UpdateQueue_clean[OF assms] by (simp add: clean_def sweep_sparse)
qed

text \<open>Two links, the older one expired.\<close>

definition two_links :: router where
  "two_links = (NewRouter ''m'' ''n'')\<lparr> dlObjs := [NewDownload 0 ''a'' ''h'' ''f'', NewDownload 5000 ''b'' ''h'' ''f''],
     downloads := [''a'' \<mapsto> 0, ''b'' \<mapsto> 1], downloadsQueue := [0, 1] \<rparr>"

theorem UpdateQueue_equals_sweep_witness:
  "\<exists>r. UpdateQueue 5000 two_links = Ret r () \<and> downloadsQueue r = [1]"
proof -
  have "rt_free two_links" "\<not> overrun 5000 two_links" "sparse (\<lambda>d. expired 5000 (dlObjs two_links ! d)) (downloadsQueue two_links)"
    by (simp_all add: two_links_def rt_free_def overrun_def sparse_def expired_def NewDownload_def NewRouter_def less_Suc_eq)
  moreover have "filter (\<lambda>d. \<not> expired 5000 (dlObjs two_links ! d)) (downloadsQueue two_links) = [1]"
    by (simp add: two_links_def expired_def NewDownload_def)
  ultimately show ?thesis using UpdateQueue_equals_sweep[of two_links 5000] by auto
qed

section \<open>The table of links\<close>

definition links_ok :: "router \<Rightarrow> bool" where
  "links_ok r \<longleftrightarrow>
     (\<forall>d \<in> set (downloadsQueue r). d < length (dlObjs r)) \<and>
     distinct (map (\<lambda>d. dlID (dlObjs r ! d)) (downloadsQueue r)) \<and>
     (\<forall>i d. downloads r i = Some d \<longleftrightarrow> d \<in> set (downloadsQueue r) \<and> dlID (dlObjs r ! d) = i)"

lemma links_okD:
  assumes "links_ok r"
  shows "d \<in> set (downloadsQueue r) \<Longrightarrow> d < length (dlObjs r)"
    "downloads r i = Some d \<longleftrightarrow> d \<in> set (downloadsQueue r) \<and> dlID (dlObjs r ! d) = i"
    "distinct (downloadsQueue r)" "inj_on (\<lambda>d. dlID (dlObjs r ! d)) (set (downloadsQueue r))"
  using assms by (auto simp: links_ok_def distinct_map)

lemma links_ok_New: "links_ok (NewRouter m a)" "rt_free (NewRouter m a)"
  by (simp_all add: links_ok_def rt_free_def NewRouter_def)

lemma clean_ok:
  assumes "links_ok r"
  shows "links_ok (clean t r)"
    "downloads r i = Some d \<Longrightarrow> \<not> expired t (dlObjs r ! d) \<Longrightarrow> downloads (clean t r) i = Some d"
    "dlObjs (clean t r) = dlObjs r" "rt_free (clean t r) = rt_free r"
proof -
  let ?q = "downloadsQueue r" and ?P = "\<lambda>d. expired t (dlObjs r ! d)" and ?f = "\<lambda>d. dlID (dlObjs r ! d)"
  note ok = links_okD[OF assms]
  note sets = set_sweep[of ?P ?q] sweep_distinct[OF ok(3), of ?P] swept_holds[of _ ?P ?q]
  have sub: "set (sweep ?P ?q) \<subseteq> set ?q" using sets(1) by blast
  have out: "?f d \<in> ?f ` set (swept ?P ?q) \<longleftrightarrow> d \<in> set (swept ?P ?q)" if "d \<in> set ?q" for d
    using that inj_on_image_mem_iff[OF ok(4), of d "set (swept ?P ?q)"] sets(1) by blast
  have "distinct (map ?f (sweep ?P ?q))"
    using sets(2) inj_on_subset[OF ok(4) sub] by (simp add: distinct_map)
  moreover have "downloads (clean t r) i = Some d \<longleftrightarrow> d \<in> set (sweep ?P ?q) \<and> ?f d = i" for i d
  proof (cases "i \<in> ?f ` set (swept ?P ?q)")
    case True
    moreover have "\<not> (d \<in> set (sweep ?P ?q) \<and> ?f d = i)"
    proof
      assume d: "d \<in> set (sweep ?P ?q) \<and> ?f d = i"
      with sub have "d \<in> set ?q" by blast
      with out d True have "d \<in> set (swept ?P ?q)" by blast
      with d sets(2) show False by blast
    qed
    ultimately show ?thesis by (simp add: clean_def drop_links_def)
  next
    case False
    then have "downloads (clean t r) i = downloads r i" by (simp add: clean_def drop_links_def)
    moreover have "d \<in> set ?q \<longleftrightarrow> d \<in> set (sweep ?P ?q) \<or> d \<in> set (swept ?P ?q)"
      unfolding sets(1)[symmetric] by simp
    moreover have "d \<in> set (swept ?P ?q) \<Longrightarrow> ?f d \<noteq> i" using False by auto
    ultimately show ?thesis using ok(2)[of i d] by auto
  qed
  ultimately show "links_ok (clean t r)"
    using ok(1) sub by (auto simp: links_ok_def clean_def)
  show "dlObjs (clean t r) = dlObjs r" "rt_free (clean t r) = rt_free r"
    by (simp_all add: clean_def rt_free_def)
  assume d: "downloads r i = Some d" "\<not> ?P d"
  then have "d \<in> set ?q" "?f d = i" using ok(2) by auto
  with out[of d] d sets(3) show "downloads (clean t r) i = Some d"
    by (auto simp: clean_def drop_links_def)
qed

text \<open>The state after a link was handed out.\<close>

definition add_link :: "int \<Rightarrow> string \<Rightarrow> string \<Rightarrow> string \<Rightarrow> router \<Rightarrow> router" where
  "add_link t rnd hash filename r =
     r\<lparr> dlObjs := dlObjs r @ [NewDownload t rnd hash filename],
        downloads := (downloads r)(rnd \<mapsto> length (dlObjs r)),
        downloadsQueue := downloadsQueue r @ [length (dlObjs r)] \<rparr>"

lemma add_link_ok:
  assumes "links_ok r" "downloads r rnd = None"
  shows "links_ok (add_link t rnd hash filename r)"
proof -
  note ok = links_okD[OF assms(1)]
  let ?o = "NewDownload t rnd hash filename"
  have old: "(dlObjs r @ [?o]) ! d = dlObjs r ! d" if "d \<in> set (downloadsQueue r)" for d
    using ok(1)[OF that] by (simp add: nth_append)
  have id: "dlID ?o = rnd" by (simp add: NewDownload_def)
  have new: "dlID (dlObjs r ! d) \<noteq> rnd" if "d \<in> set (downloadsQueue r)" for d
    using ok(2)[of rnd d] that assms(2) by auto
  have maps: "map (\<lambda>d. dlID ((dlObjs r @ [?o]) ! d)) (downloadsQueue r) = map (\<lambda>d. dlID (dlObjs r ! d)) (downloadsQueue r)"
    using old by simp
  have "distinct (map (\<lambda>d. dlID ((dlObjs r @ [?o]) ! d)) (downloadsQueue r))"
    unfolding maps using assms(1) by (simp add: links_ok_def)
  moreover have "rnd \<notin> (\<lambda>d. dlID ((dlObjs r @ [?o]) ! d)) ` set (downloadsQueue r)"
    using old new by auto
  ultimately have "distinct (map (\<lambda>d. dlID ((dlObjs r @ [?o]) ! d)) (downloadsQueue r @ [length (dlObjs r)]))"
    using id by simp
  moreover have "((downloads r)(rnd \<mapsto> length (dlObjs r))) i = Some d \<longleftrightarrow>
      d \<in> set (downloadsQueue r @ [length (dlObjs r)]) \<and> dlID ((dlObjs r @ [?o]) ! d) = i" for i d
    using ok(1)[of d] ok(2)[of i d] old[of d] new[of d] id
    by (cases "d = length (dlObjs r)") auto
  ultimately show ?thesis using ok(1) by (auto simp: links_ok_def add_link_def intro: less_SucI)
qed

lemma RequestDownload_ok:
  assumes "rt_free r" "links_ok r" "\<not> overrun t r" "downloads r rnd = None"
  shows "RequestDownload t rnd hash filename r = Ret (add_link t rnd hash filename (clean t r)) rnd"
    "downloads (clean t r) rnd = None"
proof -
  have "rt_free (clean t r)" using clean_ok[OF assms(2)] assms(1) by simp
  moreover show none: "downloads (clean t r) rnd = None"
    using assms(4) by (simp add: clean_def drop_links_def)
  ultimately show "RequestDownload t rnd hash filename r = Ret (add_link t rnd hash filename (clean t r)) rnd"
    unfolding RequestDownload_def UpdateQueue_clean[OF assms(1,3)]
    by (simp add: Let_def rt_Lock_def rt_Unlock_def rt_free_def add_link_def NewDownload_def)
qed

section \<open>The life of a download\<close>

lemma upd_hs_same: "upd_hs i g (upd_hs i f h) = h" if "g (f (hs_files h ! i)) = hs_files h ! i"
  using that by (cases "i < length (hs_files h)") (simp_all add: upd_hs_def list_update_beyond)

lemma Release_Get: "HS_Get k h = (h', Inr i) \<Longrightarrow> Release i h' = h"
  by (auto simp: HS_Get_def Release_def upd_hs_same split: option.splits)

text \<open>Counting one more download of a link.\<close>

definition count_download :: "nat \<Rightarrow> router \<Rightarrow> router" where
  "count_download d r = r\<lparr> dlObjs := (dlObjs r)[d := (dlObjs r ! d)\<lparr> dlCount := dlCount (dlObjs r ! d) + 1 \<rparr>] \<rparr>"

lemma count_download_fields:
  "dlID (dlObjs (count_download d r) ! e) = dlID (dlObjs r ! e)"
  "dlHash (dlObjs (count_download d r) ! e) = dlHash (dlObjs r ! e)"
  "dlFileName (dlObjs (count_download d r) ! e) = dlFileName (dlObjs r ! e)"
  "downloads (count_download d r) = downloads r" "downloadsQueue (count_download d r) = downloadsQueue r"
  "length (dlObjs (count_download d r)) = length (dlObjs r)" "rt_free (count_download d r) = rt_free r"
  "wlock (count_download d r) = wlock r" "wwait (count_download d r) = wwait r"
  by (simp_all add: count_download_def nth_upd_total rt_free_def)

lemma links_ok_count: "links_ok (count_download d r) = links_ok r"
  by (simp only: links_ok_def count_download_fields)

definition found_ctx :: "string \<Rightarrow> ctx \<Rightarrow> ctx" where
  "found_ctx name c = SetHeader ''Content-Disposition'' (''filename='' @ [CHR 0x22] @ name @ [CHR 0x22])
     (SetContentType ''application/octet-stream'' (SetContentType ''text/plain'' c))"

lemma found_ctx_simps [simp]:
  "sentStatus (found_ctx n c) = sentStatus c" "sentBody (found_ctx n c) = sentBody c"
  by (simp_all add: found_ctx_def SetHeader_def SetContentType_def)

text \<open>A download of a link that exists, up to the choice of the range.\<close>

lemma NR_Download_link:
  assumes "i \<noteq> []" "\<not> wlock (rt s)" "\<not> wwait (rt s)" "downloads (rt s) i = Some d"
    "HS_Get (dlHash (dlObjs (rt s) ! d)) (hs s) = (h, Inr f)"
  shows "NR_Download i rh c s = send_file rh f (found_ctx (dlFileName (dlObjs (rt s) ! d)) c)
     (s\<lparr> rt := count_download d (rt s), hs := h \<rparr>)"
  using assms count_download_fields(2,3)[of d "rt s" d]
  by (simp add: NR_Download_def lift_rt_def rt_RLock_def rt_RUnlock_def Let_def found_ctx_def
      count_download_def nth_upd_total)

text \<open>A link to a stored file, on a node whose router is free.\<close>

definition serves :: "string \<Rightarrow> string \<Rightarrow> byte list \<Rightarrow> node_state \<Rightarrow> bool" where
  "serves i k b s \<longleftrightarrow> rt_free (rt s) \<and> links_ok (rt s) \<and> i \<noteq> [] \<and>
     (\<exists>d. downloads (rt s) i = Some d \<and> dlHash (dlObjs (rt s) ! d) = k) \<and>
     hs_s (hs s) k \<noteq> None \<and> hs_disk (hs s) (DataPathPrefix @ k) = Some b"

lemma AddDownload_serves:
  assumes "rt_free (rt s)" "links_ok (rt s)" "\<not> overrun t (rt s)" "downloads (rt s) rnd = None" "rnd \<noteq> []"
    and "hs_s (hs s) k \<noteq> None" "hs_disk (hs s) (DataPathPrefix @ k) = Some b"
  shows "\<exists>s1. NR_AddDownload t rnd k name c s = Ret s1 (String 200 rnd c) \<and> serves rnd k b s1 \<and> hs s1 = hs s"
proof -
  let ?r = "add_link t rnd k name (clean t (rt s))"
  note cl = clean_ok[OF assms(2)] and rq = RequestDownload_ok[OF assms(1-4)]
  have "rt_free ?r" using cl(4) assms(1) by (simp add: rt_free_def add_link_def)
  moreover have "links_ok ?r" by (rule add_link_ok[OF cl(1) rq(2)])
  moreover have "NR_AddDownload t rnd k name c s = Ret (s\<lparr> rt := ?r \<rparr>) (String 200 rnd c)"
    by (simp add: NR_AddDownload_def lift_rt_def rq)
  ultimately show ?thesis using assms(5-7) by (auto simp: serves_def add_link_def NewDownload_def)
qed

lemma Download_served:
  assumes "serves i k b s"
  obtains r name h f where
    "\<forall>rh c. NR_Download i rh c s = send_file rh f (found_ctx name c) (s\<lparr> rt := r, hs := h \<rparr>)"
    "hs_s (hs s) k = Some f" "h = upd_hs f (OpenCount_update (\<lambda>c. c + 1)) (hs s)"
    "Release f h = hs s" "hs_disk h (DataPathPrefix @ k) = Some b" "serves i k b (s\<lparr> rt := r \<rparr>)"
proof -
  obtain d f where d: "downloads (rt s) i = Some d" "dlHash (dlObjs (rt s) ! d) = k" "hs_s (hs s) k = Some f"
    using assms by (auto simp: serves_def)
  let ?h = "upd_hs f (OpenCount_update (\<lambda>c. c + 1)) (hs s)" and ?r = "count_download d (rt s)"
  have get: "HS_Get k (hs s) = (?h, Inr f)" using d(3) by (simp add: HS_Get_def)
  show thesis
  proof (rule that)
    show "\<forall>rh c. NR_Download i rh c s =
        send_file rh f (found_ctx (dlFileName (dlObjs (rt s) ! d)) c) (s\<lparr> rt := ?r, hs := ?h \<rparr>)"
      using assms d get by (intro allI NR_Download_link) (auto simp: serves_def rt_free_def)
    show "Release f ?h = hs s" by (rule Release_Get[OF get])
    have "\<exists>e. downloads ?r i = Some e \<and> dlHash (dlObjs ?r ! e) = k"
      using d by (auto simp: count_download_fields)
    then show "serves i k b (s\<lparr> rt := ?r \<rparr>)"
      using assms by (simp add: serves_def count_download_fields links_ok_count)
  qed (use assms d in \<open>simp_all add: serves_def count_download_fields links_ok_count upd_hs_def\<close>)
qed

lemma Download_whole:
  assumes "serves i k b s" "hs_inv digest (hs s)" "b \<noteq> []" "sentStatus c = None" "sentBody c = []"
  shows "\<exists>s2 c2. NR_Download i [] c s = Ret s2 c2 \<and> sentBody c2 = [Bytes b] \<and> sentStatus c2 = Some 200 \<and>
    serves i k b s2 \<and> hs s2 = hs s"
proof -
  obtain r name h f where dl: "\<forall>rh c. NR_Download i rh c s = send_file rh f (found_ctx name c) (s\<lparr> rt := r, hs := h \<rparr>)"
    "hs_s (hs s) k = Some f" "h = upd_hs f (OpenCount_update (\<lambda>c. c + 1)) (hs s)"
    "Release f h = hs s" "hs_disk h (DataPathPrefix @ k) = Some b" "serves i k b (s\<lparr> rt := r \<rparr>)"
    by (rule Download_served[OF assms(1)])
  have "Hash (hs_files h ! f) = k"
    using hs_inv_entry[OF assms(2) dl(2)] unfolding dl(3) by (simp add: entry_ok_def upd_hs_def)
  then have "NR_Download i [] c s = Ret (s\<lparr> rt := r \<rparr>) (Write (Bytes b) (found_ctx name c))"
    using dl(1,4,5) assms(3) by (simp add: send_file_def ParseRange_def send_whole_def Let_def)
  then show ?thesis
    using dl(6) assms(4,5)
    by (intro exI[of _ "s\<lparr> rt := r \<rparr>"] exI[of _ "Write (Bytes b) (found_ctx name c)"])
      (simp add: Write_def WriteHeader_def Let_def)
qed

text \<open>C16. A link delivers what the store holds: a node with a free router, whose clean-up of links does not panic
  (see \<open>UpdateQueue_equals_sweep\<close>), is asked for a link to a stored file and answers with a fresh id, and a download of this id without a range sends exactly the bytes on disk (at least one) with status 200.  The
  store is afterwards as it was, so that the file can be removed; the router is unlocked and has the link, which serves the
  file again.  (Its table of links has changed: the new link has been added and counted, and expired ones may have been swept.)\<close>
theorem download_delivers_stored_bytes:
  assumes "rt_free (rt s)" "links_ok (rt s)" "\<not> overrun t (rt s)" "downloads (rt s) rnd = None" "rnd \<noteq> []"
    and "hs_inv digest (hs s)" "hs_s (hs s) k \<noteq> None" "hs_disk (hs s) (DataPathPrefix @ k) = Some b" "b \<noteq> []"
  shows "\<exists>s1 s2 c. NR_AddDownload t rnd k name NewContext s = Ret s1 (String 200 rnd NewContext) \<and>
    NR_Download rnd [] NewContext s1 = Ret s2 c \<and> sentBody c = [Bytes b] \<and> sentStatus c = Some 200 \<and>
    hs s2 = hs s \<and> serves rnd k b s2"
proof -
  obtain s1 where s1: "NR_AddDownload t rnd k name NewContext s = Ret s1 (String 200 rnd NewContext)"
    "serves rnd k b s1" "hs s1 = hs s"
    using AddDownload_serves[OF assms(1-5,7,8)] by blast
  from Download_whole[OF s1(2), of digest NewContext] s1 assms(6,9) show ?thesis
    by (auto simp: NewContext_def)
qed

text \<open>A node with one stored file of one byte.\<close>

definition small_node :: node_state where
  "small_node = \<lparr> rt = NewRouter ''m'' ''n'', hs = fst (HS_Add len_digest (plain_env [7]) NewHashStore) \<rparr>"

lemma small_node_ok:
  "rt_free (rt small_node)" "links_ok (rt small_node)" "\<not> overrun t (rt small_node)"
  "downloads (rt small_node) i = None" "hs_inv len_digest (hs small_node)"
  "hs_s (hs small_node) (object_name (len_digest [7])) = Some 0"
  "hs_disk (hs small_node) (DataPathPrefix @ object_name (len_digest [7])) = Some [7]"
  "copies (hs small_node) (object_name (len_digest [7])) = 1" "OpenCount (hs_files (hs small_node) ! 0) = 0"
proof -
  obtain h where "HS_Add len_digest (plain_env [7]) NewHashStore = (h, Inr (object_name (len_digest [7])))"
    "hs_inv len_digest h"
    using HS_Add_ok[OF hs_inv_New sha_sized_len_digest, of "plain_env [7]"]
    by (auto simp: plain_env_def copies_def NewHashStore_def)
  then show "hs_inv len_digest (hs small_node)" by (simp add: small_node_def)
qed (auto simp: small_node_def rt_free_def links_ok_def overrun_def NewRouter_def HS_Add_def Add_commit_def NewHashStore_def
    plain_env_def Let_def copies_def new_hs_file_def)

theorem download_delivers_stored_bytes_witness:
  "\<exists>s1 s2 c. NR_AddDownload 0 ''abcdefgh'' (object_name (len_digest [7])) ''f'' NewContext small_node =
       Ret s1 (String 200 ''abcdefgh'' NewContext) \<and>
     NR_Download ''abcdefgh'' [] NewContext s1 = Ret s2 c \<and> sentBody c = [Bytes [7]]"
  using download_delivers_stored_bytes[OF small_node_ok(1-4) _ small_node_ok(5) _ small_node_ok(7), of "''abcdefgh''" 0 "''f''"]
    small_node_ok(6) by auto

section \<open>Partial downloads\<close>

lemma sint_of_length: "n < 2 ^ 63 \<Longrightarrow> sint (of_nat n :: i64) = int n"
  by (simp add: signed_take_bit_int_eq_self sint_uint uint_nat unat_of_nat)

text \<open>What the handler knows of a served file once \<open>Get\<close> has counted it.\<close>

lemma served_file:
  assumes "serves i k b s" "hs_inv digest (hs s)" "int (length b) < 2 ^ 63"
  obtains r name h f where
    "\<forall>rh c. NR_Download i rh c s = send_file rh f (found_ctx name c) (s\<lparr> rt := r, hs := h \<rparr>)"
    "hs_s (hs s) k = Some f" "h = upd_hs f (OpenCount_update (\<lambda>c. c + 1)) (hs s)"
    "Release f h = hs s" "hs_disk h (DataPathPrefix @ Hash (hs_files h ! f)) = Some b" "serves i k b (s\<lparr> rt := r \<rparr>)"
    "sint (fileSize (hs_files h ! f)) = int (length b)" "f < length (hs_files (hs s))"
proof -
  obtain r name h f where dl: "\<forall>rh c. NR_Download i rh c s = send_file rh f (found_ctx name c) (s\<lparr> rt := r, hs := h \<rparr>)"
    "hs_s (hs s) k = Some f" "h = upd_hs f (OpenCount_update (\<lambda>c. c + 1)) (hs s)"
    "Release f h = hs s" "hs_disk h (DataPathPrefix @ k) = Some b" "serves i k b (s\<lparr> rt := r \<rparr>)"
    by (rule Download_served[OF assms(1)])
  have e: "entry_ok digest (hs s) k f" by (rule hs_inv_entry[OF assms(2) dl(2)])
  have "hs_disk (hs s) (DataPathPrefix @ k) = Some b" using assms(1) by (simp add: serves_def)
  with e have "fileSize (hs_files (hs s) ! f) = of_nat (length b)" by (simp add: entry_ok_def)
  then have "sint (fileSize (hs_files h ! f)) = int (length b)" "Hash (hs_files h ! f) = k"
    using e sint_of_length[of "length b"] assms(3) unfolding dl(3)
    by (auto simp: entry_ok_def upd_hs_def)
  with dl(5,6) e show thesis by (intro that[OF dl(1-4)]) (auto simp: entry_ok_def)
qed

lemma Download_range:
  assumes "serves i k content s" "hs_inv digest (hs s)" "a \<le> b" "b < length content" "int (length content) < 2 ^ 63"
    and "sentStatus c0 = None" "sentBody c0 = []"
  shows "\<exists>s2 c. NR_Download i (''bytes='' @ show_nat a @ ''-'' @ show_nat b) c0 s = Ret s2 c \<and> hs s2 = hs s \<and>
    sentStatus c = Some 200 \<and> sentHeader c ''Content-Length'' = Some (show_nat (b - a + 2)) \<and>
    sentBody c = [Bytes (take (b - a + 2) (drop a content))]"
proof -
  obtain r name h f where dl: "\<forall>rh c. NR_Download i rh c s = send_file rh f (found_ctx name c) (s\<lparr> rt := r, hs := h \<rparr>)"
    "Release f h = hs s" "hs_disk h (DataPathPrefix @ Hash (hs_files h ! f)) = Some content"
    "sint (fileSize (hs_files h ! f)) = int (length content)"
    by (rule served_file[OF assms(1,2,5)])
  let ?rh = "''bytes='' @ show_nat a @ ''-'' @ show_nat b" and ?ra = "\<lparr> Start = int a, End = int b + 1 \<rparr>"
  have p: "ParseRange (int (length content)) ?rh = ParseOk [?ra]"
    using assms(3-5) by (intro ParseRange_pair) simp_all
  have e: "End ?ra - Start ?ra + 1 = int (b - a + 2)" using assms(3) by simp
  have n: "nat (End ?ra - Start ?ra + 1) = b - a + 2" "show_int (End ?ra - Start ?ra + 1) = show_nat (b - a + 2)"
    "nat (Start ?ra) = a" "\<not> Start ?ra < 0"
    unfolding e show_int_of_nat nat_int by simp_all
  have ne: "take (b - a + 2) (drop a content) \<noteq> []" using assms(3,4) by simp
  have "NR_Download i ?rh c0 s = send_range ?ra (int (length content)) f (found_ctx name c0)
      (s\<lparr> rt := r, hs := h \<rparr>)"
    using dl(1,4) p by (simp add: send_file_def Let_def)
  also have "\<dots> = Ret (s\<lparr> rt := r, hs := hs s \<rparr>) (Write (Bytes (take (b - a + 2) (drop a content)))
      (StatusCode 206 (SetHeader ''Content-Length'' (show_nat (b - a + 2))
             (SetHeader ''Content-Range''
               (''bytes '' @ show_int (Start ?ra) @ ''-'' @ show_int (End ?ra) @ ''/'' @ show_int (int (length content)))
               (SetHeader ''Accept-Ranges'' ''bytes'' (found_ctx name c0))))))"
    unfolding send_range_def n using dl(2,3) n(3,4) ne by (simp add: Let_def)
  finally show ?thesis
    using assms(6,7) by (simp add: Write_def WriteHeader_def Let_def StatusCode_def SetHeader_def found_ctx_def SetContentType_def)
qed

text \<open>A request for the bytes from \<open>a\<close> to \<open>b\<close> (both included) of a file is not answered with these
  bytes: the parser makes the end exclusive and the handler adds one to it again, so that one byte too
  many is announced and, unless the range ends the file, sent.  The status that is sent is 200 and not 206.  The
  store is as before.\<close>
theorem range_download_sends_one_byte_more:
  assumes "serves i k content s" "hs_inv digest (hs s)" "a \<le> b" "b < length content" "int (length content) < 2 ^ 63"
  shows "\<exists>s2 c. NR_Download i (''bytes='' @ show_nat a @ ''-'' @ show_nat b) NewContext s = Ret s2 c \<and> hs s2 = hs s \<and>
    sentStatus c = Some 200 \<and> sentHeader c ''Content-Length'' = Some (show_nat (b - a + 2)) \<and>
    sentBody c = [Bytes (take (b - a + 2) (drop a content))]"
  using Download_range[OF assms] by (simp add: NewContext_def)

text \<open>A download with a range the parser refuses, or on which it panics, is never closed: the reader stays
  counted, and the file, which could be deleted before, is then refused for deletion with status 500.\<close>
theorem bad_range_pins_file:
  assumes "serves i k content s" "hs_inv digest (hs s)" "int (length content) < 2 ^ 63"
    and "copies (hs s) k = 1" "hs_s (hs s) k = Some f" "OpenCount (hs_files (hs s) ! f) = 0" "k \<noteq> []"
    and "ParseRange (int (length content)) rh = ParseError \<or> ParseRange (int (length content)) rh = ParsePanic"
  shows "(\<exists>s'. NR_Delete k c s = Ret s' (String 200 ''Success'' c)) \<and>
    (let s1 = final_state (NR_Download i rh NewContext s) in
       OpenCount (hs_files (hs s1) ! f) = 1 \<and>
       NR_Delete k c s1 = Ret s1 (String 500 ''Internal Server Error: sdfs error'' c))"
proof -
  obtain r name h g where dl: "\<forall>rh c. NR_Download i rh c s = send_file rh g (found_ctx name c) (s\<lparr> rt := r, hs := h \<rparr>)"
    "hs_s (hs s) k = Some g" "h = upd_hs g (OpenCount_update (\<lambda>c. c + 1)) (hs s)"
    "sint (fileSize (hs_files h ! g)) = int (length content)" "g < length (hs_files (hs s))"
    by (rule served_file[OF assms(1-3)])
  have g: "g = f" using dl(2) assms(5) by simp
  have fs: "final_state (NR_Download i rh NewContext s) = s\<lparr> rt := r, hs := h \<rparr>"
    using dl(1,4) assms(8) by (auto simp: send_file_def Let_def)
  have rc: "sint (ReplicaCount (hs_files (hs s) ! f)) = 1"
    using copies_Some[OF assms(2,5)] assms(4) by simp
  have oc: "OpenCount (hs_files h ! f) = 1" "sint (ReplicaCount (hs_files h ! f)) = 1" "hs_s h k = Some f"
    using dl(3,5) g assms(5,6) rc by (simp_all add: upd_hs_def)
  have "HS_Remove k h = (h, Inl FileBusy)" using oc by (simp add: HS_Remove_def Let_def)
  moreover have "\<exists>s'. NR_Delete k c s = Ret s' (String 200 ''Success'' c)"
    using assms(5-7) rc by (simp add: NR_Delete_def HS_Remove_def Let_def)
  ultimately show ?thesis unfolding fs Let_def using oc(1) assms(7) by (simp add: NR_Delete_def)
qed

lemma small_node_serves:
  obtains s where "serves ''abcdefgh'' (object_name (len_digest [7])) [7] s" "hs s = hs small_node"
proof -
  have "\<exists>s1. NR_AddDownload 0 ''abcdefgh'' (object_name (len_digest [7])) ''f'' NewContext small_node =
      Ret s1 (String 200 ''abcdefgh'' NewContext) \<and>
    serves ''abcdefgh'' (object_name (len_digest [7])) [7] s1 \<and> hs s1 = hs small_node"
    using small_node_ok(6) by (intro AddDownload_serves[OF small_node_ok(1-4) _ _ small_node_ok(7)]) simp_all
  then show thesis using that by blast
qed

theorem range_download_sends_one_byte_more_witness:
  "\<exists>s s2 c. NR_Download ''abcdefgh'' (''bytes='' @ show_nat 0 @ ''-'' @ show_nat 0) NewContext s = Ret s2 c \<and>
     sentHeader c ''Content-Length'' = Some (show_nat 2) \<and> sentBody c = [Bytes [7]]"
proof -
  obtain s where s: "serves ''abcdefgh'' (object_name (len_digest [7])) [7] s" "hs s = hs small_node"
    by (rule small_node_serves)
  have "\<exists>s2 c. NR_Download ''abcdefgh'' (''bytes='' @ show_nat 0 @ ''-'' @ show_nat 0) NewContext s = Ret s2 c \<and>
     sentHeader c ''Content-Length'' = Some (show_nat 2) \<and> sentBody c = [Bytes [7]]"
    using range_download_sends_one_byte_more[OF s(1), of len_digest 0 0] s(2) small_node_ok(5)
    by (auto simp: numeral_2_eq_2)
  then show ?thesis by blast
qed

theorem bad_range_pins_file_witness:
  "\<exists>s c. let s1 = final_state (NR_Download ''abcdefgh'' ''x'' NewContext s) in
     NR_Delete (object_name (len_digest [7])) c s1 = Ret s1 (String 500 ''Internal Server Error: sdfs error'' c)"
proof -
  obtain s where s: "serves ''abcdefgh'' (object_name (len_digest [7])) [7] s" "hs s = hs small_node"
    by (rule small_node_serves)
  have "length (object_name (len_digest [7])) = 44" by (simp add: length_object_name len_digest_def)
  then have "object_name (len_digest [7]) \<noteq> []" by fastforce
  with bad_range_pins_file[OF s(1), of len_digest 0 "''x''" NewContext] s(2) small_node_ok
  show ?thesis by (intro exI[of _ s]) (auto simp: ParseRange_def slice_to_def Let_def)
qed

section \<open>Requests for unknown links\<close>

text \<open>A writer waits for a reader that never leaves: every request that needs the lock waits, and no request changes the router.\<close>

definition jammed :: "router \<Rightarrow> bool" where
  "jammed r \<longleftrightarrow> \<not> wlock r \<and> 0 < rlocks r \<and> wwait r"

lemma jammed_locks:
  assumes "jammed r"
  shows "rt_Lock r = Block r" "rt_RLock r = Block r" "RequestDownload t rnd h n r = Block r"
  using assms by (cases r; simp add: jammed_def rt_Lock_def rt_RLock_def RequestDownload_def UpdateQueue_def)+

lemma jammed_waits:
  assumes "jammed (rt s)"
  shows "j \<noteq> [] \<Longrightarrow> NR_Download j rh c s = Block s" "NR_AddUpload v c s = Block s" "NR_AddDownload t rnd k n c s = Block s"
  using assms by (cases s; simp add: NR_Download_def NR_AddUpload_def NR_AddDownload_def lift_rt_def jammed_locks)+

lemma jammed_stays:
  assumes "jammed (rt s)"
  shows "rt (fst (final_state (node_serve post digest t rnd env raw rh meth path (s, w)))) = rt s"
proof (rule node_dispatch.every_request[where P = "\<lambda>r. rt (fst (final_state r)) = rt s"])
  fix h c
  show "rt (fst (final_state (node_handler post digest t rnd env raw rh h c (s, w)))) = rt s"
  proof (cases h)
    case RDownload
    then show ?thesis
      using jammed_waits(1)[OF assms, of "Query raw ''id''" rh c]
      by (cases "Query raw ''id'' = []") (simp_all add: node_handler_def with_w_def NR_Download_def)
  qed (auto simp: node_handler_def with_w_def NR_Upload_def NR_Delete_def DebugPrintHS_def jammed_waits[OF assms]
      split: prod.split sum.split option.split)
qed simp

text \<open>C36. One request for a link that does not exist takes the links of a node out of service.  It is answered with
  404 but keeps its read lock; the next writer (here \<open>AddUpload\<close>) waits for ever.  From then on every request that takes the router's lock waits for ever:
  every download with an id, every registration of an upload, every request for a link.  (Uploads of bytes, deletions and the
  debug listing do not take it.)  No request at all changes the state of the router any more.\<close>
theorem unknown_link_stops_router:
  assumes "rt_free (rt s)" "i \<noteq> []" "downloads (rt s) i = None"
  shows "\<exists>s1 s2 c1. NR_Download i rh NewContext s = Ret s1 c1 \<and> sentStatus c1 = Some 404 \<and> hs s1 = hs s \<and>
    NR_AddUpload u c s1 = Block s2 \<and>
    (\<forall>s'. rt s' = rt s2 \<longrightarrow>
       (\<forall>j rh' c. j \<noteq> [] \<longrightarrow> NR_Download j rh' c s' = Block s') \<and> (\<forall>v c. NR_AddUpload v c s' = Block s') \<and>
       (\<forall>t rnd k n c. NR_AddDownload t rnd k n c s' = Block s') \<and>
       (\<forall>post digest t rnd env raw rh' meth path (w :: 'w).
          rt (fst (final_state (node_serve post digest t rnd env raw rh' meth path (s', w)))) = rt s2))"
proof -
  let ?r1 = "(rt s)\<lparr> rlocks := 1 \<rparr>"
  let ?s2 = "s\<lparr> rt := ?r1\<lparr> wwait := True \<rparr> \<rparr>"
  have "NR_Download i rh NewContext s = Ret (s\<lparr> rt := ?r1 \<rparr>) (String 404 ''Not Found: id not exist'' (SetContentType ''text/plain'' NewContext))"
    using assms by (simp add: NR_Download_def rt_RLock_def rt_free_def lift_rt_def Let_def)
  moreover have "NR_AddUpload u c (s\<lparr> rt := ?r1 \<rparr>) = Block ?s2"
    using assms(1) by (simp add: NR_AddUpload_def rt_Lock_def lift_rt_def rt_free_def)
  moreover have "sentStatus (String 404 ''Not Found: id not exist'' (SetContentType ''text/plain'' NewContext)) = Some 404"
    by (simp add: String_def Write_def WriteHeader_def Let_def StatusCode_def SetHeader_def NewContext_def SetContentType_def)
  moreover have "jammed (rt ?s2)" using assms(1) by (simp add: jammed_def rt_free_def)
  then have "jammed (rt s')" if "rt s' = rt ?s2" for s' using that by simp
  note j = this
  have "(\<forall>j rh' c. j \<noteq> [] \<longrightarrow> NR_Download j rh' c s' = Block s') \<and> (\<forall>v c. NR_AddUpload v c s' = Block s') \<and>
       (\<forall>t rnd k n c. NR_AddDownload t rnd k n c s' = Block s') \<and>
       (\<forall>post digest t rnd env raw rh' meth path (w :: 'w).
          rt (fst (final_state (node_serve post digest t rnd env raw rh' meth path (s', w)))) = rt ?s2)" if "rt s' = rt ?s2" for s'
    using that by (simp add: jammed_waits[OF j[OF that]] jammed_stays[OF j[OF that]])
  ultimately show ?thesis by (intro exI[of _ "s\<lparr> rt := ?r1 \<rparr>"] exI[of _ ?s2] exI conjI) simp_all
qed

theorem unknown_link_stops_router_witness:
  "\<exists>s1 s2 c1. NR_Download ''x'' [] NewContext small_node = Ret s1 c1 \<and>
     NR_AddUpload ''u'' NewContext s1 = Block s2 \<and> NR_Download ''y'' [] NewContext s2 = Block s2"
  using unknown_link_stops_router[where 'w = unit and i = "''x''" and rh = "[]" and u = "''u''" and c = NewContext, OF small_node_ok(1) _ small_node_ok(4)]
  by simp (elim exE conjE, intro exI conjI, assumption, assumption, simp)

section \<open>Uploads\<close>

abbreviation callback_url :: "string \<Rightarrow> string" where
  "callback_url a \<equiv> URLSDFSScheme @ a @ ''/api/callback/upload''"

lemma callback_loops:
  assumes "\<forall>w. \<exists>w1. post w (callback_url x) req = (w1, Reply 307 y)"
    "\<forall>w. \<exists>w1. post w (callback_url y) req = (w1, Reply 307 x)"
  shows "HTTPUploadCallback post x req w = None"
proof (rule ccontr)
  assume "HTTPUploadCallback post x req w \<noteq> None"
  then obtain v where "HTTPUploadCallback post x req w = Some v" by blast
  then have "post = post \<and> req = req \<and> (x = x \<or> x = y) \<longrightarrow> False"
  proof (rule HTTPUploadCallback.raw_induct[where P = "\<lambda>p a r w v. p = post \<and> r = req \<and> (a = x \<or> a = y) \<longrightarrow> False", rotated])
    fix cb p a r w v
    assume IH: "\<And>p a r w v. cb p a r w = Some v \<Longrightarrow> p = post \<and> r = req \<and> (a = x \<or> a = y) \<longrightarrow> False"
      and eq: "(case p w (callback_url a) r of (w1, rep) \<Rightarrow> case rep of NetError \<Rightarrow> Some (w1, False)
          | Broken st \<Rightarrow> Some (w1, False)
          | Reply st url \<Rightarrow> if st = 307 then cb p url r w1 else Some (w1, st = 200)) = Some v"
    show "p = post \<and> r = req \<and> (a = x \<or> a = y) \<longrightarrow> False"
    proof
      assume a: "p = post \<and> r = req \<and> (a = x \<or> a = y)"
      then obtain w1 b where "post w (callback_url a) req = (w1, Reply 307 b)" "b = x \<or> b = y"
        using assms by metis
      with eq a have "cb post b req w1 = Some v" by simp
      with IH[OF this] \<open>b = x \<or> b = y\<close> show False by blast
    qed
  qed
  then show False by simp
qed

text \<open>C30. The call back of an upload returns when the redirects of the masters lead somewhere: if every
  redirect goes to an address of smaller rank, the node gets an answer.  But two masters that redirect to each
  other keep it busy for ever.\<close>
theorem upload_callback_terminates:
  fixes rank :: "string \<Rightarrow> nat"
  assumes "\<And>w a w1 url. post w (callback_url a) req = (w1, Reply 307 url) \<Longrightarrow> rank url < rank a"
    and "\<forall>w. \<exists>w1. post' w (callback_url x) req = (w1, Reply 307 y)"
    and "\<forall>w. \<exists>w1. post' w (callback_url y) req = (w1, Reply 307 x)"
  shows "(\<exists>w' ok. HTTPUploadCallback post a req w = Some (w', ok)) \<and> HTTPUploadCallback post' x req w = None"
proof
  show "HTTPUploadCallback post' x req w = None" by (rule callback_loops[of post' x req y w, OF assms(2,3)])
  show "\<exists>w' ok. HTTPUploadCallback post a req w = Some (w', ok)"
  proof (induction "rank a" arbitrary: a w rule: less_induct)
    case less
    obtain w1 rep where p: "post w (callback_url a) req = (w1, rep)" by force
    show ?case
    proof (cases "\<exists>url. rep = Reply 307 url")
      case True
      then obtain url where u: "rep = Reply 307 url" by blast
      with p have "rank url < rank a" using assms(1) by blast
      from less[OF this] p u show ?thesis by (subst HTTPUploadCallback.simps) auto
    next
      case False
      with p show ?thesis by (subst HTTPUploadCallback.simps) (auto split: http_reply.splits)
    qed
  qed
qed

theorem upload_callback_terminates_witness:
  "\<exists>w' ok. HTTPUploadCallback (\<lambda>w url r. ((), if url = callback_url ''a'' then Reply 307 ''b'' else Reply 200 []))
     ''a'' [] () = Some (w', ok)"
proof -
  let ?post = "\<lambda>w url r. ((), if url = callback_url ''a'' then Reply 307 ''b'' else Reply 200 [])"
  let ?rank = "\<lambda>a. if a = ''a'' then 1 else 0 :: nat"
  have "?rank url < ?rank a" if "?post w (callback_url a) [] = (w1, Reply 307 url)" for w w1 :: unit and a url
    using that by (auto split: if_splits)
  from upload_callback_terminates[of ?post "[]" ?rank "\<lambda>w url r. ((), Reply 307 ''c'')" "''c''" "''c''" "''a''" "()", OF this]
  show ?thesis by simp
qed

end
