(* ===== verification/Node_Inv.thy ===== *)
theory Node_Inv
  imports NodeRouter_Props
begin

text \<open>
  The storage node as a state machine: every request that its router answers is a step.  The table of links
  and the hash store stay well-formed along every sequence of answered requests, whatever the network, the
  disk and the clock do; and what the node tells the master about a replica is the truth.
\<close>

section \<open>Steps\<close>

text \<open>The state is paired with the world the node talks to.  The counter of a stored name must be able to
  grow by one when a file arrives.\<close>

definition room :: "(byte list \<Rightarrow> byte list) \<Rightarrow> hs_env \<Rightarrow> node_state \<Rightarrow> bool" where
  "room digest env s \<longleftrightarrow> hs_legal (HAdd env) \<and> copies (hs s) (object_name (digest (body env))) < 2 ^ 31 - 1"

inductive node_step :: "(byte list \<Rightarrow> byte list) \<Rightarrow> node_state \<times> 'w \<Rightarrow> node_state \<times> 'w \<Rightarrow> bool"
  for digest where
  upload: "room digest env s \<Longrightarrow> NR_Upload post digest env i c (s, w) = Ret (s', w') c' \<Longrightarrow>
    node_step digest (s, w) (s', w')"
| add_upload: "NR_AddUpload i c s = Ret s' c' \<Longrightarrow> node_step digest (s, w) (s', w)"
| add_download: "NR_AddDownload t rnd hash name c s = Ret s' c' \<Longrightarrow> node_step digest (s, w) (s', w)"
| download: "NR_Download i rh c s = Ret s' c' \<Longrightarrow> node_step digest (s, w) (s', w)"
| delete: "NR_Delete hash c s = Ret s' c' \<Longrightarrow> node_step digest (s, w) (s', w)"
| replica: "(\<And>link env. fetch link = Some env \<Longrightarrow> room digest env s) \<Longrightarrow>
    CreateReplica get digest fetch b c (s, w) = Ret (s', w') c' \<Longrightarrow> node_step digest (s, w) (s', w')"
| world: "node_step digest (s, w) (s, w')"

inductive node_reachable :: "(byte list \<Rightarrow> byte list) \<Rightarrow> node_state \<times> 'w \<Rightarrow> bool" for digest where
  start: "node_reachable digest (\<lparr> rt = NewRouter m a, hs = NewHashStore \<rparr>, w)"
| step: "node_reachable digest x \<Longrightarrow> node_step digest x y \<Longrightarrow> node_reachable digest y"

definition node_inv :: "(byte list \<Rightarrow> byte list) \<Rightarrow> node_state \<Rightarrow> bool" where
  "node_inv digest s \<longleftrightarrow> links_ok (rt s) \<and> hs_inv digest (hs s) \<and> \<not> wlock (rt s) \<and> \<not> wwait (rt s)"

section \<open>The store\<close>

lemma hs_inv_Add:
  assumes "hs_inv digest (hs s)" "sha_sized digest" "room digest env s" "HS_Add digest env (hs s) = (h, res)"
  shows "hs_inv digest h"
proof (cases res)
  case (Inl e)
  with HS_Add_error[OF assms(1,2), of env h e] assms(3,4) show ?thesis by (simp add: room_def)
next
  case (Inr k)
  with assms(4) have ok: "create_ok env" "body_ok env"
      "rename_ok env \<or> hs_s (hs s) (object_name (digest (body env))) \<noteq> None"
    by (auto simp: HS_Add_def Add_commit_def Let_def split: if_splits option.splits)
  from assms(3) have "length (tmp_name env) = 16" "copies (hs s) (object_name (digest (body env))) < 2 ^ 31 - 1"
    by (simp_all add: room_def)
  from HS_Add_ok[OF assms(1,2) this(1) ok this(2)] assms(4) show ?thesis by auto
qed

lemma upload_node:
  assumes "NR_Upload post digest env i c (s, w) = Ret (s', w') c'"
  shows "s' = s \<or> s' = s\<lparr> hs := fst (HS_Add digest env (hs s)) \<rparr>"
  using assms by (auto simp: NR_Upload_def split: if_splits prod.splits sum.splits option.splits)

lemma replica_node:
  assumes "CreateReplica get digest fetch b c (s, w) = Ret (s', w') c'"
  shows "s' = s \<or> (\<exists>link env. fetch link = Some env \<and> s' = s\<lparr> hs := fst (HS_Add digest env (hs s)) \<rparr>)"
proof -
  have dl: "fst (DownloadFileFromLink digest fetch link s) = s \<or>
      (\<exists>env. fetch link = Some env \<and> fst (DownloadFileFromLink digest fetch link s) = s\<lparr> hs := fst (HS_Add digest env (hs s)) \<rparr>)" for link
    by (simp add: DownloadFileFromLink_def split: option.split prod.split sum.split)
  have "s' = s \<or> (\<exists>link. s' = fst (DownloadFileFromLink digest fetch link s))"
    using assms by (auto simp: CreateReplica_def Let_def split: json_body.splits prod.splits option.splits) (metis fst_conv)+
  with dl show ?thesis by metis
qed

lemma node_inv_hs: "node_inv digest s \<Longrightarrow> hs_inv digest h \<Longrightarrow> node_inv digest (s\<lparr> hs := h \<rparr>)"
  by (simp add: node_inv_def)

lemma node_inv_Add:
  assumes "node_inv digest s" "sha_sized digest" "room digest env s"
  shows "node_inv digest (s\<lparr> hs := fst (HS_Add digest env (hs s)) \<rparr>)"
  using hs_inv_Add[OF _ assms(2,3)] assms(1) by (cases "HS_Add digest env (hs s)") (simp add: node_inv_def)

section \<open>The router\<close>

lemma lift_rt_Ret:
  "obind (lift_rt m s) f = Ret s' c' \<longleftrightarrow> (\<exists>r a. m = Ret r a \<and> f (s\<lparr> rt := r \<rparr>) a = Ret s' c')"
  by (cases m) (auto simp: lift_rt_def)

lemma rt_Lock_Ret: "rt_Lock r = Ret r' u \<longleftrightarrow> \<not> wlock r \<and> rlocks r = 0 \<and> r' = r\<lparr> wlock := True \<rparr>"
  by (auto simp: rt_Lock_def)

lemma add_upload_inv:
  assumes "node_inv digest s" "NR_AddUpload i c s = Ret s' c'"
  shows "node_inv digest s'"
  using assms
  by (auto simp: NR_AddUpload_def lift_rt_Ret rt_Lock_Ret rt_Unlock_def node_inv_def links_ok_def split: if_splits)

lemma RequestDownload_Ret:
  assumes "links_ok r" "\<not> wwait r" "RequestDownload t rnd hash name r = Ret r' i"
  shows "r' = add_link t rnd hash name (clean t r)" "downloads (clean t r) rnd = None" "rt_free r"
proof -
  show free: "rt_free r"
    using assms(2,3) by (auto simp: RequestDownload_def UpdateQueue_def outcome_simps rt_Lock_Ret rt_free_def)
  have over: "\<not> overrun t r"
    using UpdateQueue_panic[OF free, of t] assms(3) by (auto simp: RequestDownload_def)
  show none: "downloads (clean t r) rnd = None"
    using assms(3) UpdateQueue_clean[OF free over]
    by (auto simp: RequestDownload_def outcome_simps Let_def NewDownload_def rt_Lock_Ret split: if_splits)
  have "rt_free (clean t r)" using clean_ok(4)[OF assms(1)] free by simp
  then show "r' = add_link t rnd hash name (clean t r)"
    using assms(3) none UpdateQueue_clean[OF free over]
    by (auto simp: RequestDownload_def outcome_simps Let_def NewDownload_def rt_Lock_Ret rt_Unlock_def add_link_def rt_free_def)
qed

lemma add_download_inv:
  assumes "node_inv digest s" "NR_AddDownload t rnd hash name c s = Ret s' c'"
  shows "node_inv digest s'"
proof -
  have s: "links_ok (rt s)" "\<not> wwait (rt s)" "hs_inv digest (hs s)" using assms(1) by (simp_all add: node_inv_def)
  obtain r i where r: "RequestDownload t rnd hash name (rt s) = Ret r i" "s' = s\<lparr> rt := r \<rparr>"
    using assms(2) by (auto simp: NR_AddDownload_def lift_rt_Ret)
  note rd = RequestDownload_Ret[OF s(1,2) r(1)]
  have "rt_free r" unfolding rd(1) using rd(3) clean_ok(4)[OF s(1)] by (simp add: add_link_def rt_free_def)
  then show ?thesis
    using add_link_ok[OF clean_ok(1)[OF s(1)] rd(2)] rd(1) r(2) s(3) by (simp add: node_inv_def rt_free_def)
qed

lemma send_file_state:
  assumes "hs_inv digest (hs s)"
  shows "rt (final_state (send_file rh i c s)) = rt s" "hs_inv digest (hs (final_state (send_file rh i c s)))"
  using assms Release_keeps[OF assms, of i]
  by (auto simp: send_file_def send_whole_def send_range_def Let_def split: parsed.split list.split option.split)

lemma download_inv:
  assumes "node_inv digest s" "NR_Download i rh c s = Ret s' c'"
  shows "node_inv digest s'"
proof (cases "i = [] \<or> downloads (rt s) i = None")
  case True
  with assms show ?thesis
    by (auto simp: NR_Download_def Let_def lift_rt_Ret rt_RLock_def node_inv_def links_ok_def split: if_splits)
next
  case False
  then obtain d where d: "i \<noteq> []" "downloads (rt s) i = Some d" by auto
  have s: "links_ok (rt s)" "hs_inv digest (hs s)" "\<not> wlock (rt s)" "\<not> wwait (rt s)"
    using assms(1) by (simp_all add: node_inv_def)
  let ?r = "count_download d (rt s)"
  obtain h res where get: "HS_Get (dlHash (dlObjs (rt s) ! d)) (hs s) = (h, res)" by force
  have h: "hs_inv digest h" using HS_Get_keeps[OF s(2) get] by simp
  have "rt s' = ?r \<and> hs_inv digest (hs s')"
  proof (cases res)
    case (Inl e)
    have "d < length (dlObjs (rt s))" using links_okD(1,2)[OF s(1)] d(2) by blast
    then have "s' = s\<lparr> rt := ?r, hs := h \<rparr>"
      using assms(2) d s get Inl
      by (simp add: NR_Download_def Let_def lift_rt_def rt_RLock_def rt_RUnlock_def count_download_def nth_upd_total)
    with h show ?thesis by simp
  next
    case (Inr f)
    with NR_Download_link[OF d(1) s(3,4) d(2)] get
    have "NR_Download i rh c s = send_file rh f (found_ctx (dlFileName (dlObjs (rt s) ! d)) c) (s\<lparr> rt := ?r, hs := h \<rparr>)"
      by simp
    with assms(2) have "s' = final_state (send_file rh f (found_ctx (dlFileName (dlObjs (rt s) ! d)) c) (s\<lparr> rt := ?r, hs := h \<rparr>))"
      by (metis final_state.simps(1))
    with send_file_state[of digest "s\<lparr> rt := ?r, hs := h \<rparr>"] h show ?thesis by simp
  qed
  with s show ?thesis by (simp add: node_inv_def links_ok_count count_download_fields)
qed

lemma delete_inv:
  assumes "node_inv digest s" "NR_Delete hash c s = Ret s' c'"
  shows "node_inv digest s'"
proof (cases "HS_Remove hash (hs s)")
  case (Pair h res)
  have "hs_inv digest h"
    using Pair HS_Remove_ok[of digest "hs s" hash h] HS_Remove_error[of hash "hs s" h] assms(1)
    by (cases res) (auto simp: node_inv_def)
  with assms Pair show ?thesis by (auto simp: NR_Delete_def node_inv_def split: if_splits sum.splits)
qed

section \<open>Invariance\<close>

lemma node_step_inv:
  assumes "node_step digest x y" "sha_sized digest" "node_inv digest (fst x)"
  shows "node_inv digest (fst y)"
  using assms(1,3)
proof (cases rule: node_step.cases)
  case (upload env s post i c w s' w' c')
  with node_inv_Add[OF _ assms(2) upload(3)] upload_node[OF upload(4)] assms(3) show ?thesis by auto
next
  case (replica fetch s get b c w s' w' c')
  with node_inv_Add[OF _ assms(2)] replica_node[OF replica(4)] assms(3) show ?thesis by auto
qed (auto intro: add_upload_inv add_download_inv download_inv delete_inv)

text \<open>C9. Whatever requests a node answers, in whatever order, and whatever the masters, the disk and the clock
  do: its table of links stays consistent (a link is in the map if and only if it is in the queue, under its own
  id), every stored name is the digest name of the bytes on disk, \<open>Size\<close> is the sum of the stored sizes, and no
  answered request leaves the router locked for writing.\<close>
theorem reachable_node_invariant:
  assumes "node_reachable digest x" "sha_sized digest"
  shows "links_ok (rt (fst x)) \<and> hs_inv digest (hs (fst x)) \<and> hs_Size (hs (fst x)) = live_size (hs (fst x)) \<and>
    \<not> wlock (rt (fst x))"
proof -
  have "node_inv digest (fst x)"
    using assms
  proof induction
    case (start m a w)
    show ?case by (simp add: node_inv_def links_ok_New hs_inv_New NewRouter_def links_ok_def)
  qed (blast intro: node_step_inv)
  then show ?thesis using hs_inv_Size[of digest "hs (fst x)"] by (simp add: node_inv_def)
qed

lemma small_node_reachable: "node_reachable len_digest (small_node, ())"
proof -
  let ?s = "\<lparr> rt = NewRouter ''m'' ''n'', hs = NewHashStore \<rparr>"
  have room: "room len_digest (plain_env [7]) ?s"
    by (simp add: room_def plain_env_def copies_def NewHashStore_def)
  obtain c' where "NR_Upload (\<lambda>w url r. (w, NetError)) len_digest (plain_env [7]) ''i'' NewContext (?s, ()) = Ret (small_node, ()) c'"
    by (simp add: NR_Upload_def small_node_def HTTPUploadCallback.simps HS_Add_def Add_commit_def NewHashStore_def
        plain_env_def Let_def)
  from node_reachable.step[OF node_reachable.start node_step.upload[OF room this]] show ?thesis .
qed

theorem reachable_node_invariant_witness: "links_ok (rt small_node) \<and> hs_inv len_digest (hs small_node)"
  using reachable_node_invariant[OF small_node_reachable sha_sized_len_digest] by simp

section \<open>Replicas\<close>

text \<open>C31. What a node reports about a replica.  If the bytes are fetched and stored, the report names the digest of these bytes and says \<open>OK\<close> exactly
  when this is the requested name; the node then holds them under the name it reports.  (Bytes with another name, the answer to
  a link that is gone, for instance, are stored and kept as well, although \<open>FAILED\<close> is reported.)  If nothing can be fetched,
  the report names the empty string: \<open>FAILED\<close>, unless the request names no file, as the request \<open>{}\<close> does: then \<open>OK\<close> is
  reported although nothing has been fetched, and the node is as before.\<close>
theorem replica_report_is_true:
  assumes "node_inv digest s" "sha_sized digest" "field m ''link'' = Some link" "field m ''hash'' = Some want"
  shows "(\<forall>env. fetch link = Some env \<longrightarrow> room digest env s \<longrightarrow> create_ok env \<longrightarrow> body_ok env \<longrightarrow> rename_ok env \<longrightarrow>
      (\<exists>s'. CreateReplica (\<lambda>w u. u # w) digest fetch (JObj m) NewContext (s, []) =
          Ret (s', [report_url (MasterAddr (rt s)) (object_name (digest (body env)))
            (if object_name (digest (body env)) = want then ''OK'' else ''FAILED'')]) (String 200 ''replica task added'' NewContext) \<and>
        hs_s (hs s') (object_name (digest (body env))) \<noteq> None \<and>
        copies (hs s') (object_name (digest (body env))) = Suc (copies (hs s) (object_name (digest (body env)))))) \<and>
    (fetch link = None \<longrightarrow>
      CreateReplica (\<lambda>w u. u # w) digest fetch (JObj m) NewContext (s, []) =
        Ret (s, [report_url (MasterAddr (rt s)) [] (if want = [] then ''OK'' else ''FAILED'')]) (String 200 ''replica task added'' NewContext)) \<and>
    field Map.empty ''link'' = Some [] \<and> field Map.empty ''hash'' = Some []"
proof -
  have "\<exists>s'. CreateReplica (\<lambda>w u. u # w) digest fetch (JObj m) NewContext (s, []) =
          Ret (s', [report_url (MasterAddr (rt s)) (object_name (digest (body env)))
            (if object_name (digest (body env)) = want then ''OK'' else ''FAILED'')]) (String 200 ''replica task added'' NewContext) \<and>
        hs_s (hs s') (object_name (digest (body env))) \<noteq> None \<and>
        copies (hs s') (object_name (digest (body env))) = Suc (copies (hs s) (object_name (digest (body env))))"
    if fe: "fetch link = Some env" "room digest env s" "create_ok env" "body_ok env" "rename_ok env" for env
  proof -
    let ?k = "object_name (digest (body env))"
    have inv: "hs_inv digest (hs s)" using assms(1) by (simp add: node_inv_def)
    have env: "length (tmp_name env) = 16" "copies (hs s) ?k < 2 ^ 31 - 1" using fe(2) by (simp_all add: room_def)
    obtain h where h: "HS_Add digest env (hs s) = (h, Inr ?k)" "hs_inv digest h"
      "copies h = (copies (hs s))(?k := Suc (copies (hs s) ?k))"
      using HS_Add_ok[OF inv assms(2) env(1) fe(3,4) _ env(2)] fe(5) by blast
    have "DownloadFileFromLink digest fetch link s = (s\<lparr> hs := h \<rparr>, ?k)"
      using fe(1) h(1) by (simp add: DownloadFileFromLink_def)
    moreover have "hs_s h ?k \<noteq> None" using copies_pos[OF h(2), of ?k] h(3) by auto
    ultimately show ?thesis
      using assms(3,4) h(3) by (intro exI[of _ "s\<lparr> hs := h \<rparr>"]) (simp add: CreateReplica_def Let_def)
  qed
  then show ?thesis using assms(3,4) by (auto simp: CreateReplica_def DownloadFileFromLink_def field_def)
qed

theorem replica_report_is_true_witness:
  "\<exists>s'. CreateReplica (\<lambda>w u. u # w) len_digest (\<lambda>l. Some (plain_env [7]))
       (JObj [''link'' \<mapsto> JStr ''l'', ''hash'' \<mapsto> JStr ''x'']) NewContext (\<lparr> rt = NewRouter ''m'' ''n'', hs = NewHashStore \<rparr>, []) =
     Ret (s', [report_url ''m'' (object_name (len_digest [7]))
        (if object_name (len_digest [7]) = ''x'' then ''OK'' else ''FAILED'')]) (String 200 ''replica task added'' NewContext)"
proof -
  let ?s = "\<lparr> rt = NewRouter ''m'' ''n'', hs = NewHashStore \<rparr>"
  have inv: "node_inv len_digest ?s" by (simp add: node_inv_def hs_inv_New links_ok_def NewRouter_def)
  have room: "room len_digest (plain_env [7]) ?s"
    by (simp add: room_def plain_env_def copies_def NewHashStore_def)
  show ?thesis
    using replica_report_is_true[OF inv sha_sized_len_digest, of "[''link'' \<mapsto> JStr ''l'', ''hash'' \<mapsto> JStr ''x'']"
        "''l''" "''x''" "\<lambda>l. Some (plain_env [7])"] room
    by (auto simp: plain_env_def NewRouter_def field_def)
qed

end
