(* ===== verification/System.thy ===== *)
theory System
  imports MasterRouter Node_Inv
begin

text \<open>
  A master and a storage node connected: the master's HTTP client reaches the node's router and the node's
  client the master's handlers.  Requests travel as URLs, through \<open>url_parts\<close> and \<open>Query\<close>.

  The deletion of files, and what becomes of object names on the way between master and node.
\<close>

section \<open>The connection\<close>

text \<open>What the client sees of a handler: a panic, and likewise a handler that never answers, is a failed request.\<close>

definition body_text :: "payload list \<Rightarrow> string" where
  "body_text ps = concat (map (\<lambda>p. case p of Text t \<Rightarrow> t | _ \<Rightarrow> []) ps)"

definition answer :: "('s, ctx) outcome \<Rightarrow> 's \<times> http_reply" where
  "answer r = (case r of
       Ret s c \<Rightarrow> (s, Reply (case sentStatus c of None \<Rightarrow> 200 | Some st \<Rightarrow> st) (body_text (sentBody c)))
     | Panic s \<Rightarrow> (s, NetError)
     | Block s \<Rightarrow> (s, NetError))"

definition start_ctx :: ctx where
  "start_ctx = SetHeader ''Content-Type'' ''text/plain'' NewContext"

text \<open>A GET request to the node.\<close>

definition node_get :: "int \<Rightarrow> string \<Rightarrow> node_state \<Rightarrow> string \<Rightarrow> node_state \<times> http_reply" where
  "node_get t rnd s url = (case url_parts url of (host, path, raw) \<Rightarrow>
     (case answer (node_serve (\<lambda>w u r. (w, NetError)) (\<lambda>b. b) t rnd (plain_env []) raw [] ''GET'' path (s, ())) of
        ((s1, u), rep) \<Rightarrow> (s1, rep)))"

text \<open>The call back of an upload at the master with address \<open>maddr\<close>; nothing else is listening.\<close>

definition master_post :: "string \<Rightarrow> master \<Rightarrow> string \<Rightarrow> (string \<times> string) list \<Rightarrow> master \<times> http_reply" where
  "master_post maddr m url req =
     (if url = callback_url maddr
      then answer (HTTPUploadCallbackServer (JObj (map_of (map (apsnd JStr) req))) start_ctx m)
      else (m, NetError))"

lemma start_ctx_simps [simp]: "sentStatus start_ctx = None" "sentBody start_ctx = []"
  by (simp_all add: start_ctx_def SetHeader_def NewContext_def)

lemma String_sent:
  assumes "sentStatus c = None" "sentBody c = []"
  shows "sentStatus (String code t c) = Some code" "sentBody (String code t c) = [Text t]"
  using assms by (simp_all add: String_def Let_def Write_def WriteHeader_def SetContentType_def SetHeader_def StatusCode_def)

lemma answer_String:
  "answer (Ret s (String code t start_ctx)) = (s, Reply code t)"
  by (simp add: answer_def String_sent body_text_def)

section \<open>Requests to the node\<close>

lemma routes:
  "node_routes (''GET'' @ ''/api/sdfs/download'') = Some RAddDownload"
  "node_routes (''GET'' @ ''/api/sdfs/delete'') = Some RDelete"
  "node_routes (''GET'' @ ''/api/download'') = Some RDownload"
  "node_routes (''GET'' @ ''/api/sdfs/upload'') = Some RAddUpload"
  "node_routes (''POST'' @ ''/api/sdfs/replica/request'') = None"
  by (simp_all add: node_routes_def addRoute_def)

lemma node_serve_route:
  "node_routes (meth @ path) = Some h \<Longrightarrow>
   node_serve post digest t rnd env raw rh meth path sw = node_handler post digest t rnd env raw rh h start_ctx sw"
  by (simp add: node_dispatch.routed start_ctx_def)

lemma answer_with_w:
  "(case answer (with_w r w) of ((s1, u), rep) \<Rightarrow> (s1, rep)) = answer r"
  by (cases r) (simp_all add: with_w_def answer_def)

lemma url_download:
  assumes "CHR ''/'' \<notin> set host"
  shows "url_parts (URLSDFSScheme @ host @ ''/api/sdfs/download'' @ ''?hash='' @ k @ ''&name='' @ n) =
     (host, ''/api/sdfs/download'', ''hash='' @ k @ ''&name='' @ n)"
    "url_parts (URLSDFSScheme @ host @ ''/api/sdfs/delete'' @ ''?hash='' @ k) = (host, ''/api/sdfs/delete'', ''hash='' @ k)"
    "url_parts (URLSDFSScheme @ host @ ''/api/download'' @ ''?id='' @ i) = (host, ''/api/download'', ''id='' @ i)"
  using url_parts_query[OF assms, of "''api/sdfs/download''" "''hash='' @ k @ ''&name='' @ n"]
    url_parts_query[OF assms, of "''api/sdfs/delete''" "''hash='' @ k"]
    url_parts_query[OF assms, of "''api/download''" "''id='' @ i"]
  by (simp_all add: URLSDFSScheme_def)

lemma node_get_link:
  assumes "CHR ''/'' \<notin> set host" "plain_query k"
  shows "node_get t rnd s (URLSDFSScheme @ host @ ''/api/sdfs/download'' @ ''?hash='' @ k @ ''&name='' @ n) =
    answer (NR_AddDownload t rnd (blanked k) (Query (''hash='' @ k @ ''&name='' @ n) ''name'') start_ctx s)"
proof -
  have "Query (''hash='' @ k @ ''&name='' @ n) ''hash'' = blanked k"
    using Query_first[of "''hash''" k "''name='' @ n"] assms(2) by simp
  then show ?thesis
    unfolding node_get_def url_download(1)[OF assms(1)] prod.case node_serve_route[OF routes(1)]
    by (simp add: node_handler_def answer_with_w)
qed

lemma node_get_delete:
  assumes "CHR ''/'' \<notin> set host" "plain_query k"
  shows "node_get t rnd s (URLSDFSScheme @ host @ ''/api/sdfs/delete'' @ ''?hash='' @ k) =
    answer (NR_Delete (blanked k) start_ctx s)"
proof -
  have "Query (''hash='' @ k) ''hash'' = blanked k" using Query_one[of "''hash''" k] assms(2) by simp
  then show ?thesis
    unfolding node_get_def url_download(2)[OF assms(1)] prod.case node_serve_route[OF routes(2)]
    by (simp add: node_handler_def answer_with_w)
qed

section \<open>Object names on the way\<close>

lemma object_name_chars:
  "plain_query (object_name d)" "CHR '' '' \<notin> set (object_name d)"
  using set_EncodeToString[of d]
  by (auto simp: object_name_def replace_all_def plain_query_def b64_alphabet_def pad_def split: if_splits)

lemma blanked_unknown:
  assumes "hs_inv digest h" "CHR ''+'' \<in> set k"
  shows "hs_s h (blanked k) = None"
proof (rule ccontr)
  assume "hs_s h (blanked k) \<noteq> None"
  then have "blanked k \<in> dom (hs_s h)" by blast
  then obtain c where "blanked k = object_name (digest c)" using live_name[OF assms(1)] by metis
  with blanked_changes[OF assms(2)] object_name_chars(2) show False by metis
qed

section \<open>Deletion\<close>

text \<open>Reference: all hosts of the file are asked, in order; those that do not answer 200 are collected.\<close>

definition accepted :: "http_reply \<Rightarrow> bool" where
  "accepted rep = (case rep of NetError \<Rightarrow> False | Broken st \<Rightarrow> st = 200 | Reply st b \<Rightarrow> st = 200)"

fun ask_hosts :: "('w \<Rightarrow> string \<Rightarrow> 'w \<times> http_reply) \<Rightarrow> (i32 \<Rightarrow> string) \<Rightarrow> i32 list \<Rightarrow> 'w \<Rightarrow> 'w \<times> i32 list" where
  "ask_hosts get url [] w = (w, [])"
| "ask_hosts get url (v # vs) w =
     (let (w1, rep) = get w (url v); (w2, bad) = ask_hosts get url vs w1
      in (w2, if accepted rep then bad else v # bad))"

definition node_host :: "server \<Rightarrow> i32 \<Rightarrow> string" where
  "node_host s v = (case nodes s v of Some r \<Rightarrow> nAddr (nodeObjs s ! r) | None \<Rightarrow> [])"

definition delete_url :: "server \<Rightarrow> string \<Rightarrow> i32 \<Rightarrow> string" where
  "delete_url s checksum v = URLSDFSScheme @ node_host s v @ ''/api/sdfs/delete'' @ ''?hash='' @ checksum"

lemma NodeAddr_ok: "\<not> cmu (cm s) \<Longrightarrow> Server_NodeAddr v s = Ret s (node_host s v)"
  by (simp add: Server_NodeAddr_def node_host_def)

lemma delete_hosts_asks:
  assumes "\<not> cmu (cm (svr m))"
  shows "delete_hosts get k vs failed (m, w) =
    (case ask_hosts get (delete_url (svr m) k) vs w of (w', bad) \<Rightarrow> Ret (m, w') (failed @ bad))"
proof (induction vs arbitrary: failed w)
  case (Cons v vs)
  have m: "m\<lparr> svr := svr m \<rparr> = m" by (cases m) simp
  obtain w1 rep where g: "get w (delete_url (svr m) k v) = (w1, rep)" by force
  have "delete_hosts get k (v # vs) failed (m, w) =
      delete_hosts get k vs (if accepted rep then failed else failed @ [v]) (m, w1)"
    using g assms by (cases rep) (simp_all add: NodeAddr_ok lift_svr_def with_world_def m delete_url_def accepted_def)
  with Cons.IH g show ?case by (simp split: prod.split)
qed simp

lemma lock_unlock:
  assumes "\<not> fmu (files s ! f)"
  shows "File_Unlock f (upd_file f (fmu_update (\<lambda>_. True)) s) = s"
    "File_Unlock f (upd_file f (Host_update g) (upd_file f (fmu_update (\<lambda>_. True)) s)) = upd_file f (Host_update g) s"
proof -
  have r: "r\<lparr> fmu := False \<rparr> = r" if "\<not> fmu r" for r :: sdfs_file using that by (cases r) simp
  show "File_Unlock f (upd_file f (fmu_update (\<lambda>_. True)) s) = s"
    using assms by (cases "f < length (files s)") (simp_all add: File_Unlock_def upd_file_def r list_update_beyond)
  show "File_Unlock f (upd_file f (Host_update g) (upd_file f (fmu_update (\<lambda>_. True)) s)) = upd_file f (Host_update g) s"
  proof (cases "f < length (files s)")
    case True
    have "(Host_update g (files s ! f))\<lparr> fmu := False \<rparr> = Host_update g (files s ! f)" using assms by (intro r) simp
    with True show ?thesis by (simp add: File_Unlock_def upd_file_def)
  qed (simp add: File_Unlock_def upd_file_def list_update_beyond)
qed

lemma canonical_nonempty: "canonical path \<Longrightarrow> path \<noteq> []"
  using canonical_slash[of path] by auto

lemma MasterDelete_asks:
  assumes "\<not> cmu (cm (svr m))" "fs_inv (gfs m)" "canonical path" "lookup (gfs m) (resolve path) = Some f"
    and "ask_hosts get (delete_url (svr m) (Checksum (files (gfs m) ! f))) (Host (files (gfs m) ! f)) w = (w', bad)"
  shows "MasterDelete get path c (m, w) =
    (if bad = [] then
       obind (with_world (lift_fs (DeleteFile path (gfs m)) m) w') (\<lambda>(m5, w5) d. case d of
           Inl e \<Rightarrow> Ret (m5, w5) (String 500 ''Internal Server Error'' c)
         | Inr u \<Rightarrow> Ret (m5, w5) (String 200 ''Success'' c))
     else Ret (m\<lparr> gfs := upd_file f (Host_update (\<lambda>_. bad)) (gfs m) \<rparr>, w') (String 500 ''Internal Server Error'' c))"
proof -
  have m: "m\<lparr> gfs := gfs m \<rparr> = m" by (cases m) simp
  have get: "GetFile path (gfs m) = Ret (gfs m) (Inr f)"
    using GetFile_lookup[OF fs_invD(1,2)[OF assms(2)], of path] assms(4) by simp
  have fl: "f < length (files (gfs m))" by (rule lookup_file(1)[OF assms(2,4)])
  have fm: "\<not> fmu (files (gfs m) ! f)" using fs_invD(2)[OF assms(2)] fl by (simp add: unlocked_def)
  let ?m = "m\<lparr> gfs := upd_file f (fmu_update (\<lambda>_. True)) (gfs m) \<rparr>"
  have f: "Checksum (files (gfs ?m) ! f) = Checksum (files (gfs m) ! f)" "Host (files (gfs ?m) ! f) = Host (files (gfs m) ! f)"
    by (simp_all add: nth_upd_total)
  have "delete_hosts get (Checksum (files (gfs m) ! f)) (Host (files (gfs m) ! f)) [] (?m, w) = Ret (?m, w') bad"
    using delete_hosts_asks[of ?m get] assms(1,5) by simp
  then show ?thesis
    using get fm canonical_nonempty[OF assms(3)] lock_unlock[OF fm] f m
    by (simp add: MasterDelete_def lift_fs_def with_world_def File_Lock_def)
qed

text \<open>C17. A file at a canonical path is deleted when all its hosts agree: the master asks every node that holds it.  If all answer
  200, the path disappears from the namespace and nothing else changes.  Otherwise the file stays, the answer is
  500, and exactly the nodes that failed remain as its hosts, so that a second attempt asks only them.  In both
  cases all locks are released and the namespace is consistent.\<close>
theorem MasterDelete_needs_all_hosts:
  assumes "\<not> cmu (cm (svr m))" "fs_inv (gfs m)" "canonical path" "lookup (gfs m) (resolve path) = Some f"
    and "ask_hosts get (delete_url (svr m) (Checksum (files (gfs m) ! f))) (Host (files (gfs m) ! f)) w = (w', bad)"
  shows "\<exists>m'. fs_inv (gfs m') \<and> svr m' = svr m \<and>
    (if bad = []
     then MasterDelete get path c (m, w) = Ret (m', w') (String 200 ''Success'' c) \<and>
       ns (gfs m') = (ns (gfs m))(resolve path := None)
     else MasterDelete get path c (m, w) = Ret (m', w') (String 500 ''Internal Server Error'' c) \<and>
       ns (gfs m') = ns (gfs m) \<and> lookup (gfs m') (resolve path) = Some f \<and> Host (files (gfs m') ! f) = bad)"
proof (cases "bad = []")
  case True
  have "ns (gfs m) (resolve path) \<noteq> None" using assms(4) by (simp add: ns_def)
  then obtain t where "DeleteFile path (gfs m) = Ret t (Inr ())" "fs_inv t" "ns t = (ns (gfs m))(resolve path := None)"
    using DeleteFile_spec[OF assms(2,3)] by auto
  with MasterDelete_asks[OF assms] True show ?thesis
    by (intro exI[of _ "m\<lparr> gfs := t \<rparr>"]) (simp add: lift_fs_def with_world_def)
next
  case False
  note hu = host_update[OF assms(2), of f "\<lambda>_. bad"]
  have fl: "f < length (files (gfs m))" by (rule lookup_file(1)[OF assms(2,4)])
  from MasterDelete_asks[OF assms] False hu assms(4) fl show ?thesis
    by (intro exI[of _ "m\<lparr> gfs := upd_file f (Host_update (\<lambda>_. bad)) (gfs m) \<rparr>"]) simp
qed

text \<open>One node that agrees, and one that cannot be reached.\<close>

theorem MasterDelete_needs_all_hosts_witness:
  "\<exists>m m1 m2. ns (gfs m) (resolve ''/a/b'') = Some ''h'' \<and>
     MasterDelete (\<lambda>w u. (w, Reply 200 [])) ''/a/b'' NewContext (m, ()) = Ret (m1, ()) (String 200 ''Success'' NewContext) \<and>
     ns (gfs m1) (resolve ''/a/b'') = None \<and>
     MasterDelete (\<lambda>w u. (w, NetError)) ''/a/b'' NewContext (m, ()) = Ret (m2, ()) (String 500 ''Internal Server Error'' NewContext) \<and>
     ns (gfs m2) (resolve ''/a/b'') = Some ''h''"
proof -
  obtain t where t: "fs_inv t" "ns t = Map.empty((''a'' # [], ''b'') \<mapsto> ''h'')" by (rule added_state)
  then have n: "ns t (resolve ''/a/b'') = Some ''h''" by (simp add: resolve_def)
  then obtain f where f: "lookup t (resolve ''/a/b'') = Some f" by (auto simp: ns_def)
  note hu = host_update[OF t(1), of f "\<lambda>_. [7]"]
  let ?m = "leader_master\<lparr> gfs := upd_file f (Host_update (\<lambda>_. [7])) t \<rparr>"
  let ?u = "delete_url (svr ?m) (Checksum (files (gfs ?m) ! f))"
  have mu: "\<not> cmu (cm (svr ?m))" using leader_master_ok(1) by (simp add: um_free_def)
  have inv: "fs_inv (gfs ?m)" "lookup (gfs ?m) (resolve ''/a/b'') = Some f" "ns (gfs ?m) (resolve ''/a/b'') = Some ''h''"
    using hu f n by simp_all
  have h: "Host (files (gfs ?m) ! f) = [7]" using lookup_file(1)[OF t(1) f] by simp
  have "ask_hosts (\<lambda>w u. (w, Reply 200 [])) ?u (Host (files (gfs ?m) ! f)) () = ((), [])"
    "ask_hosts (\<lambda>w u. (w, NetError)) ?u (Host (files (gfs ?m) ! f)) () = ((), [7])"
    unfolding h by (simp_all add: accepted_def)
  note del = this[THEN MasterDelete_needs_all_hosts[OF mu inv(1) canonical_examples(1) inv(2)], of NewContext]
  obtain m1 where m1: "MasterDelete (\<lambda>w u. (w, Reply 200 [])) ''/a/b'' NewContext (?m, ()) = Ret (m1, ()) (String 200 ''Success'' NewContext)"
    "ns (gfs m1) (resolve ''/a/b'') = None" using del(1) by auto
  obtain m2 where m2: "MasterDelete (\<lambda>w u. (w, NetError)) ''/a/b'' NewContext (?m, ()) = Ret (m2, ()) (String 500 ''Internal Server Error'' NewContext)"
    "ns (gfs m2) = ns (gfs ?m)" using del(2) by auto
  show ?thesis using m1 m2 inv(3) by (intro exI[of _ ?m] exI[of _ m1] exI[of _ m2]) simp
qed

section \<open>Download links\<close>

definition link_url :: "string \<Rightarrow> string \<Rightarrow> string \<Rightarrow> string" where
  "link_url host k name = URLSDFSScheme @ host @ ''/api/sdfs/download'' @ ''?hash='' @ k @ ''&name='' @ name"

lemma MasterDownload_link:
  assumes "\<not> cmu (cm (svr m))" "fs_inv (gfs m)" "canonical path" "lookup (gfs m) (resolve path) = Some f"
    and "Host (files (gfs m) ! f) = v # vs"
    and "get w (link_url (node_host (svr m) v) (Checksum (files (gfs m) ! f)) (ParseFileName path)) = (w1, Reply st b)"
  shows "MasterDownload get path c (m, w) =
    Ret (m, w1) (String 200 (URLSDFSScheme @ node_host (svr m) v @ ''/api/download'' @ ''?id='' @ b) c)"
proof -
  have m: "m\<lparr> gfs := gfs m \<rparr> = m" "m\<lparr> svr := svr m \<rparr> = m" by (cases m, simp)+
  have get: "GetFile path (gfs m) = Ret (gfs m) (Inr f)"
    using GetFile_lookup[OF fs_invD(1,2)[OF assms(2)], of path] assms(4) by simp
  have http: "HTTPGetFileDownloadAddress get (node_host (svr m) v) (Checksum (files (gfs m) ! f)) (ParseFileName path) w =
      (w1, Some (URLSDFSScheme @ node_host (svr m) v @ ''/api/download'' @ ''?id='' @ b))"
    using assms(6) by (simp add: HTTPGetFileDownloadAddress_def link_url_def)
  show ?thesis
    unfolding MasterDownload_def
    using get canonical_nonempty[OF assms(3)] NodeAddr_ok[OF assms(1)] assms(5) http
    by (simp add: lift_fs_def lift_svr_def with_world_def m Let_def del: append.simps)
qed

text \<open>The node's table of links and store allow a new link \<open>rnd\<close>.\<close>

definition link_ready :: "int \<Rightarrow> string \<Rightarrow> node_state \<Rightarrow> bool" where
  "link_ready t rnd s \<longleftrightarrow> rt_free (rt s) \<and> links_ok (rt s) \<and> \<not> overrun t (rt s) \<and> downloads (rt s) rnd = None \<and> rnd \<noteq> []"

lemma link_ready_Add:
  assumes "link_ready t rnd s"
  shows "NR_AddDownload t rnd k name c s = Ret (s\<lparr> rt := add_link t rnd k name (clean t (rt s)) \<rparr>) (String 200 rnd c)"
proof -
  have s: "rt_free (rt s)" "links_ok (rt s)" "\<not> overrun t (rt s)" "downloads (rt s) rnd = None"
    using assms by (simp_all add: link_ready_def)
  show ?thesis by (simp add: NR_AddDownload_def lift_rt_def RequestDownload_ok(1)[OF s])
qed

lemma link_to_unknown:
  assumes "link_ready t rnd s" "hs_s (hs s) k = None"
  shows "\<exists>s2 c. NR_Download rnd rh start_ctx (s\<lparr> rt := add_link t rnd k name (clean t (rt s)) \<rparr>) = Ret s2 c \<and>
    sentStatus c = Some 500 \<and> hs s2 = hs s"
proof -
  let ?r = "add_link t rnd k name (clean t (rt s))" and ?d = "length (dlObjs (rt s))"
  have "rt_free (rt s)" "links_ok (rt s)" "rnd \<noteq> []" using assms(1) by (simp_all add: link_ready_def)
  then have r: "\<not> wlock ?r" "\<not> wwait ?r" "downloads ?r rnd = Some ?d" "dlHash (dlObjs ?r ! ?d) = k" "?d < length (dlObjs ?r)"
    using clean_ok(3,4)[of "rt s" t] by (simp_all add: add_link_def rt_free_def NewDownload_def)
  let ?s = "s\<lparr> rt := count_download ?d ?r \<rparr>"
  let ?c = "String 500 ''Internal Server Error: sdfs error'' (found_ctx (dlFileName (dlObjs ?r ! ?d)) start_ctx)"
  have "NR_Download rnd rh start_ctx (s\<lparr> rt := ?r \<rparr>) = Ret ?s ?c"
    using r assms(2) \<open>rnd \<noteq> []\<close>
    by (simp add: NR_Download_def Let_def lift_rt_def rt_RLock_def rt_RUnlock_def HS_Get_def found_ctx_def count_download_def)
  then show ?thesis using String_sent(1)[of "found_ctx (dlFileName (dlObjs ?r ! ?d)) start_ctx"]
    by (intro exI[of _ ?s] exI[of _ ?c]) simp
qed

text \<open>C35. A file whose name has a plus sign is out of reach: the master puts the name into the query of its
  requests as it is, and the node reads the plus as a blank.  The client gets a link with status 200, but its
  download fails with 500; a deletion is refused by the node, so that the file stays in the namespace and
  in the store for ever.\<close>
theorem names_with_plus_are_unreachable:
  assumes "\<not> cmu (cm (svr m))" "fs_inv (gfs m)" "canonical path" "lookup (gfs m) (resolve path) = Some f"
    and "Host (files (gfs m) ! f) = [v]" "Checksum (files (gfs m) ! f) = object_name d" "CHR ''+'' \<in> set (object_name d)"
    and "CHR ''/'' \<notin> set (node_host (svr m) v)" "link_ready t rnd s" "hs_inv digest (hs s)"
  shows "\<exists>s1 s2 c m'. MasterDownload (node_get t rnd) path start_ctx (m, s) =
      Ret (m, s1) (String 200 (URLSDFSScheme @ node_host (svr m) v @ ''/api/download'' @ ''?id='' @ rnd) start_ctx) \<and>
    NR_Download rnd [] start_ctx s1 = Ret s2 c \<and> sentStatus c = Some 500 \<and>
    MasterDelete (node_get t rnd) path start_ctx (m, s) = Ret (m', s) (String 500 ''Internal Server Error'' start_ctx) \<and>
    ns (gfs m') = ns (gfs m)"
proof -
  let ?k = "object_name d" and ?h = "node_host (svr m) v"
  note unk = blanked_unknown[OF assms(10,7)] and plain = object_name_chars(1)[of d]
  let ?name = "Query (''hash='' @ ?k @ ''&name='' @ ParseFileName path) ''name''"
  let ?s1 = "s\<lparr> rt := add_link t rnd (blanked ?k) ?name (clean t (rt s)) \<rparr>"
  have "node_get t rnd s (link_url ?h ?k (ParseFileName path)) = (?s1, Reply 200 rnd)"
    unfolding link_url_def node_get_link[OF assms(8) plain] link_ready_Add[OF assms(9)] by (rule answer_String)
  then have dl: "MasterDownload (node_get t rnd) path start_ctx (m, s) =
      Ret (m, ?s1) (String 200 (URLSDFSScheme @ ?h @ ''/api/download'' @ ''?id='' @ rnd) start_ctx)"
    using MasterDownload_link[OF assms(1-5), of "node_get t rnd"] assms(6) by simp
  have "blanked ?k \<noteq> []" using blanked_changes[OF assms(7)] by auto
  then have "NR_Delete (blanked ?k) start_ctx s = Ret s (String 500 ''Internal Server Error: sdfs error'' start_ctx)"
    using unk by (simp add: NR_Delete_def HS_Remove_def)
  then have "node_get t rnd s (delete_url (svr m) ?k v) = (s, Reply 500 ''Internal Server Error: sdfs error'')"
    unfolding delete_url_def node_get_delete[OF assms(8) plain] by (simp add: answer_String)
  then have "ask_hosts (node_get t rnd) (delete_url (svr m) (Checksum (files (gfs m) ! f))) (Host (files (gfs m) ! f)) s = (s, [v])"
    using assms(5,6) by (simp add: accepted_def)
  from MasterDelete_asks[OF assms(1-4) this, of start_ctx] host_update(2)[OF assms(2), of f "\<lambda>_. [v]"]
  have "\<exists>m'. MasterDelete (node_get t rnd) path start_ctx (m, s) = Ret (m', s) (String 500 ''Internal Server Error'' start_ctx) \<and>
      ns (gfs m') = ns (gfs m)" by simp
  with dl link_to_unknown[OF assms(9) unk] show ?thesis by blast
qed

section \<open>Uploads through both sides\<close>

text \<open>Ids as \<open>RandomString\<close> makes them travel through a query unchanged.\<close>

definition token :: "string \<Rightarrow> bool" where
  "token i \<longleftrightarrow> i \<noteq> [] \<and> plain_query i \<and> CHR ''+'' \<notin> set i"

lemma Query_token: "token i \<Longrightarrow> Query (''id='' @ i) ''id'' = i"
  using Query_one[of "''id''" i] by (simp add: token_def blanked_id)

lemma callback_leader:
  assumes "um_free m" "cmState (cm (svr m)) = LEADER" "FinishUpload i h m = Ret t (Inr ())"
  shows "HTTPUploadCallback (master_post maddr) maddr [(''id'', i), (''hash'', h), (''host'', a)] m = Some (t, True)"
proof -
  have m: "m\<lparr> svr := svr m \<rparr> = m" by (cases m) simp
  have "HTTPUploadCallbackServer (JObj (map_of (map (apsnd JStr) [(''id'', i), (''hash'', h), (''host'', a)]))) start_ctx m =
      Ret t (String 200 ''Success'' start_ctx)"
    using assms by (simp add: HTTPUploadCallbackServer_def CM_State_def lift_svr_def um_free_def m field_def)
  then have "master_post maddr m (callback_url maddr) [(''id'', i), (''hash'', h), (''host'', a)] = (t, Reply 200 ''Success'')"
    unfolding master_post_def by (simp add: answer_String)
  then show ?thesis by (subst HTTPUploadCallback.simps) simp
qed

lemma callback_follower:
  assumes "\<not> cmu (cm (svr m))" "cmState (cm (svr m)) \<noteq> LEADER" "maddr \<noteq> show_int (sint (currentLeader (cm (svr m))))"
  shows "HTTPUploadCallback (master_post maddr) maddr req m = Some (m, False)"
proof -
  let ?l = "show_int (sint (currentLeader (cm (svr m))))"
  have m: "m\<lparr> svr := svr m \<rparr> = m" by (cases m) simp
  have "HTTPUploadCallbackServer b start_ctx m = Ret m (String 307 ?l start_ctx)" for b
    using assms(1,2) by (simp add: HTTPUploadCallbackServer_def CM_State_def CurrentLeader_def lift_svr_def m)
  then have "master_post maddr m (callback_url maddr) req = (m, Reply 307 ?l)"
    unfolding master_post_def by (simp add: answer_String)
  moreover have "callback_url ?l \<noteq> callback_url maddr" using assms(3) by simp
  then have "master_post maddr m (callback_url ?l) req = (m, NetError)" by (simp add: master_post_def)
  ultimately show ?thesis
    by (subst HTTPUploadCallback.simps, simp) (subst HTTPUploadCallback.simps, simp)
qed

text \<open>An upload through a follower fails and leaks: a node whose master does not lead stores the file, is
  redirected to the number of the leader instead of its address, and answers 500.  The client was told that
  the upload failed, but the store has one more reference to the bytes, which no master knows.\<close>
theorem upload_at_follower_leaks:
  assumes "\<not> cmu (cm (svr m))" "cmState (cm (svr m)) \<noteq> LEADER"
    and "MasterAddr (rt s) \<noteq> show_int (sint (currentLeader (cm (svr m))))"
    and "node_inv digest s" "sha_sized digest" "room digest env s" "create_ok env" "body_ok env" "rename_ok env" "i \<noteq> []"
  shows "\<exists>s'. NR_Upload (master_post (MasterAddr (rt s))) digest env i start_ctx (s, m) =
      Ret (s', m) (String 500 ''Internal Server Error'' start_ctx) \<and>
    copies (hs s') (object_name (digest (body env))) = Suc (copies (hs s) (object_name (digest (body env))))"
proof -
  let ?k = "object_name (digest (body env))"
  have inv: "hs_inv digest (hs s)" using assms(4) by (simp add: node_inv_def)
  have env: "length (tmp_name env) = 16" "copies (hs s) ?k < 2 ^ 31 - 1" using assms(6) by (simp_all add: room_def)
  obtain h where h: "HS_Add digest env (hs s) = (h, Inr ?k)" "copies h = (copies (hs s))(?k := Suc (copies (hs s) ?k))"
    using HS_Add_ok[OF inv assms(5) env(1) assms(7,8) _ env(2)] assms(9) by blast
  then show ?thesis
    using callback_follower[OF assms(1-3)] assms(10)
    by (intro exI[of _ "s\<lparr> hs := h \<rparr>"]) (simp add: NR_Upload_def)
qed

theorem upload_at_follower_leaks_witness:
  "\<exists>s'. NR_Upload (master_post ''m'') len_digest (plain_env [7]) ''i'' start_ctx
       (\<lparr> rt = NewRouter ''m'' ''n'', hs = NewHashStore \<rparr>, \<lparr> svr = fresh_server 1 [2], upm = newUploadManager, gfs = NewFS \<rparr>) =
     Ret (s', \<lparr> svr = fresh_server 1 [2], upm = newUploadManager, gfs = NewFS \<rparr>) (String 500 ''Internal Server Error'' start_ctx)"
proof -
  let ?s = "\<lparr> rt = NewRouter ''m'' ''n'', hs = NewHashStore \<rparr>"
  let ?m = "\<lparr> svr = fresh_server 1 [2], upm = newUploadManager, gfs = NewFS \<rparr>"
  have inv: "node_inv len_digest ?s" by (simp add: node_inv_def hs_inv_New links_ok_def NewRouter_def)
  have room: "room len_digest (plain_env [7]) ?s" by (simp add: room_def plain_env_def copies_def NewHashStore_def)
  have "digit_char d \<noteq> CHR ''m''" if "d < 10" for d using digit_char_bounds[OF that] by auto
  then have "CHR ''m'' \<notin> set (show_nat n)" for n using set_show_nat by metis
  then have "show_nat n \<noteq> ''m''" for n by (metis list.set_intros(1))
  then have "''m'' \<noteq> show_int x" for x by (auto simp: show_int_def dest: sym)
  then show ?thesis
    using upload_at_follower_leaks[OF _ _ _ inv sha_sized_len_digest room, of ?m "''i''"]
    by (auto simp: plain_env_def fresh_server_def NewConsensusModule_def NewRouter_def)
qed

section \<open>A path through the whole system\<close>

text \<open>A leading master that can place an upload of a file named \<open>k\<close> at \<open>path\<close> on the node \<open>r\<close>.\<close>

definition master_ready :: "nat \<Rightarrow> string \<Rightarrow> string \<Rightarrow> master \<Rightarrow> bool" where
  "master_ready r path k m \<longleftrightarrow> um_free m \<and> cmState (cm (svr m)) = LEADER \<and> path \<notin> pending (upm m) \<and>
     First (uploadNodes (upm m)) = Some (Some r) \<and>
     nodeAddr (svr m) (nAddr (nodeObjs (svr m) ! r)) = Some r \<and> nodes (svr m) (nID (nodeObjs (svr m) ! r)) = Some r \<and>
     CHR ''/'' \<notin> set (nAddr (nodeObjs (svr m) ! r)) \<and>
     fs_inv (gfs m) \<and> canonical path \<and> ns (gfs m) (resolve path) = None \<and> ChecksumDB (gfs m) k = None"

text \<open>A storage node that can take the body and hand out the link \<open>rnd\<close>; the digest has no collision with the
  body and the name no plus sign.\<close>

definition node_ready :: "(byte list \<Rightarrow> byte list) \<Rightarrow> hs_env \<Rightarrow> int \<Rightarrow> string \<Rightarrow> node_state \<Rightarrow> bool" where
  "node_ready digest env t rnd s \<longleftrightarrow> node_inv digest s \<and> sha_sized digest \<and> room digest env s \<and>
     create_ok env \<and> body_ok env \<and> rename_ok env \<and> body env \<noteq> [] \<and> link_ready t rnd s \<and> token rnd \<and>
     CHR ''+'' \<notin> set (object_name (digest (body env))) \<and> (\<forall>b. digest b = digest (body env) \<longrightarrow> b = body env)"

lemma upload_step:
  assumes "um_free m" "cmState (cm (svr m)) = LEADER" "FinishUpload i (object_name (digest (body env))) m = Ret t (Inr ())"
    and "node_ready digest env now rnd s" "token i"
  shows "\<exists>h. node_serve (master_post (MasterAddr (rt s))) digest t0 r0 env (''id='' @ i) [] ''POST'' ''/api/upload'' (s, m) =
      Ret (s\<lparr> hs := h \<rparr>, t) (String 202 ''Success'' start_ctx) \<and>
    hs_inv digest h \<and> hs_s h (object_name (digest (body env))) \<noteq> None \<and>
    hs_disk h (DataPathPrefix @ object_name (digest (body env))) = Some (body env)"
proof -
  let ?k = "object_name (digest (body env))"
  have n: "hs_inv digest (hs s)" "sha_sized digest" "length (tmp_name env) = 16" "copies (hs s) ?k < 2 ^ 31 - 1"
    "create_ok env" "body_ok env" "rename_ok env" "\<forall>b. digest b = digest (body env) \<longrightarrow> b = body env"
    using assms(4) by (simp_all add: node_ready_def node_inv_def room_def)
  obtain h where h: "HS_Add digest env (hs s) = (h, Inr ?k)" "hs_inv digest h"
    "copies h = (copies (hs s))(?k := Suc (copies (hs s) ?k))"
    using HS_Add_ok[OF n(1-3,5,6) _ n(4)] n(7) by blast
  have st: "hs_s h ?k \<noteq> None" using copies_pos[OF h(2), of ?k] h(3) by auto
  then obtain j c where j: "hs_s h ?k = Some j" "hs_disk h (DataPathPrefix @ ?k) = Some c" "?k = object_name (digest c)"
    using hs_inv_entry[OF h(2)] unfolding entry_ok_def by blast
  then have "c = body env" using n(8) object_name_inj by metis
  moreover have "node_routes (''POST'' @ ''/api/upload'') = Some RUpload" by (simp add: node_routes_def addRoute_def)
  note route = node_serve_route[OF this]
  have "i \<noteq> []" using assms(5) by (simp add: token_def)
  then have "node_serve (master_post (MasterAddr (rt s))) digest t0 r0 env (''id='' @ i) [] ''POST'' ''/api/upload'' (s, m) =
      Ret (s\<lparr> hs := h \<rparr>, t) (String 202 ''Success'' start_ctx)"
    unfolding route using callback_leader[OF assms(1-3)] h(1)
    by (simp add: node_handler_def Query_token[OF assms(5), simplified] NR_Upload_def)
  ultimately show ?thesis using h(2) st j(2) by blast
qed

lemma link_step:
  assumes "\<not> cmu (cm (svr m))" "fs_inv (gfs m)" "canonical path" "lookup (gfs m) (resolve path) = Some f"
    and "Host (files (gfs m) ! f) = [v]" "Checksum (files (gfs m) ! f) = object_name d" "CHR ''+'' \<notin> set (object_name d)"
    and "CHR ''/'' \<notin> set (node_host (svr m) v)" "link_ready t rnd s"
    and "hs_s (hs s) (object_name d) \<noteq> None" "hs_disk (hs s) (DataPathPrefix @ object_name d) = Some b"
  shows "\<exists>s1. MasterDownload (node_get t rnd) path start_ctx (m, s) =
      Ret (m, s1) (String 200 (URLSDFSScheme @ node_host (svr m) v @ ''/api/download'' @ ''?id='' @ rnd) start_ctx) \<and>
    serves rnd (object_name d) b s1 \<and> hs s1 = hs s"
proof -
  let ?k = "object_name d" and ?h = "node_host (svr m) v"
  let ?name = "Query (''hash='' @ ?k @ ''&name='' @ ParseFileName path) ''name''"
  have lr: "rt_free (rt s)" "links_ok (rt s)" "\<not> overrun t (rt s)" "downloads (rt s) rnd = None" "rnd \<noteq> []"
    using assms(9) by (simp_all add: link_ready_def)
  obtain s1 where s1: "NR_AddDownload t rnd ?k ?name start_ctx s = Ret s1 (String 200 rnd start_ctx)" "serves rnd ?k b s1" "hs s1 = hs s"
    using AddDownload_serves[OF lr assms(10,11)] by blast
  have "node_get t rnd s (link_url ?h ?k (ParseFileName path)) = (s1, Reply 200 rnd)"
    unfolding link_url_def node_get_link[OF assms(8) object_name_chars(1)] blanked_id[OF assms(7)] s1(1) by (rule answer_String)
  then show ?thesis
    using MasterDownload_link[OF assms(1-5), of "node_get t rnd"] assms(6) s1(2,3) by simp
qed

lemma download_step:
  assumes "serves rnd k b s" "hs_inv digest (hs s)" "b \<noteq> []" "token rnd"
  shows "\<exists>s' c. node_serve post digest' t r0 env (''id='' @ rnd) [] ''GET'' ''/api/download'' (s, w) = Ret (s', w) c \<and>
    sentStatus c = Some 200 \<and> sentBody c = [Bytes b] \<and> hs s' = hs s"
proof -
  obtain s' c where "NR_Download rnd [] start_ctx s = Ret s' c" "sentBody c = [Bytes b]" "sentStatus c = Some 200" "hs s' = hs s"
    using Download_whole[OF assms(1-3), of start_ctx] by auto
  then show ?thesis
    unfolding node_serve_route[OF routes(3)]
    by (simp add: node_handler_def Query_token[OF assms(4), simplified] with_w_def)
qed

text \<open>A leader with one registered node.\<close>

lemma one_node_leader:
  obtains m r where "um_free m" "cmState (cm (svr m)) = LEADER" "First (uploadNodes (upm m)) = Some (Some r)"
    "nodeAddr (svr m) ''n:1'' = Some r" "nodes (svr m) 7 = Some r" "nAddr (nodeObjs (svr m) ! r) = ''n:1''"
    "nID (nodeObjs (svr m) ! r) = 7" "gfs m = NewFS" "uploads (upm m) = Map.empty" "pending (upm m) = {}"
proof -
  have "draw_id 7 8 (svr leader_master) = 7"
    by (simp add: draw_id_def leader_master_def fresh_server_def)
  then obtain m r where m: "nodeAddr (svr m) ''n:1'' = Some r" "nodes (svr m) 7 = Some r" "nAddr (nodeObjs (svr m) ! r) = ''n:1''"
    "mset (items (uploadNodes (upm m))) = add_mset r (mset (items (uploadNodes (upm leader_master))))"
    "queue_ok m" "um_free m" "gfs m = gfs leader_master" "uploads (upm m) = uploads (upm leader_master)"
    "pending (upm m) = pending (upm leader_master)" "nID (nodeObjs (svr m) ! r) = 7" "cmState (cm (svr m)) = LEADER"
    using UpdateNode_new[OF leader_master_ok(1-4), of "''n:1''" 0 0 0 500 7 8] by metis
  then have "items (uploadNodes (upm m)) = [r]" by (simp add: leader_master_ok(8))
  then have "First (uploadNodes (upm m)) = Some (Some r)"
    using heap_queue.first_max[of "node_pri (svr m)" "uploadNodes (upm m)"] m(5) by (auto simp: queue_ok_def)
  with m leader_master_ok show thesis by (intro that) simp_all
qed

text \<open>A digest without collisions at one content, and a new node that can take this content.\<close>

definition one_digest :: "byte list \<Rightarrow> byte list" where
  "one_digest b = replicate 32 (if b = [7] then 0 else 1)"

lemma fresh_node_ready:
  "node_ready one_digest (plain_env [7]) 0 ''abcdefgh'' \<lparr> rt = NewRouter ''m'' ''n'', hs = NewHashStore \<rparr>"
proof -
  let ?s = "\<lparr> rt = NewRouter ''m'' ''n'', hs = NewHashStore \<rparr>"
  have "CHR ''+'' \<notin> set (object_name (one_digest [7]))" by code_simp
  moreover have "one_digest b = one_digest [7] \<longrightarrow> b = [7]" for b
    by (simp add: one_digest_def replicate_eq_replicate)
  moreover have "node_inv one_digest ?s" by (simp add: node_inv_def links_ok_def NewRouter_def hs_inv_New)
  moreover have "sha_sized one_digest" by (simp add: sha_sized_def one_digest_def)
  moreover have "room one_digest (plain_env [7]) ?s" by (simp add: room_def plain_env_def copies_def NewHashStore_def)
  moreover have "link_ready 0 ''abcdefgh'' ?s" by (simp add: link_ready_def rt_free_def overrun_def NewRouter_def links_ok_def)
  moreover have "token ''abcdefgh''" by (simp add: token_def plain_query_def)
  ultimately show ?thesis unfolding node_ready_def by (simp add: plain_env_def)
qed

lemma NewFS_index: "ChecksumDB NewFS k = None"
  by (simp add: NewFS_def)

lemma RandomString_token:
  assumes "\<And>i. rnd i < length letterBytes"
  shows "token (RandomString rnd 8)"
proof -
  have "set letterBytes \<inter> {CHR ''%'', CHR ''&'', CHR '';'', CHR ''+''} = {}" by (simp add: letterBytes_def)
  with set_RandomString[of 8 rnd] assms have "set (RandomString rnd 8) \<inter> {CHR ''%'', CHR ''&'', CHR '';'', CHR ''+''} = {}" by blast
  moreover have "RandomString rnd 8 \<noteq> []" by (metis length_RandomString list.size(3) zero_neq_numeral)
  ultimately show ?thesis by (auto simp: token_def plain_query_def)
qed

theorem names_with_plus_are_unreachable_witness:
  "\<exists>m s s1 s2 c. MasterDownload (node_get 0 ''abcdefgh'') ''/a/b'' start_ctx (m, s) =
      Ret (m, s1) (String 200 ''http://n:1/api/download?id=abcdefgh'' start_ctx) \<and>
    NR_Download ''abcdefgh'' [] start_ctx s1 = Ret s2 c \<and> sentStatus c = Some 500"
proof -
  obtain m r where m: "um_free m" "nodes (svr m) 7 = Some r" "nAddr (nodeObjs (svr m) ! r) = ''n:1''" "gfs m = NewFS"
    by (rule one_node_leader)
  let ?k = "object_name [0xF8]"
  have "ns NewFS (resolve ''/a/b'') = None" by (simp add: NewFS_inv)
  moreover have "ChecksumDB NewFS ?k = None" by (simp add: NewFS_def)
  ultimately obtain g f where g: "fs_inv g" "lookup g (resolve ''/a/b'') = Some f" "Checksum (files g ! f) = ?k"
    using AddFile_fresh[OF NewFS_inv(1) canonical_examples(1)] by metis
  let ?g = "upd_file f (Host_update (\<lambda>_. [7])) g"
  note hu = host_update[OF g(1), of f "\<lambda>_. [7]"]
  have fl: "f < length (files g)" by (rule lookup_file(1)[OF g(1,2)])
  let ?m = "m\<lparr> gfs := ?g \<rparr>"
  have f: "\<not> cmu (cm (svr ?m))" "fs_inv (gfs ?m)" "lookup (gfs ?m) (resolve ''/a/b'') = Some f"
    "Host (files (gfs ?m) ! f) = [7]" "Checksum (files (gfs ?m) ! f) = ?k" "node_host (svr ?m) 7 = ''n:1''"
    using m hu g fl by (simp_all add: um_free_def node_host_def)
  have plus: "CHR ''+'' \<in> set ?k" by code_simp
  have nd: "link_ready 0 ''abcdefgh'' small_node" using small_node_ok by (simp add: link_ready_def)
  from names_with_plus_are_unreachable[OF f(1,2) canonical_examples(1) f(3-5) plus _ nd small_node_ok(5)] f(6)
  have "\<exists>s1 s2 c. MasterDownload (node_get 0 ''abcdefgh'') ''/a/b'' start_ctx (?m, small_node) =
      Ret (?m, s1) (String 200 ''http://n:1/api/download?id=abcdefgh'' start_ctx) \<and>
    NR_Download ''abcdefgh'' [] start_ctx s1 = Ret s2 c \<and> sentStatus c = Some 500"
    by (auto simp: URLSDFSScheme_def)
  then show ?thesis by blast
qed

end
