(* ===== verification/Replica.thy ===== *)
theory Replica
  imports System Queues
begin

text \<open>
  \<open>raft/replica.go\<close> (the replica manager of a master) and the executor of \<open>AddFile\<close> commands in
  \<open>raft/file.go\<close>.

  The poller and each task run as goroutines of their own.  A panic in a goroutine that nothing recovers ends
  the whole process; in the model it is \<open>Panic\<close>.  The state holds the queue of tasks and the number of
  tickets in the channel, whose capacity is 10; \<open>pending\<close> can never hold anything (see \<open>ExecuteTask\<close>).
  Nothing in the program calls \<open>Start\<close>, \<open>AddTask\<close> or \<open>newReplicaMngr\<close>, and nothing closes \<open>stop\<close>.
\<close>

section \<open>Replica tasks\<close>

record replica_task =
  rtHost :: string
  ReplicatedNodes :: "string list"
  rtHash :: string
  FailedNodes :: "string list"
  TTL :: i64

record replica_manager =
  rq :: "replica_task queue"
  tickets :: nat

definition newReplicaMngr :: replica_manager where
  "newReplicaMngr = \<lparr> rq = NewQueue, tickets = 0 \<rparr>"

definition AddTask :: "replica_task \<Rightarrow> replica_manager \<Rightarrow> replica_manager" where
  "AddTask task r = r\<lparr> rq := Queue_Push (rq r) (Some task) \<rparr>"

text \<open>The loop of \<open>RequestReplica\<close>: only an answer with another status than 200 sets the error.  The task is a
  copy, so that the failed nodes it collects are lost.\<close>

fun request_nodes ::
  "('w \<Rightarrow> string \<Rightarrow> (string \<times> string) list \<Rightarrow> 'w \<times> http_reply) \<Rightarrow> (string \<times> string) list \<Rightarrow> string list \<Rightarrow> bool \<Rightarrow> 'w \<Rightarrow> 'w \<times> bool" where
  "request_nodes post request [] err w = (w, err)"
| "request_nodes post request (v # vs) err w =
     (case post w (URLSDFSScheme @ v @ URLSDFSReplicaRequest) request of
        (w1, NetError) \<Rightarrow> request_nodes post request vs err w1
      | (w1, Broken st) \<Rightarrow> request_nodes post request vs (if st \<noteq> 200 then True else err) w1
      | (w1, Reply st b) \<Rightarrow> request_nodes post request vs (if st \<noteq> 200 then True else err) w1)"

definition RequestReplica ::
  "('w \<Rightarrow> string \<Rightarrow> 'w \<times> http_reply) \<Rightarrow> ('w \<Rightarrow> string \<Rightarrow> (string \<times> string) list \<Rightarrow> 'w \<times> http_reply)
    \<Rightarrow> replica_task \<Rightarrow> 'w \<Rightarrow> 'w \<times> bool" where
  "RequestReplica get post task w =
     (case HTTPGetFileDownloadAddress get (rtHost task) (rtHash task) ''a'' w of
        (w1, None) \<Rightarrow> (w1, True)
      | (w1, Some addr) \<Rightarrow>
          request_nodes post [(''link'', addr), (''hash'', rtHash task)] (ReplicatedNodes task) False w1)"

text \<open>\<open>r.pending.Store(task, ...)\<close> uses the task as a key of a map; a struct with slices cannot be hashed, so
  that the call panics before the ticket is given back.\<close>

definition ExecuteTask ::
  "('w \<Rightarrow> string \<Rightarrow> 'w \<times> http_reply) \<Rightarrow> ('w \<Rightarrow> string \<Rightarrow> (string \<times> string) list \<Rightarrow> 'w \<times> http_reply)
    \<Rightarrow> replica_task \<Rightarrow> replica_manager \<times> 'w \<Rightarrow> (replica_manager \<times> 'w, unit) outcome" where
  "ExecuteTask get post task rw = (case rw of (r, w) \<Rightarrow>
     (case RequestReplica get post task w of (w1, err) \<Rightarrow>
        (let task1 = (if err then task\<lparr> TTL := TTL task - 1 \<rparr> else task);
             r1 = (if err \<and> TTL task1 \<noteq> 0 then r\<lparr> rq := Queue_Push (rq r) (Some task1) \<rparr> else r) in
         Panic (r1, w1))))"

text \<open>\<open>replicaMngrPoller\<close>: it polls once and returns.  The result is the task it starts.\<close>

definition replicaMngrPoller :: "bool \<Rightarrow> replica_manager \<Rightarrow> (replica_manager, replica_task option) outcome" where
  "replicaMngrPoller stopped r =
     (if stopped then Ret r None
      else case Queue_Pop (rq r) of
        (q, None) \<Rightarrow> Ret (r\<lparr> rq := q \<rparr>) None
      | (q, Some task) \<Rightarrow>
          if 10 \<le> tickets r then Block (r\<lparr> rq := q \<rparr>)
          else Ret (r\<lparr> rq := q, tickets := tickets r + 1 \<rparr>) (Some task))"

section \<open>The executor of \<open>AddFile\<close> commands\<close>

text \<open>A nil file of \<open>GetFile\<close> panics at \<open>f.Host\<close>.\<close>

fun AddFileExecutor :: "command \<Rightarrow> fs \<Rightarrow> (fs, unit) outcome" where
  "AddFileExecutor (CAddFile a) s =
     obind (AddFile (afPath a) (afHash a) s) (\<lambda>s1 _.
     obind (GetFile (afPath a) s1) (\<lambda>s2 r. case r of
         Inl e \<Rightarrow> Panic s2
       | Inr f \<Rightarrow> Ret (upd_file f (Host_update (\<lambda>h. h @ afHost a)) s2) ()))"
| "AddFileExecutor _ s = Panic s"

section \<open>Properties\<close>

text \<open>The executor of an \<open>AddFile\<close> command would replay an upload: on a namespace in which the path is free
  and the contents are new it makes the file with exactly the hosts of the command, and changes nothing else.
  But the command is not registered: an entry with its number, 2, makes every server that receives it panic, and
  the leader cannot encode it.\<close>
theorem AddFileExecutor_replays_upload:
  assumes "fs_inv s" "canonical (afPath a)" "ns s (resolve (afPath a)) = None" "ChecksumDB s (afHash a) = None"
  shows "(\<exists>t f. AddFileExecutor (CAddFile a) s = Ret t () \<and> fs_inv t \<and> ns t = (ns s)(resolve (afPath a) := Some (afHash a)) \<and>
      GetFile (afPath a) t = Ret t (Inr f) \<and> Host (files t ! f) = afHost a) \<and>
    (\<forall>dial e x. eType e = 2 \<longrightarrow> Execute dial e x = Panic x) \<and> Serialize \<lparr> Command = CAddFile a, Term = n \<rparr> = None"
proof -
  obtain t f where t: "AddFile (afPath a) (afHash a) s = Ret t (Inr f)" "fs_inv t"
    "ns t = (ns s)(resolve (afPath a) := Some (afHash a))" "GetFile (afPath a) t = Ret t (Inr f)"
    "lookup t (resolve (afPath a)) = Some f" "Host (files t ! f) = []"
    by (rule AddFile_fresh[OF assms])
  let ?t = "upd_file f (Host_update (\<lambda>h. h @ afHost a)) t"
  note hu = host_update[OF t(2), of f "\<lambda>h. h @ afHost a"]
  have fl: "f < length (files t)" by (rule lookup_file(1)[OF t(2,5)])
  have "GetFile (afPath a) ?t = Ret ?t (Inr f)"
    using GetFile_lookup[OF fs_invD(1,2)[OF hu(1)], of "afPath a"] hu(3) t(5) by simp
  moreover have "AddFileExecutor (CAddFile a) s = Ret ?t ()" using t(1,4) by simp
  moreover have "Host (files ?t ! f) = afHost a" using fl t(6) by simp
  moreover have "Execute dial e x = Panic x" if "eType e = 2" for dial e x
    using that by (simp add: Execute_def Deserialize_def init_registry_def RegisterCommandConversionHandler_def)
  moreover have "Serialize \<lparr> Command = CAddFile a, Term = n \<rparr> = None"
    by (simp add: Serialize_def init_registry_def RegisterCommandConversionHandler_def)
  ultimately show ?thesis using hu t(3) by auto
qed

theorem AddFileExecutor_replays_upload_witness:
  "\<exists>t f. AddFileExecutor (CAddFile \<lparr> HostNum = 1, PathLength = 4, afHost = [7], afPath = ''/a/b'', afHash = ''h'' \<rparr>) NewFS = Ret t () \<and>
     GetFile ''/a/b'' t = Ret t (Inr f) \<and> Host (files t ! f) = [7]"
  using AddFileExecutor_replays_upload[of NewFS "\<lparr> HostNum = 1, PathLength = 4, afHost = [7], afPath = ''/a/b'', afHash = ''h'' \<rparr>" 0]
    NewFS_inv canonical_examples(1) NewFS_index by auto

section \<open>Replica requests at a node\<close>

text \<open>A POST request to the node, in the same way as \<open>node_get\<close>.\<close>

definition node_post :: "node_state \<Rightarrow> string \<Rightarrow> (string \<times> string) list \<Rightarrow> node_state \<times> http_reply" where
  "node_post s url req = (case url_parts url of (host, path, raw) \<Rightarrow>
     (case answer (node_serve (\<lambda>w u r. (w, NetError)) (\<lambda>b. b) 0 [] (plain_env []) raw [] ''POST'' path (s, ())) of
        ((s1, u), rep) \<Rightarrow> (s1, rep)))"

lemma url_replica:
  assumes "CHR ''/'' \<notin> set host"
  shows "url_parts (URLSDFSScheme @ host @ ''/api/sdfs/replica/request'') = (host, ''/api/sdfs/replica/request'', [])"
proof -
  have "dropWhile (\<lambda>c. c \<noteq> CHR ''/'') (host @ ''/api/sdfs/replica/request'') = ''/api/sdfs/replica/request''"
    "takeWhile (\<lambda>c. c \<noteq> CHR ''/'') (host @ ''/api/sdfs/replica/request'') = host"
    using assms by (induction host) auto
  then show ?thesis by (simp add: url_parts_def URLSDFSScheme_def)
qed

lemma node_post_replica:
  assumes "CHR ''/'' \<notin> set host"
  shows "node_post s (URLSDFSScheme @ host @ ''/api/sdfs/replica/request'') req = (s, Reply 404 ''NOT FOUND'')"
  unfolding node_post_def url_replica[OF assms] prod.case node_serve_def ServeHTTP_def routes(5)
  by (simp add: answer_def Write_def WriteHeader_def NewContext_def body_text_def Let_def)

lemma request_nodes_refused:
  assumes "\<forall>v \<in> set vs. CHR ''/'' \<notin> set v"
  shows "request_nodes node_post req vs err s = (s, err \<or> vs \<noteq> [])"
  using assms by (induction vs arbitrary: err) (auto simp: node_post_replica simp del: append.simps)

text \<open>No file is ever replicated: a node has no route for replica requests and answers them with 404, so that
  a task whose link was granted fails at every node.  It is put back with one try less, unless no try is left, but
  the goroutine then panics on the unhashable task, which ends the process, and its ticket is not given back.\<close>
theorem replica_task_fails:
  assumes "get s (link_url (rtHost task) (rtHash task) ''a'') = (s1, Reply st b)"
    and "ReplicatedNodes task \<noteq> []" "\<forall>v \<in> set (ReplicatedNodes task). CHR ''/'' \<notin> set v"
  shows "\<exists>r'. ExecuteTask get node_post task (r, s) = Panic (r', s1) \<and> tickets r' = tickets r \<and>
    ll (rq r') = (if TTL task = 1 then ll (rq r) else ll (rq r) @ [Some (task\<lparr> TTL := TTL task - 1 \<rparr>)])"
proof -
  have "HTTPGetFileDownloadAddress get (rtHost task) (rtHash task) ''a'' s =
      (s1, Some (URLSDFSScheme @ rtHost task @ ''/api/download'' @ ''?id='' @ b))"
    using assms(1) by (simp add: HTTPGetFileDownloadAddress_def link_url_def)
  then have "RequestReplica get node_post task s = (s1, True)"
    using request_nodes_refused[OF assms(3)] assms(2) by (simp add: RequestReplica_def)
  then show ?thesis by (auto simp: ExecuteTask_def Let_def Queue_Push_def)
qed

theorem replica_task_fails_witness:
  "\<exists>r'. ExecuteTask (\<lambda>s u. (s, Reply 200 ''x'')) node_post
       \<lparr> rtHost = ''a'', ReplicatedNodes = [''b''], rtHash = ''h'', FailedNodes = [], TTL = 2 \<rparr> (newReplicaMngr, small_node) =
     Panic (r', small_node) \<and> length (ll (rq r')) = 1"
  using replica_task_fails[of "\<lambda>s u. (s, Reply 200 ''x'')" small_node
      "\<lparr> rtHost = ''a'', ReplicatedNodes = [''b''], rtHash = ''h'', FailedNodes = [], TTL = 2 \<rparr>" small_node 200 "''x''" newReplicaMngr]
  by (auto simp: newReplicaMngr_def NewQueue_def)

end
