(* ===== verification/Driver.thy ===== *)
theory Driver
  imports System
begin

text \<open>
  \<open>driver/driver.go\<close> and \<open>driver/sdfs.go\<close>: the client's file object, which reads a file through a download link into
  a buffer.

  The HTTP client is an argument: \<open>fetch\<close> takes a URL and a \<open>Range\<close> header and delivers the status and the bytes
  that can be read from the body.  The file offsets are 64-bit.  What \<open>Println\<close> and \<open>Printf\<close> print is left out.
\<close>

section \<open>Data\<close>

record drv_file =
  f_offset :: i64
  f_pos :: i64
  f_size :: i64
  df_location :: string
  bufSize :: i64
  buf :: "byte list"

datatype fetched = FetchError | Fetched nat "byte list"

definition newFile :: "i64 \<Rightarrow> string \<Rightarrow> drv_file" where
  "newFile bufSz location =
     \<lparr> f_offset = 0, f_pos = 0, f_size = 0, df_location = location, bufSize = bufSz, buf = replicate (nat (sint bufSz)) 0 \<rparr>"

section \<open>The link\<close>

definition getFileDownloadLink :: "('w \<Rightarrow> string \<Rightarrow> 'w \<times> http_reply) \<Rightarrow> string \<Rightarrow> string \<Rightarrow> 'w \<Rightarrow> 'w \<times> string" where
  "getFileDownloadLink get path server_addr w =
     (case get w (URLSDFSScheme @ server_addr @ URLSDFSDownload @ ''?path='' @ path) of
        (w1, NetError) \<Rightarrow> (w1, [])
      | (w1, Broken st) \<Rightarrow> (w1, [])
      | (w1, Reply st b) \<Rightarrow> (w1, if st \<noteq> 200 then [] else b))"

section \<open>The buffer\<close>

definition range_header :: "drv_file \<Rightarrow> string" where
  "range_header f = ''bytes='' @ show_int (sint (f_offset f)) @ ''-'' @ show_int (sint (f_offset f + bufSize f - 1))"

text \<open>The second result is the number of bytes, \<open>None\<close> an error.  \<open>io.ReadFull\<close> leaves what it got in the buffer.\<close>

definition flushBuffer ::
  "('w \<Rightarrow> string \<Rightarrow> string \<Rightarrow> 'w \<times> fetched) \<Rightarrow> drv_file \<times> 'w \<Rightarrow> (drv_file \<times> 'w) \<times> nat option" where
  "flushBuffer fetch fw = (case fw of (f, w) \<Rightarrow>
     (case fetch w (df_location f) (range_header f) of
        (w1, FetchError) \<Rightarrow> ((f, w1), None)
      | (w1, Fetched st bs) \<Rightarrow>
          if st \<noteq> 200 then ((f, w1), None)
          else if length bs < length (buf f) then ((f\<lparr> buf := bs @ drop (length bs) (buf f) \<rparr>, w1), None)
          else ((f\<lparr> buf := take (length (buf f)) bs, f_pos := 0 \<rparr>, w1), Some (length (buf f)))))"

definition Seek ::
  "('w \<Rightarrow> string \<Rightarrow> string \<Rightarrow> 'w \<times> fetched) \<Rightarrow> i64 \<Rightarrow> int \<Rightarrow> drv_file \<times> 'w \<Rightarrow> (drv_file \<times> 'w) \<times> i64" where
  "Seek fetch offset whence fw = (case fw of (f, w) \<Rightarrow>
     (let f1 = (if whence = 0 then f\<lparr> f_offset := offset \<rparr>
                else if whence = 1 then f\<lparr> f_offset := f_offset f + offset \<rparr>
                else if whence = 2 then f\<lparr> f_offset := f_size f \<rparr> else f);
          r = fst (flushBuffer fetch (f1, w)) in
      (r, f_pos (fst r))))"

text \<open>\<open>Read\<close> copies the rest of the buffer behind the contents of a new \<open>bytes.Buffer\<close> that starts with \<open>p\<close>; the bytes of
  \<open>p\<close> itself stay as they are.  The result is \<open>p\<close> after the call and the number returned.  Go's division rounds
  towards zero.\<close>

definition three_quarters :: "i64 \<Rightarrow> int" where
  "three_quarters n = (let q = sint (n * 3) in if 0 \<le> q then q div 4 else - ((- q) div 4))"

definition Read ::
  "('w \<Rightarrow> string \<Rightarrow> string \<Rightarrow> 'w \<times> fetched) \<Rightarrow> byte list \<Rightarrow> drv_file \<times> 'w \<Rightarrow> (drv_file \<times> 'w, byte list \<times> int) outcome" where
  "Read fetch p fw = (case fw of (f, w) \<Rightarrow>
     (case slice_from (buf f) (sint (f_pos f)) of
        None \<Rightarrow> Panic fw
      | Some rest \<Rightarrow>
          (let i = of_nat (length rest);
               f1 = f\<lparr> f_pos := f_pos f + i, f_offset := f_offset f + i \<rparr>;
               fw1 = (if three_quarters (bufSize f) \<le> sint (f_pos f1) then fst (flushBuffer fetch (f1, w)) else (f1, w)) in
           Ret fw1 (p, 0))))"

text \<open>\<open>Write\<close> claims to have written everything and does nothing.\<close>

definition Drv_Write :: "byte list \<Rightarrow> drv_file \<Rightarrow> drv_file \<times> int" where
  "Drv_Write p f = (f, int (length p))"

definition Open ::
  "('w \<Rightarrow> string \<Rightarrow> 'w \<times> http_reply) \<Rightarrow> ('w \<Rightarrow> string \<Rightarrow> string \<Rightarrow> 'w \<times> fetched) \<Rightarrow> string \<Rightarrow> string \<Rightarrow> 'w \<Rightarrow> 'w \<times> drv_file option" where
  "Open get fetch path server_addr w =
     (case getFileDownloadLink get path server_addr w of (w1, url) \<Rightarrow>
        if url = [] then (w1, None)
        else (case flushBuffer fetch (newFile (1024 * 1024) url, w1) of ((f, w2), n) \<Rightarrow> (w2, Some f)))"

section \<open>The driver and a node\<close>

text \<open>The bytes of a body.\<close>

definition body_bytes :: "payload list \<Rightarrow> byte list" where
  "body_bytes ps = concat (map (\<lambda>p. case p of Bytes b \<Rightarrow> b | Text t \<Rightarrow> map of_char t | Json h \<Rightarrow> []) ps)"

definition node_fetch :: "node_state \<Rightarrow> string \<Rightarrow> string \<Rightarrow> node_state \<times> fetched" where
  "node_fetch s url rh = (case url_parts url of (host, path, raw) \<Rightarrow>
     (case node_serve (\<lambda>w u r. (w, NetError)) (\<lambda>b. b) 0 [] (plain_env []) raw rh ''GET'' path (s, ()) of
        Ret (s1, u) c \<Rightarrow> (s1, Fetched (case sentStatus c of None \<Rightarrow> 200 | Some st \<Rightarrow> st) (body_bytes (sentBody c)))
      | Panic (s1, u) \<Rightarrow> (s1, FetchError)
      | Block (s1, u) \<Rightarrow> (s1, FetchError)))"

lemma node_fetch_Ret:
  assumes "CHR ''/'' \<notin> set host" "token i" "NR_Download i rh start_ctx s = Ret s1 c" "sentStatus c = Some st"
  shows "node_fetch s (URLSDFSScheme @ host @ ''/api/download'' @ ''?id='' @ i) rh = (s1, Fetched st (body_bytes (sentBody c)))"
  unfolding node_fetch_def url_download(3)[OF assms(1)] prod.case node_serve_route[OF routes(3)]
  using assms(3,4) by (simp add: node_handler_def Query_token[OF assms(2), simplified] with_w_def)

lemma range_header_nat:
  assumes "f_offset f = of_nat off" "bufSize f = of_nat n" "0 < n" "off + n \<le> 2 ^ 63"
  shows "range_header f = ''bytes='' @ show_nat off @ ''-'' @ show_nat (off + n - 1)"
proof -
  have "f_offset f + bufSize f - 1 = of_nat (off + n - 1)" using assms(1-3) by (simp add: of_nat_diff)
  moreover have "sint (of_nat off :: i64) = int off" "sint (of_nat (off + n - 1) :: i64) = int (off + n - 1)"
    using assms(3,4) by (simp_all only: sint_of_length)
  ultimately show ?thesis unfolding range_header_def assms(1) by (simp only: show_int_of_nat)
qed

text \<open>C29. The buffer is filled with the right bytes: if the file behind the link has at least as many bytes after the
  offset as the buffer holds, \<open>flushBuffer\<close> succeeds and the buffer holds exactly these bytes, although the node sends one byte more than asked.
  The node's store is as before.\<close>
theorem flush_fills_buffer:
  assumes "serves i k content s" "hs_inv digest (hs s)" "token i" "CHR ''/'' \<notin> set host" "int (length content) < 2 ^ 63"
    and "df_location f = URLSDFSScheme @ host @ ''/api/download'' @ ''?id='' @ i"
    and "f_offset f = of_nat off" "bufSize f = of_nat (length (buf f))" "0 < length (buf f)" "off + length (buf f) \<le> length content"
  shows "\<exists>s' f'. flushBuffer node_fetch (f, s) = ((f', s'), Some (length (buf f))) \<and> f_pos f' = 0 \<and>
    buf f' = take (length (buf f)) (drop off content) \<and> hs s' = hs s"
proof -
  let ?n = "length (buf f)"
  have "int (length content) < int (2 ^ 63)" using assms(5) by simp
  then have len: "length content < 2 ^ 63" by (simp only: of_nat_less_iff)
  have rh: "range_header f = ''bytes='' @ show_nat off @ ''-'' @ show_nat (off + ?n - 1)"
    by (rule range_header_nat[OF assms(7-9)]) (use assms(10) len in linarith)
  have ab: "off \<le> off + ?n - 1" "off + ?n - 1 < length content" using assms(9,10) by linarith+
  obtain s2 c where d: "NR_Download i (range_header f) start_ctx s = Ret s2 c" "hs s2 = hs s" "sentStatus c = Some 200"
    "sentBody c = [Bytes (take (off + ?n - 1 - off + 2) (drop off content))]"
    using Download_range[OF assms(1,2) ab assms(5), of start_ctx] unfolding rh by auto
  have "node_fetch s (df_location f) (range_header f) = (s2, Fetched 200 (take (?n + 1) (drop off content)))"
    unfolding assms(6) using node_fetch_Ret[OF assms(4,3) d(1,3)] d(4) assms(9) by (simp add: body_bytes_def)
  moreover have "length (take (?n + 1) (drop off content)) \<ge> ?n" using assms(10) by simp
  ultimately have "flushBuffer node_fetch (f, s) = ((f\<lparr> buf := take ?n (take (?n + 1) (drop off content)), f_pos := 0 \<rparr>, s2), Some ?n)"
    by (simp add: flushBuffer_def)
  then show ?thesis using d(2) by simp
qed

text \<open>A file that is smaller than the buffer cannot be read: the driver asks for a full buffer, the node refuses
  the range that ends behind the file, and the buffer stays as it was.  Each such attempt leaves the file
  counted as open.\<close>
theorem small_file_is_never_read:
  assumes "serves i k content s" "hs_inv digest (hs s)" "token i" "CHR ''/'' \<notin> set host" "int (length content) < 2 ^ 63"
    and "df_location f = URLSDFSScheme @ host @ ''/api/download'' @ ''?id='' @ i"
    and "f_offset f = of_nat off" "bufSize f = of_nat (length (buf f))" "0 < length (buf f)"
    and "length content < off + length (buf f)" "off + length (buf f) < 2 ^ 63"
  shows "\<exists>s' r. flushBuffer node_fetch (f, s) = ((f, s'), None) \<and> hs_s (hs s) k = Some r \<and>
    OpenCount (hs_files (hs s') ! r) = OpenCount (hs_files (hs s) ! r) + 1"
proof -
  let ?n = "length (buf f)"
  have rh: "range_header f = ''bytes='' @ show_nat off @ ''-'' @ show_nat (off + ?n - 1)"
    using assms(11) by (intro range_header_nat[OF assms(7-9)]) linarith
  obtain r name h g where dl: "\<forall>rh c. NR_Download i rh c s = send_file rh g (found_ctx name c) (s\<lparr> rt := r, hs := h \<rparr>)"
    "hs_s (hs s) k = Some g" "h = upd_hs g (OpenCount_update (\<lambda>c. c + 1)) (hs s)"
    "sint (fileSize (hs_files h ! g)) = int (length content)" "g < length (hs_files (hs s))"
    by (rule served_file[OF assms(1,2,5)])
  have "ParseRange (int (length content)) (range_header f) = ParseError"
    unfolding rh by (rule ParseRange_outside) (use assms(9-11) in linarith)+
  then have "NR_Download i (range_header f) start_ctx s = Ret (s\<lparr> rt := r, hs := h \<rparr>)
      (String 500 ''Internal Server Error: sdfs error'' (found_ctx name start_ctx))"
    using dl(1,4) by (simp add: send_file_def Let_def)
  from node_fetch_Ret[OF assms(4,3) this] String_sent(1)[of "found_ctx name start_ctx"]
  have "\<exists>b. node_fetch s (df_location f) (range_header f) = (s\<lparr> rt := r, hs := h \<rparr>, Fetched 500 b)"
    unfolding assms(6) by simp
  then have "flushBuffer node_fetch (f, s) = ((f, s\<lparr> rt := r, hs := h \<rparr>), None)" by (auto simp: flushBuffer_def)
  then show ?thesis using dl(2,3,5) by (auto simp: upd_hs_def)
qed

text \<open>\<open>Read\<close> never delivers anything: from a position inside the buffer it returns 0 without an error and leaves the caller's
  bytes as they are, whatever the buffer and the network hold; from any other position it panics.  \<open>Write\<close> claims to have written everything without doing anything.\<close>
theorem Read_delivers_nothing:
  "(if 0 \<le> sint (f_pos f) \<and> sint (f_pos f) \<le> int (length (buf f))
    then \<exists>fw. Read fetch p (f, w) = Ret fw (p, 0) else Read fetch p (f, w) = Panic (f, w)) \<and>
   Drv_Write q f = (f, int (length q))"
  by (simp add: Read_def slice_from_def Drv_Write_def Let_def)

section \<open>Examples\<close>

lemma small_node_link:
  obtains s where "serves ''abcdefgh'' (object_name (len_digest [7])) [7] s" "hs_inv len_digest (hs s)" "token ''abcdefgh''"
proof -
  obtain s where "serves ''abcdefgh'' (object_name (len_digest [7])) [7] s" "hs s = hs small_node" by (rule small_node_serves)
  moreover have "token ''abcdefgh''" by (simp add: token_def plain_query_def)
  ultimately show thesis using small_node_ok(5) by (intro that[of s]) simp_all
qed

definition link_file :: "nat \<Rightarrow> drv_file" where
  "link_file n = newFile (of_nat n) ''http://n:1/api/download?id=abcdefgh''"

lemma link_file_ok:
  "df_location (link_file n) = URLSDFSScheme @ ''n:1'' @ ''/api/download'' @ ''?id='' @ ''abcdefgh''"
  "f_offset (link_file n) = of_nat 0" "n < 2 ^ 63 \<Longrightarrow> length (buf (link_file n)) = n" "bufSize (link_file n) = of_nat n"
  by (simp_all add: link_file_def newFile_def URLSDFSScheme_def sint_of_length)

theorem flush_fills_buffer_witness:
  "\<exists>s s' f'. flushBuffer node_fetch (link_file 1, s) = ((f', s'), Some 1) \<and> buf f' = [7]"
proof -
  obtain s where s: "serves ''abcdefgh'' (object_name (len_digest [7])) [7] s" "hs_inv len_digest (hs s)" "token ''abcdefgh''"
    by (rule small_node_link)
  have b: "length (buf (link_file 1)) = 1" using link_file_ok(3)[of 1] by simp
  have "\<exists>s' f'. flushBuffer node_fetch (link_file 1, s) = ((f', s'), Some 1) \<and> buf f' = [7]"
    using flush_fills_buffer[OF s _ _ link_file_ok(1,2), of 1] link_file_ok(4)[of 1] b
    by (auto simp: b[simplified])
  then show ?thesis by blast
qed

theorem small_file_is_never_read_witness:
  "\<exists>s s'. flushBuffer node_fetch (link_file 2, s) = ((link_file 2, s'), None)"
proof -
  obtain s where s: "serves ''abcdefgh'' (object_name (len_digest [7])) [7] s" "hs_inv len_digest (hs s)" "token ''abcdefgh''"
    by (rule small_node_link)
  have b: "length (buf (link_file 2)) = 2" using link_file_ok(3)[of 2] by simp
  have "\<exists>s'. flushBuffer node_fetch (link_file 2, s) = ((link_file 2, s'), None)"
    using small_file_is_never_read[OF s _ _ link_file_ok(1,2), of 2] link_file_ok(4)[of 2] b
    by (auto simp: b[simplified])
  then show ?thesis by blast
qed

end
