(* ===== verification/Replication.thy ===== *)
theory Replication
  imports Server_Inv
begin

text \<open>
  A leader and its followers connected by a network.  One step is one critical section of the code: a heartbeat
  goroutine builds its request, a follower handles a request, the goroutine handles the answer; a new master registers
  (\<open>RegisterMaster\<close>, which makes it a peer) or a storage node sends a heartbeat (\<open>UpdateNode\<close>), and in a second critical section the same
  handler submits its command: these are the two places where the program submits commands.  Requests and answers stay in the network for ever, so that
  they can be delivered late, in any order, more than once or not at all.  The leader keeps its role: no
  election and no second leader interferes.

  Entries travel with term 0, so that a follower holds the leader's commands with zero terms:
  \<open>zeroed (take n log)\<close>.  A follower that is sent an \<open>AddNode\<close> entry stops for ever inside \<open>AppendEntries\<close>; its
  log stays a prefix of the leader's.
\<close>

section \<open>The network\<close>

record net =
  ldr :: server
  fol :: "i32 \<Rightarrow> server"
  reqs :: "(i32 \<times> append_request \<times> u64) set"
  resps :: "(i32 \<times> u64 \<times> nat \<times> append_response) set"
  subs :: "command list"

text \<open>\<open>fol\<close> has every other master, registered or not.  \<open>subs\<close> holds the commands of the handlers that are between their two
  critical sections.\<close>

definition net_tick :: "u64 \<Rightarrow> i32 \<Rightarrow> net \<Rightarrow> (net, append_request \<times> u64) outcome" where
  "net_tick t p c = (case hb_request p t (ldr c) of
       Ret l (req, ni) \<Rightarrow> Ret (c\<lparr> ldr := l, reqs := insert (p, req, ni) (reqs c) \<rparr>) (req, ni)
     | Panic l \<Rightarrow> Panic (c\<lparr> ldr := l \<rparr>)
     | Block l \<Rightarrow> Block (c\<lparr> ldr := l \<rparr>))"

definition net_deliver :: "(string \<Rightarrow> bool) \<Rightarrow> int \<Rightarrow> i32 \<Rightarrow> append_request \<Rightarrow> u64 \<Rightarrow> net \<Rightarrow> (net, append_response) outcome" where
  "net_deliver dial now p req ni c = (case Server_AppendEntries dial now req (fol c p) of
       Ret f resp \<Rightarrow> Ret (c\<lparr> fol := (fol c)(p := f), resps := insert (p, ni, length (aeEntries req), resp) (resps c) \<rparr>) resp
     | Panic f \<Rightarrow> Panic (c\<lparr> fol := (fol c)(p := f) \<rparr>)
     | Block f \<Rightarrow> Block (c\<lparr> fol := (fol c)(p := f) \<rparr>))"

definition net_answer :: "int \<Rightarrow> u64 \<Rightarrow> i32 \<Rightarrow> u64 \<Rightarrow> nat \<Rightarrow> append_response \<Rightarrow> net \<Rightarrow> (net, unit) outcome" where
  "net_answer now t p ni n resp c = (case hb_response now p t ni n resp (ldr c) of
       Ret l u \<Rightarrow> Ret (c\<lparr> ldr := l \<rparr>) u
     | Panic l \<Rightarrow> Panic (c\<lparr> ldr := l \<rparr>)
     | Block l \<Rightarrow> Block (c\<lparr> ldr := l \<rparr>))"

definition net_register :: "(string \<Rightarrow> bool) \<Rightarrow> string \<Rightarrow> i32 \<Rightarrow> net \<Rightarrow> (net, register_response \<times> bool) outcome" where
  "net_register dial masterAddr newId c = (case RegisterMaster_locked dial masterAddr newId (ldr c) of
       Ret l (resp, err, cmd) \<Rightarrow> Ret (c\<lparr> ldr := l, subs := subs c @ (case cmd of None \<Rightarrow> [] | Some x \<Rightarrow> [x]) \<rparr>) (resp, err)
     | Panic l \<Rightarrow> Panic (c\<lparr> ldr := l \<rparr>)
     | Block l \<Rightarrow> Block (c\<lparr> ldr := l \<rparr>))"

definition net_update :: "string \<Rightarrow> u64 \<Rightarrow> u64 \<Rightarrow> i64 \<Rightarrow> i64 \<Rightarrow> i32 \<Rightarrow> i32 \<Rightarrow> net \<Rightarrow> (net, unit) outcome" where
  "net_update addr cpu memory sz disk r1 r2 c = (case UpdateNode_local addr cpu memory sz disk r1 r2 (ldr c) of
       Ret l res \<Rightarrow> Ret (c\<lparr> ldr := l, subs := subs c @
         (case res of None \<Rightarrow> [] | Some (r, rnd) \<Rightarrow> [CAddNode \<lparr> asnID = rnd, NodeAddr = addr \<rparr>]) \<rparr>) ()
     | Panic l \<Rightarrow> Panic (c\<lparr> ldr := l \<rparr>)
     | Block l \<Rightarrow> Block (c\<lparr> ldr := l \<rparr>))"

definition net_submit :: "command \<Rightarrow> net \<Rightarrow> (net, bool \<times> i32) outcome" where
  "net_submit cmd c = (case Submit cmd (ldr c) of
       Ret l r \<Rightarrow> Ret (c\<lparr> ldr := l, subs := remove1 cmd (subs c) \<rparr>) r
     | Panic l \<Rightarrow> Panic (c\<lparr> ldr := l \<rparr>)
     | Block l \<Rightarrow> Block (c\<lparr> ldr := l \<rparr>))"

text \<open>The joining master enters the leader as its peer when it has the answer (\<open>NewServer\<close>).\<close>

definition net_joined :: "i32 \<Rightarrow> string \<Rightarrow> net \<Rightarrow> net" where
  "net_joined p addr c = c\<lparr> fol := (fol c)(p := join_peer (cmId (cm (ldr c))) addr (fol c p)) \<rparr>"

text \<open>One goroutine of a heartbeat, from its request to its answer.  The request or the answer may be lost.\<close>

datatype fate = RequestLost | AnswerLost | Delivered

definition hb_round :: "(string \<Rightarrow> bool) \<Rightarrow> u64 \<Rightarrow> int \<times> i32 \<times> fate \<Rightarrow> net \<Rightarrow> (net, unit) outcome" where
  "hb_round dial t x c = (case x of (now, p, fate) \<Rightarrow>
     obind (net_tick t p c) (\<lambda>c1 (req, ni).
       if fate = RequestLost then Ret c1 ()
       else obind (net_deliver dial now p req ni c1) (\<lambda>c2 resp.
         if fate = AnswerLost then Ret c2 ()
         else net_answer now t p ni (length (aeEntries req)) resp c2)))"

fun run_rounds :: "(string \<Rightarrow> bool) \<Rightarrow> u64 \<Rightarrow> (int \<times> i32 \<times> fate) list \<Rightarrow> net \<Rightarrow> (net, unit) outcome" where
  "run_rounds dial t [] c = Ret c ()"
| "run_rounds dial t (x # xs) c = obind (hb_round dial t x c) (\<lambda>c1 _. run_rounds dial t xs c1)"

definition delivered :: "i32 \<Rightarrow> (int \<times> i32 \<times> fate) list \<Rightarrow> nat" where
  "delivered p xs = length (filter (\<lambda>(now, q, fate). q = p \<and> fate = Delivered) xs)"

text \<open>A master that asks to be registered has an empty log.\<close>

definition new_master :: "u64 \<Rightarrow> server \<Rightarrow> bool" where
  "new_master t f \<longleftrightarrow> \<not> cmu (cm f) \<and> cmLog (cm f) = [\<lparr> Command = CNil, Term = 0 \<rparr>] \<and> currentTerm (cm f) \<le> t"

text \<open>The steps, with arbitrary times, dial results and random numbers.  The ids of masters are new (an id that is registered twice
  stops the leader, see \<open>duplicate_master_blocks_server\<close>).  A log of \<open>2 ^ 63\<close> entries does not fit into memory.\<close>

inductive net_step :: "u64 \<Rightarrow> net \<Rightarrow> net \<Rightarrow> bool" for t where
  tick: "p \<in> set (peerIds (cm (ldr c))) \<Longrightarrow> net_step t c (final_state (net_tick t p c))"
| deliver: "(p, req, ni) \<in> reqs c \<Longrightarrow> net_step t c (final_state (net_deliver dial now p req ni c))"
| answer: "(p, ni, n, resp) \<in> resps c \<Longrightarrow> net_step t c (final_state (net_answer now t p ni n resp c))"
| register: "newId \<notin> cluster (cm (ldr c)) \<Longrightarrow> new_master t (fol c newId) \<Longrightarrow>
    net_step t c (final_state (net_register dial masterAddr newId c))"
| update: "net_step t c (final_state (net_update addr cpu memory sz disk r1 r2 c))"
| submit: "cmd \<in> set (subs c) \<Longrightarrow> Suc (length (cmLog (cm (ldr c)))) < 2 ^ 63 \<Longrightarrow> net_step t c (final_state (net_submit cmd c))"
| joined: "net_step t c (net_joined p addr c)"

section \<open>Logs with zero terms\<close>

definition zeroed :: "log_entry list \<Rightarrow> log_entry list" where
  "zeroed lg = map (\<lambda>v. v\<lparr> Term := 0 \<rparr>) lg"

lemma zeroed_simps [simp]:
  "length (zeroed lg) = length lg" "zeroed (xs @ ys) = zeroed xs @ zeroed ys" "zeroed [] = []"
  "(zeroed lg = []) = (lg = [])" "map Command (zeroed lg) = map Command lg"
  by (auto simp: zeroed_def)

lemma zeroed_take_drop: "take n (zeroed lg) = zeroed (take n lg)" "drop n (zeroed lg) = zeroed (drop n lg)"
  by (simp_all add: zeroed_def take_map drop_map)

lemma zeroed_terms: "x \<in> set (zeroed lg) \<Longrightarrow> Term x = 0"
  by (auto simp: zeroed_def)

lemma merge_zero:
  assumes "\<forall>x \<in> set xs. Term x = 0" "\<forall>y \<in> set ys. Term y = 0"
  shows "merge_log xs ys = xs @ drop (length xs) ys"
  using assms by (induction xs ys rule: merge_log.induct) auto

definition is_join :: "command \<Rightarrow> bool" where
  "is_join c = (case c of CAddServer a \<Rightarrow> True | _ \<Rightarrow> False)"

lemma is_join_registered: "is_join c \<Longrightarrow> registered c"
  by (cases c) (simp_all add: is_join_def)

lemma type_of_entry: "registered c \<Longrightarrow> EntryType c = (if is_join c then 1 else 3)"
  by (cases c) (simp_all add: is_join_def EntryType_def init_registry_def RegisterCommandConversionHandler_def)

lemma wire_entries:
  assumes "\<forall>v \<in> set vs. registered (Command v)" "serialize_all vs = Some es"
  shows "map decoded es = zeroed vs" "map eType es = map (\<lambda>v. if is_join (Command v) then 1 else 3) vs" "length es = length vs"
proof -
  have "map decoded es = zeroed vs \<and> map eType es = map (\<lambda>v. if is_join (Command v) then 1 else 3) vs"
    using assms
  proof (induction vs arbitrary: es)
    case (Cons v vs)
    obtain e fs where e: "Serialize v = Some e" "serialize_all vs = Some fs" "es = e # fs"
      using Cons.prems(2) by (auto split: option.splits)
    have r: "registered (Command v)" "v = \<lparr> Command = Command v, Term = Term v \<rparr>"
      using Cons.prems(1) by auto
    obtain e' where e': "Serialize v = Some e'" "Deserialize e' = Some (Command v)" "eTerm e' = 0"
      "eType e' = EntryType (Command v)"
      using Serialize_registered[OF r(1), of "Term v"] r(2) by auto
    then have "decoded e = v\<lparr> Term := 0 \<rparr>" "eType e = (if is_join (Command v) then 1 else 3)"
      using e(1) type_of_entry[OF r(1)] r(2) by (simp_all add: decoded_def)
    moreover have "map decoded fs = zeroed vs \<and> map eType fs = map (\<lambda>v. if is_join (Command v) then 1 else 3) vs"
      using Cons.IH[OF _ e(2)] Cons.prems(1) by simp
    ultimately show ?case using e(3) by (simp add: zeroed_def)
  qed simp
  then show "map decoded es = zeroed vs" "map eType es = map (\<lambda>v. if is_join (Command v) then 1 else 3) vs" by simp_all
  then show "length es = length vs" by (metis length_map)
qed

lemma wire_types:
  assumes "\<forall>v \<in> set vs. registered (Command v)" "serialize_all vs = Some es"
  shows "\<forall>e \<in> set es. eType e = 1 \<or> eType e = 3" "(\<exists>e \<in> set es. eType e = 3) \<longleftrightarrow> (\<exists>v \<in> set vs. \<not> is_join (Command v))"
proof -
  have im: "eType ` set es = (\<lambda>v. if is_join (Command v) then 1 else 3) ` set vs"
    using arg_cong[OF wire_entries(2)[OF assms], of set] by simp
  have "eType e \<in> (\<lambda>v. if is_join (Command v) then 1 else 3) ` set vs" if "e \<in> set es" for e using that im by blast
  then show "\<forall>e \<in> set es. eType e = 1 \<or> eType e = 3" by (auto split: if_splits)
  have "(\<exists>e \<in> set es. eType e = 3) \<longleftrightarrow> 3 \<in> eType ` set es" by (metis image_iff)
  also have "\<dots> \<longleftrightarrow> (\<exists>v \<in> set vs. \<not> is_join (Command v))" unfolding im by (auto simp: image_iff)
  finally show "(\<exists>e \<in> set es. eType e = 3) \<longleftrightarrow> (\<exists>v \<in> set vs. \<not> is_join (Command v))" .
qed

text \<open>What a request with entries \<open>ni\<close> to \<open>m\<close> makes of a follower's log.\<close>

lemma merged_zeroed:
  assumes "serialize_all (drop ni (take m lg)) = Some (aeEntries req)" "\<forall>v \<in> set (drop 1 lg). registered (Command v)"
    and "Suc (unat (aePrevLogIndex req)) = ni" "ni \<le> n" "n \<le> length lg" "m \<le> length lg"
  shows "merged req (zeroed (take n lg)) = zeroed (take (max n m) lg)"
    and "\<forall>e \<in> set (aeEntries req). eType e = 1 \<or> eType e = 3"
    and "\<exists>e \<in> set (aeEntries req). eType e = 3 \<Longrightarrow> \<exists>v \<in> set (drop 1 lg). \<not> is_join (Command v)"
proof -
  have sub: "set (drop ni (take m lg)) \<subseteq> set (drop 1 lg)"
    using assms(3) set_drop_subset_set_drop[of 1 ni lg] set_take_subset[of "m - ni" "drop ni lg"]
    by (auto simp: drop_take)
  then have j: "\<forall>v \<in> set (drop ni (take m lg)). registered (Command v)" using assms(2) by blast
  note w = wire_entries[OF j assms(1)] and ty = wire_types[OF j assms(1)]
  show "\<forall>e \<in> set (aeEntries req). eType e = 1 \<or> eType e = 3" by (rule ty(1))
  show "\<exists>v \<in> set (drop 1 lg). \<not> is_join (Command v)" if "\<exists>e \<in> set (aeEntries req). eType e = 3" using that ty(2) sub by blast
  have "merge_log (zeroed (drop ni (take n lg))) (zeroed (drop ni (take m lg))) =
      zeroed (drop ni (take n lg) @ drop n (take m lg))"
    using assms(4-6) by (subst merge_zero) (auto simp: zeroed_terms zeroed_take_drop)
  moreover have "take ni lg @ drop ni (take n lg) @ drop n (take m lg) = take (max n m) lg"
  proof -
    have "take ni lg @ drop ni (take n lg) = take n lg"
      using assms(4) append_take_drop_id[of ni "take n lg"] by (simp add: min_def)
    moreover have "take n lg @ drop n (take m lg) = take (max n m) lg"
      by (metis append_take_drop_id max_absorb1 max_absorb2 nat_le_linear take_take min.absorb1 min.absorb2 append_Nil2 drop_all length_take min.cobounded2 order_trans)
    ultimately show ?thesis by (metis append_assoc)
  qed
  ultimately show "merged req (zeroed (take n lg)) = zeroed (take (max n m) lg)"
    using assms(3,4) w(1) by (simp add: merged_def Let_def zeroed_take_drop min_absorb1 flip: zeroed_simps(2))
qed


section \<open>The invariant\<close>

text \<open>The commands a follower shares with the leader, and what requests and answers promise.\<close>

definition joins_only :: "server \<Rightarrow> bool" where
  "joins_only l \<longleftrightarrow> (\<forall>v \<in> set (drop 1 (cmLog (cm l))). is_join (Command v))"

definition follows :: "u64 \<Rightarrow> server \<Rightarrow> server \<Rightarrow> bool" where
  "follows t l f \<longleftrightarrow> (cmu (cm f) \<longrightarrow> \<not> joins_only l) \<and> currentTerm (cm f) \<le> t \<and> cmLog (cm f) \<noteq> [] \<and>
     length (cmLog (cm f)) \<le> length (cmLog (cm l)) \<and>
     cmLog (cm f) = zeroed (take (length (cmLog (cm f))) (cmLog (cm l)))"

definition leads :: "u64 \<Rightarrow> server \<Rightarrow> bool" where
  "leads t l \<longleftrightarrow> \<not> cmu (cm l) \<and> cmState (cm l) = LEADER \<and> currentTerm (cm l) = t \<and>
     log_ok (cmLog (cm l)) \<and> length (cmLog (cm l)) < 2 ^ 63 \<and> (\<forall>v \<in> set (drop 1 (cmLog (cm l))). registered (Command v)) \<and>
     distinct (peerIds (cm l)) \<and> cmId (cm l) \<notin> set (peerIds (cm l)) \<and> (\<forall>p \<in> set (peerIds (cm l)). \<exists>a. peers l p = Some (Some a))"

definition next_ok :: "server \<Rightarrow> bool" where
  "next_ok l \<longleftrightarrow> (\<forall>p ni. nextIndex (cm l) p = Some ni \<longrightarrow> 1 \<le> unat ni \<and> unat ni \<le> length (cmLog (cm l))) \<and>
     dom (matchIndex (cm l)) \<subseteq> dom (nextIndex (cm l)) \<and> dom (nextIndex (cm l)) \<subseteq> set (peerIds (cm l))"

lemma leads_log: "leads t l \<Longrightarrow> cmLog (cm l) \<noteq> []"
  by (simp add: leads_def log_ok_def)

definition req_ok :: "u64 \<Rightarrow> server \<Rightarrow> append_request \<Rightarrow> u64 \<Rightarrow> bool" where
  "req_ok t l req ni \<longleftrightarrow> aeTerm req = t \<and> 1 \<le> unat ni \<and> aePrevLogIndex req = ni - 1 \<and>
     unat ni + length (aeEntries req) \<le> length (cmLog (cm l)) \<and>
     serialize_all (drop (unat ni) (take (unat ni + length (aeEntries req)) (cmLog (cm l)))) = Some (aeEntries req) \<and>
     unat (aeLeaderCommit req) < unat ni + length (aeEntries req)"

definition resp_ok :: "u64 \<Rightarrow> server \<Rightarrow> server \<Rightarrow> u64 \<Rightarrow> nat \<Rightarrow> append_response \<Rightarrow> bool" where
  "resp_ok t l f ni n resp \<longleftrightarrow> arTerm resp = t \<and> 1 \<le> unat ni \<and> unat ni + n \<le> length (cmLog (cm l)) \<and>
     (arSuccess resp \<longrightarrow> unat ni + n \<le> length (cmLog (cm f))) \<and> (\<not> arSuccess resp \<longrightarrow> 1 < unat ni)"

text \<open>The peers that hold the entry \<open>i\<close>, and the leader.\<close>

definition has_entry :: "net \<Rightarrow> nat \<Rightarrow> i32 set" where
  "has_entry c i = insert (cmId (cm (ldr c)))
     {p \<in> set (peerIds (cm (ldr c))). i < length (cmLog (cm (fol c p))) \<and>
        Command (cmLog (cm (fol c p)) ! i) = Command (cmLog (cm (ldr c)) ! i)}"

definition commit_ok :: "net \<Rightarrow> bool" where
  "commit_ok c \<longleftrightarrow> unat (commitIndex (cm (ldr c))) < length (cmLog (cm (ldr c))) \<and>
     (\<forall>p \<in> set (peerIds (cm (ldr c))). unat (map_get (matchIndex (cm (ldr c))) p) < length (cmLog (cm (fol c p)))) \<and>
     (peerIds (cm (ldr c)) \<noteq> [] \<longrightarrow>
       (\<forall>i < length (cmLog (cm (ldr c))). quorum_at (cm (ldr c)) i \<longrightarrow> i \<le> unat (commitIndex (cm (ldr c)))))"

definition net_inv :: "u64 \<Rightarrow> net \<Rightarrow> bool" where
  "net_inv t c \<longleftrightarrow> leads t (ldr c) \<and> next_ok (ldr c) \<and>
     (\<forall>p \<in> set (peerIds (cm (ldr c))). follows t (ldr c) (fol c p)) \<and>
     (\<forall>p req ni. (p, req, ni) \<in> reqs c \<longrightarrow> p \<in> set (peerIds (cm (ldr c))) \<and> req_ok t (ldr c) req ni) \<and>
     (\<forall>p ni n resp. (p, ni, n, resp) \<in> resps c \<longrightarrow> p \<in> set (peerIds (cm (ldr c))) \<and> resp_ok t (ldr c) (fol c p) ni n resp) \<and>
     (\<forall>cmd \<in> set (subs c). registered cmd) \<and> commit_ok c"

lemma follows_commands:
  "follows t l f \<Longrightarrow> map Command (cmLog (cm f)) = take (length (cmLog (cm f))) (map Command (cmLog (cm l)))"
  by (metis follows_def zeroed_simps(5) take_map)

lemma follows_nth:
  assumes "follows t l f" "i < length (cmLog (cm f))"
  shows "Command (cmLog (cm f) ! i) = Command (cmLog (cm l) ! i)"
proof -
  have le: "length (cmLog (cm f)) \<le> length (cmLog (cm l))" using assms(1) by (simp add: follows_def)
  have "map Command (cmLog (cm f)) ! i = take (length (cmLog (cm f))) (map Command (cmLog (cm l))) ! i"
    using follows_commands[OF assms(1)] by (rule arg_cong)
  with assms(2) le show ?thesis by simp
qed

lemma inv_cong:
  assumes "cmLog (cm l') = cmLog (cm l)"
  shows "follows t l' f = follows t l f" "req_ok t l' req ni = req_ok t l req ni"
    "resp_ok t l' f ni n resp = resp_ok t l f ni n resp"
  using assms by (simp_all add: follows_def req_ok_def resp_ok_def joins_only_def)

text \<open>What a longer log keeps.\<close>

lemma inv_extend:
  assumes "cmLog (cm l') = cmLog (cm l) @ xs"
  shows "follows t l f \<Longrightarrow> follows t l' f" "req_ok t l req ni \<Longrightarrow> req_ok t l' req ni"
    "resp_ok t l f ni n resp \<Longrightarrow> resp_ok t l' f ni n resp"
  using assms by (auto simp: follows_def req_ok_def resp_ok_def joins_only_def)

lemma has_entry_follows:
  assumes "\<forall>p \<in> set (peerIds (cm (ldr c))). follows t (ldr c) (fol c p)"
  shows "has_entry c i = insert (cmId (cm (ldr c))) {p \<in> set (peerIds (cm (ldr c))). i < length (cmLog (cm (fol c p)))}"
  using assms follows_nth unfolding has_entry_def by fastforce

lemma majority_mono:
  assumes "majority c Q" "Q \<subseteq> R" "R \<subseteq> cluster c"
  shows "majority c R"
proof -
  have "finite R" using assms(3) finite_subset[OF _ maj.finite_members] by blast
  with assms card_mono[of R Q] show ?thesis by (simp add: majority_def)
qed

lemma majority_cong: "peerIds c = peerIds d \<Longrightarrow> cmId c = cmId d \<Longrightarrow> majority c Q = majority d Q"
  by (simp add: majority_def cluster_def)

lemma length_filter_mono:
  "(\<And>x. P x \<Longrightarrow> Q x) \<Longrightarrow> length (filter P xs) \<le> length (filter Q xs)"
  by (induction xs) (auto simp: le_SucI)

lemma quorum_at_mono:
  assumes "quorum_at c i" "peerIds c = peerIds d" "\<forall>p. unat (map_get (matchIndex c) p) \<le> unat (map_get (matchIndex d) p)"
  shows "quorum_at d i"
proof -
  have "length (filter (\<lambda>p. i \<le> unat (map_get (matchIndex c) p)) (peerIds d)) \<le>
      length (filter (\<lambda>p. i \<le> unat (map_get (matchIndex d) p)) (peerIds d))"
    using assms(3) by (intro length_filter_mono) (meson order_trans)
  with assms(1,2) show ?thesis by (simp add: quorum_at_def match_count_def)
qed

lemma commit_ok_mono:
  assumes "commit_ok c"
    and "cmLog (cm (ldr d)) = cmLog (cm (ldr c))" "commitIndex (cm (ldr d)) = commitIndex (cm (ldr c))"
      "peerIds (cm (ldr d)) = peerIds (cm (ldr c))"
    and m: "\<forall>p. unat (map_get (matchIndex (cm (ldr d))) p) \<le> unat (map_get (matchIndex (cm (ldr c))) p)"
    and g: "\<forall>p \<in> set (peerIds (cm (ldr c))). length (cmLog (cm (fol c p))) \<le> length (cmLog (cm (fol d p)))"
  shows "commit_ok d"
proof -
  have "quorum_at (cm (ldr c)) i" if "quorum_at (cm (ldr d)) i" for i
    using quorum_at_mono[OF that assms(4) m] .
  moreover have "unat (map_get (matchIndex (cm (ldr d))) p) < length (cmLog (cm (fol d p)))"
    if "p \<in> set (peerIds (cm (ldr c)))" for p
    using assms(1) that m g unfolding commit_ok_def by (meson le_less_trans less_le_trans)
  ultimately show ?thesis using assms(1-4) unfolding commit_ok_def by auto
qed

section \<open>A request is built\<close>

definition next_of :: "server \<Rightarrow> i32 \<Rightarrow> u64" where
  "next_of l p = (case nextIndex (cm l) p of None \<Rightarrow> 1 | Some ni \<Rightarrow> ni)"

text \<open>The leader after the entry of the peer has been made in its tables.\<close>

definition entered :: "i32 \<Rightarrow> server \<Rightarrow> server" where
  "entered p l = (case nextIndex (cm l) p of
       Some ni \<Rightarrow> l
     | None \<Rightarrow> upd_cm (\<lambda>c. c\<lparr> nextIndex := (nextIndex c)(p \<mapsto> 1), matchIndex := (matchIndex c)(p \<mapsto> 0) \<rparr>) l)"

lemma entered_frame [simp]:
  "cmLog (cm (entered p l)) = cmLog (cm l)" "cmu (cm (entered p l)) = cmu (cm l)"
  "cmState (cm (entered p l)) = cmState (cm l)" "currentTerm (cm (entered p l)) = currentTerm (cm l)"
  "peerIds (cm (entered p l)) = peerIds (cm l)" "cmId (cm (entered p l)) = cmId (cm l)"
  "commitIndex (cm (entered p l)) = commitIndex (cm l)" "peers (entered p l) = peers l"
  "nextIndex (cm (entered p l)) p = Some (next_of l p)"
  by (simp_all add: entered_def next_of_def split: option.split)

lemma entered_match: "next_ok l \<Longrightarrow> map_get (matchIndex (cm (entered p l))) q = map_get (matchIndex (cm l)) q"
  by (auto simp: entered_def map_get_def next_ok_def split: option.splits)

lemma entered_next [simp]: "next_of (entered p l) q = next_of l q"
  by (auto simp: entered_def next_of_def split: option.splits)

lemma hb_request_entered:
  assumes "\<not> cmu (cm l)"
  shows "hb_request p t l = hb_request p t (entered p l)"
  using assms by (cases "nextIndex (cm l) p") (simp_all add: hb_request_def entered_def Let_def)

lemma net_tick_ok:
  assumes inv: "net_inv t c" and p: "p \<in> set (peerIds (cm (ldr c)))"
  obtains req c' where "net_tick t p c = Ret c' (req, next_of (ldr c) p)" "net_inv t c'"
    "c' = c\<lparr> ldr := entered p (ldr c), reqs := insert (p, req, next_of (ldr c) p) (reqs c) \<rparr>"
    "unat (next_of (ldr c) p) + length (aeEntries req) = length (cmLog (cm (ldr c)))"
proof -
  let ?l = "ldr c" and ?l' = "entered p (ldr c)" and ?ni = "next_of (ldr c) p"
  let ?lg = "cmLog (cm (ldr c))"
  have ld: "leads t ?l" "next_ok ?l" "commit_ok c" using inv by (simp_all add: net_inv_def)
  have ni: "1 \<le> unat ?ni" "unat ?ni \<le> length ?lg"
    using ld(2) leads_log[OF ld(1)] by (auto simp: next_ok_def next_of_def Suc_le_eq split: option.split)
  have j: "\<forall>v \<in> set (drop (unat ?ni) ?lg). registered (Command v)"
    using ld(1) set_drop_subset_set_drop[OF ni(1), of ?lg] unfolding leads_def by blast
  have free: "\<not> cmu (cm ?l')" "\<not> cmu (cm ?l)" and nx: "nextIndex (cm ?l') p = Some ?ni" using ld(1) by (simp_all add: leads_def)
  obtain a where a: "peers ?l p = Some (Some a)" using ld(1) p by (auto simp: leads_def)
  obtain es where es: "serialize_all (drop (unat ?ni) ?lg) = Some es"
    "hb_request p t ?l' = Ret ?l' (\<lparr> aeTerm = t, aeLeaderId = cmId (cm ?l), aePrevLogIndex = ?ni - 1,
       aePrevLogTerm = Term (?lg ! unat (?ni - 1)), aeEntries = es, aeLeaderCommit = commitIndex (cm ?l) \<rparr>, ?ni)"
    by (rule hb_request_ok[OF free(1) nx, where t = t and a = a]) (use ni j ld(1) a in \<open>auto simp: leads_def\<close>)
  let ?req = "\<lparr> aeTerm = t, aeLeaderId = cmId (cm ?l), aePrevLogIndex = ?ni - 1,
       aePrevLogTerm = Term (?lg ! unat (?ni - 1)), aeEntries = es, aeLeaderCommit = commitIndex (cm ?l) \<rparr>"
  let ?c = "c\<lparr> ldr := ?l', reqs := insert (p, ?req, ?ni) (reqs c) \<rparr>"
  have len: "unat ?ni + length es = length ?lg" using wire_entries(3)[OF j es(1)] ni(2) by simp
  have rq: "req_ok t ?l' ?req ?ni" using es(1) len ni ld(3) by (simp add: req_ok_def commit_ok_def)
  have "leads t ?l'" using ld(1) by (simp add: leads_def)
  moreover have "next_ok ?l'" using ld(2) ni p by (auto simp: next_ok_def entered_def dom_def split: option.splits if_splits)
  moreover have "commit_ok ?c"
    by (rule commit_ok_mono[OF ld(3)]) (use entered_match[OF ld(2)] in auto)
  ultimately have "net_inv t ?c"
    using inv rq p by (auto simp: net_inv_def inv_cong[of ?l' ?l])
  moreover have "net_tick t p c = Ret ?c (?req, ?ni)"
    using es(2) hb_request_entered[OF free(2), of p t] by (simp add: net_tick_def)
  ultimately show thesis using that[of ?c ?req] len by simp
qed


section \<open>A request is handled\<close>

lemma AppendEntries_refuses:
  assumes "\<not> cmu (cm f)" "\<not> prev_ok req (cmLog (cm f))"
  obtains f' resp where "AppendEntries dial now req f = Ret f' resp" "\<not> arSuccess resp" "\<not> cmu (cm f')"
    "arTerm resp = max (currentTerm (cm f)) (aeTerm req)" "cmLog (cm f') = cmLog (cm f)"
    "currentTerm (cm f') = max (currentTerm (cm f)) (aeTerm req)"
proof -
  let ?f = "upd_cm (cmu_update (\<lambda>_. False)) (upd_cm (AE_terms now req) (upd_cm (cmu_update (\<lambda>_. True)) f))"
  obtain resp where "AppendEntries dial now req f = Ret ?f resp" "\<not> arSuccess resp"
    "arTerm resp = max (currentTerm (cm f)) (aeTerm req)"
    using assms by (simp add: AppendEntries_def with_cm_lock_def Let_def)
  then show thesis by (intro that[of ?f resp]) simp_all
qed

text \<open>A follower handles a request of the leader: it answers, or it stops because of an \<open>AddNode\<close> entry, now or before.\<close>

definition meets_node :: "append_request \<Rightarrow> server \<Rightarrow> bool" where
  "meets_node req f \<longleftrightarrow> cmu (cm f) \<or> (\<exists>e \<in> set (aeEntries req). eType e = 3)"

lemma follower_step:
  assumes fl: "follows t l f" and rq: "req_ok t l req ni" and ld: "leads t l"
  shows "\<exists>f'. follows t l f' \<and> length (cmLog (cm f)) \<le> length (cmLog (cm f')) \<and>
    ((\<exists>resp. AppendEntries dial now req f = Ret f' resp \<and> resp_ok t l f' ni (length (aeEntries req)) resp \<and>
        (unat ni = 1 \<longrightarrow> arSuccess resp)) \<or>
     AppendEntries dial now req f = Block f' \<and> meets_node req f \<and> \<not> joins_only l)"
proof -
  let ?lg = "cmLog (cm l)" and ?F = "cmLog (cm f)" and ?m = "unat ni + length (aeEntries req)"
  have f: "currentTerm (cm f) \<le> t" "?F \<noteq> []" "length ?F \<le> length ?lg" "?F = zeroed (take (length ?F) ?lg)"
    using fl by (simp_all add: follows_def)
  have r: "aeTerm req = t" "1 \<le> unat ni" "aePrevLogIndex req = ni - 1" "?m \<le> length ?lg"
    "serialize_all (drop (unat ni) (take ?m ?lg)) = Some (aeEntries req)" "unat (aeLeaderCommit req) < ?m"
    using rq by (simp_all add: req_ok_def)
  have l: "length ?lg < 2 ^ 63" "\<forall>v \<in> set (drop 1 ?lg). registered (Command v)" using ld by (simp_all add: leads_def)
  have pv: "Suc (unat (aePrevLogIndex req)) = unat ni" using r(2,3) unat_pred[of ni] by simp
  consider "cmu (cm f)" | "\<not> cmu (cm f)" "prev_ok req ?F" | "\<not> cmu (cm f)" "\<not> prev_ok req ?F" by blast
  then show ?thesis
  proof cases
    case 1
    then have "AppendEntries dial now req f = Block f" by (simp add: AppendEntries_def with_cm_lock_def)
    then show ?thesis using 1 fl by (intro exI[of _ f]) (simp add: meets_node_def follows_def)
  next
    case 2
    have len: "length ?F < 2 ^ 64" using f(3) l(1) by simp
    have ni: "unat ni \<le> length ?F" using prev_index(2)[OF 2(2) f(2) len] pv by simp
    note mz = merged_zeroed[OF r(5) l(2) pv ni f(3) r(4)]
    have mg: "merged req ?F = zeroed (take (max (length ?F) ?m) ?lg)" using mz(1) f(4) by simp
    have ml: "length (merged req ?F) = max (length ?F) ?m" using f(3) r(4) by (simp add: mg)
    have np: "set (new_part req ?F) \<subseteq> set (aeEntries req)" by (simp add: new_part_def set_drop_subset)
    show ?thesis
    proof (cases "\<exists>e \<in> set (new_part req ?F). eType e = 3")
      case True
      obtain f' where f': "AppendEntries dial now req f = Block f'" "cmu (cm f')" "cmLog (cm f') = ?F"
        "currentTerm (cm f') = max (currentTerm (cm f)) (aeTerm req)"
        by (rule AppendEntries_node_blocks[OF 2 f(2) len _ True, of dial now]) (use mz(2) np in blast)
      moreover have "\<not> joins_only l" "meets_node req f" using mz(3) True np by (auto simp: joins_only_def meets_node_def)
      ultimately show ?thesis using f r(1) by (intro exI[of _ f']) (simp add: follows_def)
    next
      case False
      then have srv: "\<forall>e \<in> set (new_part req ?F). is_server e" using mz(2) np by (auto simp: is_server_def)
      have cov: "commit_covered req f" using r(6) ml by (simp add: commit_covered_def less_max_iff_disj)
      obtain f' resp where f': "AppendEntries dial now req f = Ret f' resp" "arSuccess resp"
        "arTerm resp = max (currentTerm (cm f)) (aeTerm req)" "cmLog (cm f') = merged req ?F"
        "currentTerm (cm f') = max (currentTerm (cm f)) (aeTerm req)" "\<not> cmu (cm f')"
        by (rule AppendEntries_merges[OF 2 f(2) _ len srv cov, of dial now]) (use ml f(3) r(4) l(1) in auto)
      then have "follows t l f'" "resp_ok t l f' ni (length (aeEntries req)) resp" "length ?F \<le> length (cmLog (cm f'))"
        using f(1-3) r(1,2,4) ml mg by (auto simp: follows_def resp_ok_def max_def)
      with f'(1,2) show ?thesis by blast
    qed
  next
    case 3
    have ne: "1 < unat ni" using 3(2) r(2,3) unat_pred[of ni]
      by (metis One_nat_def diff_self_eq_0 le_neq_implies_less less_le_trans prev_ok_def unat_eq_zero zero_less_one)
    obtain f' resp where "AppendEntries dial now req f = Ret f' resp" "\<not> arSuccess resp" "\<not> cmu (cm f')"
      "arTerm resp = max (currentTerm (cm f)) (aeTerm req)" "cmLog (cm f') = ?F"
      "currentTerm (cm f') = max (currentTerm (cm f)) (aeTerm req)"
      by (rule AppendEntries_refuses[OF 3, of dial now])
    then show ?thesis
      using f r ne by (intro exI[of _ f']) (auto simp: follows_def resp_ok_def max_def)
  qed
qed

text \<open>The same in the network; an answer is on its way exactly when the handler has returned.\<close>

lemma net_inv_fol:
  assumes inv: "net_inv t c" and f': "follows t (ldr c) f'" "length (cmLog (cm (fol c p))) \<le> length (cmLog (cm f'))"
    and rs: "\<forall>(q, ni, n, r) \<in> R. q = p \<and> p \<in> set (peerIds (cm (ldr c))) \<and> resp_ok t (ldr c) f' ni n r"
  shows "net_inv t (c\<lparr> fol := (fol c)(p := f'), resps := R \<union> resps c \<rparr>)"
proof -
  have "commit_ok (c\<lparr> fol := (fol c)(p := f'), resps := R \<union> resps c \<rparr>)"
    by (rule commit_ok_mono[of c]) (use inv f' in \<open>auto simp: net_inv_def\<close>)
  moreover have "resp_ok t (ldr c) f' n' m' r'" if "resp_ok t (ldr c) (fol c p) n' m' r'" for n' m' r'
    using that f'(2) by (auto simp: resp_ok_def)
  ultimately show ?thesis using inv f'(1) rs by (fastforce simp: net_inv_def)
qed

lemma net_deliver_cases:
  assumes inv: "net_inv t c" and rq: "(p, req, ni) \<in> reqs c"
  obtains f' resp where "net_deliver dial now p req ni c =
      Ret (c\<lparr> fol := (fol c)(p := f'), resps := insert (p, ni, length (aeEntries req), resp) (resps c) \<rparr>) resp"
    "net_inv t (c\<lparr> fol := (fol c)(p := f'), resps := insert (p, ni, length (aeEntries req), resp) (resps c) \<rparr>)"
    "length (cmLog (cm (fol c p))) \<le> length (cmLog (cm f'))"
  | f' where "net_deliver dial now p req ni c = Block (c\<lparr> fol := (fol c)(p := f') \<rparr>)" "net_inv t (c\<lparr> fol := (fol c)(p := f') \<rparr>)"
    "length (cmLog (cm (fol c p))) \<le> length (cmLog (cm f'))" "meets_node req (fol c p)" "\<not> joins_only (ldr c)"
proof -
  have p: "p \<in> set (peerIds (cm (ldr c)))" "req_ok t (ldr c) req ni" "follows t (ldr c) (fol c p)" "leads t (ldr c)"
    using inv rq by (auto simp: net_inv_def)
  obtain f' where f': "follows t (ldr c) f'" "length (cmLog (cm (fol c p))) \<le> length (cmLog (cm f'))"
    "(\<exists>resp. AppendEntries dial now req (fol c p) = Ret f' resp \<and> resp_ok t (ldr c) f' ni (length (aeEntries req)) resp) \<or>
     AppendEntries dial now req (fol c p) = Block f' \<and> meets_node req (fol c p) \<and> \<not> joins_only (ldr c)"
    using follower_step[OF p(3,2,4), of dial now] by blast
  from f'(3) show thesis
  proof (elim disjE exE conjE)
    fix resp assume r: "AppendEntries dial now req (fol c p) = Ret f' resp" "resp_ok t (ldr c) f' ni (length (aeEntries req)) resp"
    show thesis
      by (rule that(1)[of resp f'])
        (use r p(1) f'(2) net_inv_fol[OF inv f'(1,2), of "{(p, ni, length (aeEntries req), resp)}"] in
          \<open>simp_all add: net_deliver_def Server_AppendEntries_def\<close>)
  next
    assume r: "AppendEntries dial now req (fol c p) = Block f'" "meets_node req (fol c p)" "\<not> joins_only (ldr c)"
    show thesis
      by (rule that(2)[of f'])
        (use r f'(2) net_inv_fol[OF inv f'(1,2), of "{}"] in \<open>simp_all add: net_deliver_def Server_AppendEntries_def\<close>)
  qed
qed

section \<open>An answer is handled\<close>

lemma commit_scan_frame [simp]:
  "cmLog (commit_scan c) = cmLog c" "peerIds (commit_scan c) = peerIds c" "cmId (commit_scan c) = cmId c"
  "matchIndex (commit_scan c) = matchIndex c" "nextIndex (commit_scan c) = nextIndex c"
  "cmState (commit_scan c) = cmState c" "currentTerm (commit_scan c) = currentTerm c" "cmu (commit_scan c) = cmu c"
  "quorum_at (commit_scan c) = quorum_at c"
  by (simp_all add: commit_scan_def quorum_at_def match_count_def fun_eq_iff)

lemma majority_holders:
  assumes "distinct (peerIds c)" "cmId c \<notin> set (peerIds c)"
  shows "majority c (holders c i) \<longleftrightarrow> quorum_at c i"
  using card_holders[OF assms, of i]
  by (auto simp: majority_def quorum_at_def holders_def cluster_def mult.commute)

lemma commit_ok_scan:
  assumes ci: "commit_ok c" and ld: "leads t (ldr c)"
    and fl: "\<forall>q \<in> set (peerIds (cm (ldr c))). follows t (ldr c) (fol c q)"
    and m: "\<forall>q \<in> set (peerIds (cm (ldr c))). unat (map_get m q) < length (cmLog (cm (fol c q)))"
    and l': "cm l' = commit_scan ((cm (ldr c))\<lparr> nextIndex := nx, matchIndex := m \<rparr>)"
  shows "commit_ok (c\<lparr> ldr := l' \<rparr>)"
    and "commitIndex (cm (ldr c)) < commitIndex (cm l') \<Longrightarrow> i \<le> unat (commitIndex (cm l')) \<Longrightarrow>
      majority (cm l') (has_entry (c\<lparr> ldr := l' \<rparr>) i)"
proof -
  let ?k = "(cm (ldr c))\<lparr> nextIndex := nx, matchIndex := m \<rparr>" and ?d = "c\<lparr> ldr := l' \<rparr>"
  let ?n = "unat (commitIndex (commit_scan ?k))"
  have he: "has_entry ?d i = has_entry c i" for i by (simp add: has_entry_def l')
  have mj: "majority (commit_scan ?k) Q = majority (cm (ldr c)) Q" "majority ?k Q = majority (cm (ldr c)) Q" for Q
    by (rule majority_cong; simp)+
  have len: "length (cmLog ?k) < 2 ^ 64" "unat (commitIndex ?k) < length (cmLog ?k)"
    using ld ci by (simp_all add: leads_def commit_ok_def)
  note sc = commit_scan_cases[OF len]
  have hold: "majority (cm (ldr c)) (has_entry c i)" if "quorum_at ?k n" "i \<le> n" for i n
  proof -
    have "majority (cm (ldr c)) (holders ?k n)"
      using that(1) majority_holders[of ?k n] ld by (simp add: leads_def mj)
    moreover have "holders ?k n \<subseteq> has_entry c i"
      using m that(2) unfolding has_entry_follows[OF fl] holders_def
      by (auto dest: bspec order_trans intro: le_less_trans)
    moreover have "has_entry c i \<subseteq> cluster (cm (ldr c))" by (auto simp: has_entry_def cluster_def)
    ultimately show ?thesis by (rule majority_mono)
  qed
  have "i \<le> ?n" if "i < length (cmLog ?k)" "quorum_at ?k i" for i
    using sc that by (metis not_less)
  moreover have "?n < length (cmLog ?k)" using sc len(2) by auto
  ultimately show "commit_ok ?d" using m by (auto simp: commit_ok_def l')
  show "majority (cm l') (has_entry ?d i)" if "commitIndex (cm (ldr c)) < commitIndex (cm l')" "i \<le> unat (commitIndex (cm l'))"
    using sc hold[of ?n i] that by (auto simp: he mj l' word_less_nat_alt)
qed

lemma commit_scan_mono:
  "length (cmLog c) < 2 ^ 64 \<Longrightarrow> unat (commitIndex c) < length (cmLog c) \<Longrightarrow> commitIndex c \<le> commitIndex (commit_scan c)"
  using commit_scan_cases[of c] by (auto simp: word_le_nat_alt)

lemma index_sum:
  assumes "1 \<le> unat ni" "unat ni + n < 2 ^ 63"
  shows "unat (ni + of_nat n :: u64) = unat ni + n" "unat (ni + of_nat n - 1 :: u64) = unat ni + n - 1"
proof -
  have "unat (of_nat n :: u64) = n" using assms by (simp add: unat_of_nat)
  moreover from this have "unat (ni + of_nat n) = unat ni + unat (of_nat n :: u64)"
    using assms by (intro unat_add_lem[THEN iffD1]) simp
  ultimately show *: "unat (ni + of_nat n) = unat ni + n" by simp
  show "unat (ni + of_nat n - 1) = unat ni + n - 1" using unat_pred[of "ni + of_nat n"] assms(1) * by simp
qed

lemma net_answer_ok:
  assumes inv: "net_inv t c" and rs: "(p, ni, n, resp) \<in> resps c"
  obtains c' where "net_answer now t p ni n resp c = Ret c' ()" "net_inv t c'" "fol c' = fol c"
    "commitIndex (cm (ldr c)) \<le> commitIndex (cm (ldr c'))"
    "\<forall>i. commitIndex (cm (ldr c)) < commitIndex (cm (ldr c')) \<longrightarrow> i \<le> unat (commitIndex (cm (ldr c'))) \<longrightarrow>
       majority (cm (ldr c')) (has_entry c' i)"
    "cmLog (cm (ldr c')) = cmLog (cm (ldr c))" "peerIds (cm (ldr c')) = peerIds (cm (ldr c))" "cmId (cm (ldr c')) = cmId (cm (ldr c))"
    "\<forall>q. q \<noteq> p \<longrightarrow> next_of (ldr c') q = next_of (ldr c) q \<and> map_get (matchIndex (cm (ldr c'))) q = map_get (matchIndex (cm (ldr c))) q"
    "arSuccess resp \<longrightarrow> unat (map_get (matchIndex (cm (ldr c'))) p) = unat ni + n - 1"
    "\<not> arSuccess resp \<longrightarrow> unat (next_of (ldr c') p) = unat ni - 1 \<and>
       map_get (matchIndex (cm (ldr c'))) p = map_get (matchIndex (cm (ldr c))) p"
proof -
  let ?l = "ldr c"
  have r: "p \<in> set (peerIds (cm ?l))" "resp_ok t ?l (fol c p) ni n resp" using inv rs by (auto simp: net_inv_def)
  have ld: "leads t ?l" and nx: "next_ok ?l" and ci: "commit_ok c"
    and fl: "\<forall>q \<in> set (peerIds (cm ?l)). follows t ?l (fol c q)" using inv by (simp_all add: net_inv_def)
  have free: "\<not> cmu (cm ?l)" "cmState (cm ?l) = LEADER" using ld by (simp_all add: leads_def)
  have rr: "arTerm resp = t" "1 \<le> unat ni" "unat ni + n \<le> length (cmLog (cm ?l))" "length (cmLog (cm ?l)) < 2 ^ 63"
    using r(2) ld by (simp_all add: resp_ok_def leads_def)
  have add: "unat (ni + of_nat n) = unat ni + n" "unat (ni + of_nat n - 1) = unat ni + n - 1"
    using index_sum[of ni n] rr by simp_all
  show thesis
  proof (cases "arSuccess resp")
    case True
    let ?nx = "(nextIndex (cm ?l))(p \<mapsto> ni + of_nat n)" and ?m = "(matchIndex (cm ?l))(p \<mapsto> ni + of_nat n - 1)"
    let ?l' = "upd_cm (\<lambda>c. commit_scan (c\<lparr> nextIndex := ?nx, matchIndex := ?m \<rparr>)) ?l"
    have "hb_response now p t ni n resp ?l = Ret ?l' ()"
      using free rr(1) True by (simp add: hb_response_def with_cm_lock_def upd_cm_def commit_scan_def match_count_def)
    moreover have m: "\<forall>q \<in> set (peerIds (cm ?l)). unat (map_get ?m q) < length (cmLog (cm (fol c q)))"
      using ci r(2) True add(2) rr(2) by (auto simp: commit_ok_def map_get_def resp_ok_def)
    have l': "cm ?l' = commit_scan ((cm ?l)\<lparr> nextIndex := ?nx, matchIndex := ?m \<rparr>)" by simp
    note scan = commit_ok_scan[OF ci ld fl m l']
    moreover have "leads t ?l'" "next_ok ?l'" using ld nx add(1) rr r(1) by (auto simp: leads_def next_ok_def)
    moreover have "commitIndex (cm ?l) \<le> commitIndex (cm ?l')"
      using commit_scan_mono[of "(cm ?l)\<lparr> nextIndex := ?nx, matchIndex := ?m \<rparr>"] ld ci
      by (simp add: leads_def commit_ok_def)
    ultimately show thesis
      using inv True add(2) scan(2)
      by (intro that[of "c\<lparr> ldr := ?l' \<rparr>"])
        (auto simp: net_answer_def net_inv_def inv_cong[of ?l' ?l] next_of_def map_get_def)
  next
    case False
    let ?l' = "upd_cm (\<lambda>c. c\<lparr> nextIndex := (nextIndex c)(p \<mapsto> ni - 1) \<rparr>) ?l"
    have nz: "1 < unat ni" using False r(2) by (simp add: resp_ok_def)
    have pr: "unat (ni - 1) = unat ni - 1" using nz by (intro unat_pred) simp
    have "hb_response now p t ni n resp ?l = Ret ?l' ()"
      using free rr(1) False by (simp add: hb_response_def with_cm_lock_def upd_cm_def)
    moreover have "commit_ok (c\<lparr> ldr := ?l' \<rparr>)"
      by (rule commit_ok_mono[OF ci]) simp_all
    moreover have "leads t ?l'" "next_ok ?l'" using ld nx pr nz rr r(1) by (auto simp: leads_def next_ok_def)
    ultimately show thesis
      using inv False pr
      by (intro that[of "c\<lparr> ldr := ?l' \<rparr>"])
        (auto simp: net_answer_def net_inv_def inv_cong[of ?l' ?l] next_of_def)
  qed
qed


section \<open>Registrations and submissions\<close>

text \<open>A step of the leader that leaves the module alone, apart from a longer log or a new peer.\<close>

lemma net_register_ok:
  assumes inv: "net_inv t c" and new: "newId \<notin> cluster (cm (ldr c))" "new_master t (fol c newId)" and dl: "dial masterAddr"
  obtains l where "net_register dial masterAddr newId c =
      Ret (c\<lparr> ldr := l, subs := subs c @ [CAddServer \<lparr> ServerAddr = masterAddr, ServerId = newId \<rparr>] \<rparr>)
        (\<lparr> rrSuccess = True, rrConnectId = cmId (cm (ldr c)) \<rparr>, False)"
    "net_inv t (c\<lparr> ldr := l, subs := subs c @ [CAddServer \<lparr> ServerAddr = masterAddr, ServerId = newId \<rparr>] \<rparr>)"
    "cm l = (cm (ldr c))\<lparr> peerIds := peerIds (cm (ldr c)) @ [newId] \<rparr>"
proof -
  let ?l = "ldr c"
  let ?l' = "upd_cm (\<lambda>c. c\<lparr> peerIds := peerIds c @ [newId] \<rparr>)
              (?l\<lparr> peers := (peers ?l)(newId \<mapsto> Some masterAddr), peerAddr := (peerAddr ?l)(newId \<mapsto> masterAddr) \<rparr>)"
  let ?c = "c\<lparr> ldr := ?l', subs := subs c @ [CAddServer \<lparr> ServerAddr = masterAddr, ServerId = newId \<rparr>] \<rparr>"
  have ld: "leads t ?l" "next_ok ?l" "commit_ok c" using inv by (simp_all add: net_inv_def)
  have nw: "newId \<notin> set (peerIds (cm ?l))" "newId \<noteq> cmId (cm ?l)" using new(1) by (simp_all add: cluster_def)
  have "newId \<notin> dom (matchIndex (cm ?l))" using ld(2) nw(1) unfolding next_ok_def by blast
  then have m0: "map_get (matchIndex (cm ?l)) newId = 0" by (simp add: map_get_def domIff)
  have reg: "net_register dial masterAddr newId c = Ret ?c (\<lparr> rrSuccess = True, rrConnectId = cmId (cm ?l) \<rparr>, False)"
    using dl nw(1) ld(1) by (simp add: net_register_def RegisterMaster_locked_def Let_def leads_def)
  have lg: "cmLog (cm ?l') = cmLog (cm ?l)" by simp
  note cg = inv_cong[OF lg]
  have "follows t ?l (fol c newId)"
    using ld(1) new(2) by (cases "cmLog (cm ?l)") (auto simp: leads_def log_ok_def new_master_def follows_def zeroed_def)
  moreover have "leads t ?l'" using ld(1) nw by (auto simp: leads_def)
  moreover have "next_ok ?l'" using ld(2) by (auto simp: next_ok_def)
  moreover have "commit_ok ?c"
  proof -
    have "i \<le> unat (commitIndex (cm ?l))" if "i < length (cmLog (cm ?l))" "quorum_at (cm ?l') i" for i
    proof (cases "i = 0 \<or> peerIds (cm ?l) = []")
      case True
      then show ?thesis using that(2) m0 by (auto simp: quorum_at_def match_count_def split: if_splits)
    next
      case False
      then have "quorum_at (cm ?l) i" using that(2) m0 by (auto simp: quorum_at_def match_count_def split: if_splits)
      with False that(1) ld(3) show ?thesis by (simp add: commit_ok_def)
    qed
    with ld(3) m0 new(2) show ?thesis by (auto simp: commit_ok_def new_master_def)
  qed
  ultimately have "net_inv t ?c" using inv by (auto simp: net_inv_def cg)
  with reg show thesis by (rule that) simp
qed

lemma net_update_ok:
  assumes inv: "net_inv t c"
  obtains l xs where "net_update addr cpu memory sz disk r1 r2 c = Ret (c\<lparr> ldr := l, subs := subs c @ xs \<rparr>) ()"
    "net_inv t (c\<lparr> ldr := l, subs := subs c @ xs \<rparr>)" "cm l = cm (ldr c)"
proof -
  let ?l = "ldr c"
  have ld: "leads t ?l" using inv by (simp add: net_inv_def)
  obtain l res where l: "UpdateNode_local addr cpu memory sz disk r1 r2 ?l = Ret l res" "cm l = cm ?l" "peers l = peers ?l"
    using ld by (cases "nodeAddr ?l addr") (auto simp: UpdateNode_local_def leads_def Let_def add_node_obj_def)
  let ?xs = "case res of None \<Rightarrow> [] | Some (r, rnd) \<Rightarrow> [CAddNode \<lparr> asnID = rnd, NodeAddr = addr \<rparr>]"
  have "net_inv t (c\<lparr> ldr := l, subs := subs c @ ?xs \<rparr>)"
    using inv l(2,3) inv_cong[of l ?l]
    by (auto simp: net_inv_def leads_def next_ok_def commit_ok_def split: option.splits)
  moreover have "net_update addr cpu memory sz disk r1 r2 c = Ret (c\<lparr> ldr := l, subs := subs c @ ?xs \<rparr>) ()"
    using l(1) by (simp add: net_update_def)
  ultimately show thesis using that l(2) by blast
qed

lemma net_submit_ok:
  assumes inv: "net_inv t c" and cmd: "cmd \<in> set (subs c)" and len: "Suc (length (cmLog (cm (ldr c)))) < 2 ^ 63"
  obtains l where "net_submit cmd c = Ret (c\<lparr> ldr := l, subs := remove1 cmd (subs c) \<rparr>) (True, cmId (cm (ldr c)))"
    "net_inv t (c\<lparr> ldr := l, subs := remove1 cmd (subs c) \<rparr>)"
    "cm l = (cm (ldr c))\<lparr> cmLog := cmLog (cm (ldr c)) @ [\<lparr> Command = cmd, Term = t \<rparr>] \<rparr>"
proof -
  let ?l = "ldr c" and ?le = "\<lparr> Command = cmd, Term = t \<rparr>"
  have ld: "leads t ?l" and ci: "commit_ok c" and fl: "\<forall>q \<in> set (peerIds (cm ?l)). follows t ?l (fol c q)"
    and rg: "registered cmd" using inv cmd by (simp_all add: net_inv_def)
  obtain l where sub: "Submit cmd ?l = Ret l (True, cmId (cm ?l))" "peers l = peers ?l"
    "cm l = (cm ?l)\<lparr> cmLog := cmLog (cm ?l) @ [?le] \<rparr>"
  proof -
    obtain e where "Serialize ?le = Some e" using Serialize_registered[OF rg, of t] by auto
    then show thesis
      using ld by (intro that[of "(upd_cm (\<lambda>c. c\<lparr> cmLog := cmLog c @ [?le] \<rparr>) ?l)\<lparr> logFile := logFile ?l @ [e] \<rparr>"])
        (cases "cm ?l"; simp add: Submit_def with_cm_lock_def leads_def upd_cm_def Let_def)+
  qed
  let ?c = "c\<lparr> ldr := l, subs := remove1 cmd (subs c) \<rparr>"
  have lg: "cmLog (cm l) = cmLog (cm ?l) @ [?le]" by (simp add: sub(3))
  note ext = inv_extend[OF lg]
  have ne: "cmLog (cm ?l) \<noteq> []" by (rule leads_log[OF ld])
  have "leads t l" using ld len rg ne sub(2,3) by (cases "cmLog (cm ?l)") (auto simp: leads_def log_ok_def)
  moreover have "next_ok l" using inv sub(3) by (auto simp: net_inv_def next_ok_def le_SucI)
  moreover have "commit_ok ?c"
  proof -
    have q: "quorum_at (cm l) i = quorum_at (cm ?l) i" for i by (simp add: quorum_at_def match_count_def sub(3))
    have last: "\<not> quorum_at (cm ?l) (length (cmLog (cm ?l)))" if "peerIds (cm ?l) \<noteq> []"
    proof -
      have "unat (map_get (matchIndex (cm ?l)) p) < length (cmLog (cm ?l))" if "p \<in> set (peerIds (cm ?l))" for p
        using that ci fl unfolding commit_ok_def follows_def by (meson less_le_trans)
      then have "filter (\<lambda>p. length (cmLog (cm ?l)) \<le> unat (map_get (matchIndex (cm ?l)) p)) (peerIds (cm ?l)) = []"
        by (auto simp: filter_empty_conv not_le)
      with that show ?thesis by (cases "peerIds (cm ?l)") (simp_all add: quorum_at_def match_count_def)
    qed
    have "i \<le> unat (commitIndex (cm ?l))" if "i < Suc (length (cmLog (cm ?l)))" "quorum_at (cm ?l) i" "peerIds (cm ?l) \<noteq> []" for i
      using that ci last by (metis commit_ok_def less_antisym)
    with ci show ?thesis unfolding commit_ok_def by (simp add: q[unfolded sub(3)] sub(3) less_SucI)
  qed
  ultimately have "net_inv t ?c" using inv ext sub(3) set_remove1_subset[of cmd "subs c"] by (auto simp: net_inv_def)
  then show thesis using that sub(3) by (simp add: net_submit_def sub(1))
qed

lemma net_joined_ok: "net_inv t c \<Longrightarrow> net_inv t (net_joined p addr c)"
  by (auto simp: net_joined_def join_peer_def net_inv_def commit_ok_def follows_def resp_ok_def)

section \<open>Reachable states\<close>

text \<open>A leader that has just been elected for the first time, and followers whose logs agree with its log.\<close>

definition stable_start :: "u64 \<Rightarrow> net \<Rightarrow> bool" where
  "stable_start t c \<longleftrightarrow> leads t (ldr c) \<and> nextIndex (cm (ldr c)) = Map.empty \<and> matchIndex (cm (ldr c)) = Map.empty \<and>
     commitIndex (cm (ldr c)) = 0 \<and> (\<forall>p \<in> set (peerIds (cm (ldr c))). follows t (ldr c) (fol c p)) \<and>
     reqs c = {} \<and> resps c = {} \<and> subs c = []"

lemma stable_start_inv: "stable_start t c \<Longrightarrow> net_inv t c"
  using leads_log[of t "ldr c"]
  by (auto simp: stable_start_def net_inv_def next_ok_def commit_ok_def quorum_at_def match_count_def map_get_def
      follows_def filter_empty_conv neq_Nil_conv split: if_splits)

text \<open>What happens in a step: logs, the list of peers and the commit index only grow, and when the commit index grows, a majority
  of the cluster holds everything up to it.\<close>

definition grows :: "net \<Rightarrow> net \<Rightarrow> bool" where
  "grows c d \<longleftrightarrow> (\<exists>es. cmLog (cm (ldr d)) = cmLog (cm (ldr c)) @ es) \<and> (\<exists>ps. peerIds (cm (ldr d)) = peerIds (cm (ldr c)) @ ps) \<and>
     (\<forall>p. length (cmLog (cm (fol c p))) \<le> length (cmLog (cm (fol d p)))) \<and>
     commitIndex (cm (ldr c)) \<le> commitIndex (cm (ldr d)) \<and>
     (commitIndex (cm (ldr c)) < commitIndex (cm (ldr d)) \<longrightarrow>
       (\<forall>i \<le> unat (commitIndex (cm (ldr d))). majority (cm (ldr d)) (has_entry d i)))"

lemma net_step_inv:
  assumes "net_step t c d" "net_inv t c"
  shows "net_inv t d \<and> grows c d"
  using assms
proof (cases rule: net_step.cases)
  case (tick p)
  show ?thesis by (rule net_tick_ok[OF assms(2) tick(2)]) (use tick(1) in \<open>auto simp: grows_def\<close>)
next
  case (deliver p req ni dial now)
  show ?thesis
    by (rule net_deliver_cases[OF assms(2) deliver(2), of dial now]) (use deliver(1) in \<open>auto simp: grows_def\<close>)
next
  case (answer p ni n resp now)
  show ?thesis
    by (rule net_answer_ok[OF assms(2) answer(2), of now]) (use answer(1) in \<open>auto simp: grows_def\<close>)
next
  case (register newId dial masterAddr)
  show ?thesis
  proof (cases "dial masterAddr")
    case True
    show ?thesis
      by (rule net_register_ok[where dial = dial and masterAddr = masterAddr, OF assms(2) register(2,3) True]) (use register(1) in \<open>auto simp: grows_def\<close>)
  next
    case False
    then have "d = c" using register(1) by (simp add: net_register_def RegisterMaster_locked_def)
    with assms(2) show ?thesis by (simp add: grows_def)
  qed
next
  case (update addr cpu memory sz disk r1 r2)
  show ?thesis
    by (rule net_update_ok[OF assms(2), of addr cpu memory sz disk r1 r2]) (use update(1) in \<open>auto simp: grows_def\<close>)
next
  case (submit cmd)
  show ?thesis
    by (rule net_submit_ok[OF assms(2) submit(2,3)]) (use submit(1) in \<open>auto simp: grows_def\<close>)
next
  case (joined p addr)
  then show ?thesis using net_joined_ok[OF assms(2)] by (auto simp: grows_def net_joined_def join_peer_def)
qed

lemma reachable_net_inv:
  assumes "(net_step t)\<^sup>*\<^sup>* c0 c" "stable_start t c0"
  shows "net_inv t c"
  using assms by (induction rule: rtranclp_induct) (auto intro: stable_start_inv dest: net_step_inv)

end
