(* ===== verification/Replication_Props.thy ===== *)
theory Replication_Props
  imports Replication
begin

text \<open>
  What the invariant of \<open>Replication\<close> gives: agreement of the logs, and convergence along schedules of heartbeat rounds with
  losses while the log holds registrations of masters only.
\<close>

section \<open>Rounds\<close>

text \<open>The number of delivered rounds a peer still needs: none once the leader knows that it has the whole log.\<close>

definition missing :: "server \<Rightarrow> i32 \<Rightarrow> nat" where
  "missing l p = (if unat (map_get (matchIndex (cm l)) p) = length (cmLog (cm l)) - 1 then 0 else unat (next_of l p))"

lemma hb_round_ok:
  assumes inv: "net_inv t c" and p: "p \<in> set (peerIds (cm (ldr c)))" and jo: "joins_only (ldr c)"
  obtains c' where "hb_round dial t (now, p, fate) c = Ret c' ()" "net_inv t c'"
    "cmLog (cm (ldr c')) = cmLog (cm (ldr c))" "peerIds (cm (ldr c')) = peerIds (cm (ldr c))" "cmId (cm (ldr c')) = cmId (cm (ldr c))"
    "\<forall>q. missing (ldr c') q \<le> missing (ldr c) q - (if q = p \<and> fate = Delivered then 1 else 0)"
proof -
  let ?l = "ldr c" and ?ni = "next_of (ldr c) p"
  obtain req c1 where c1: "net_tick t p c = Ret c1 (req, ?ni)" "net_inv t c1"
    "c1 = c\<lparr> ldr := entered p ?l, reqs := insert (p, req, ?ni) (reqs c) \<rparr>"
    "unat ?ni + length (aeEntries req) = length (cmLog (cm ?l))"
    by (rule net_tick_ok[OF inv p])
  have nx: "next_ok ?l" "leads t ?l" using inv by (simp_all add: net_inv_def)
  have m1: "missing (ldr c1) q = missing ?l q" for q using c1(3) entered_match[OF nx(1)] by (simp add: missing_def)
  have in1: "(p, req, ?ni) \<in> reqs c1" using c1(3) by simp
  obtain f resp c2 where c2: "net_deliver dial now p req ?ni c1 = Ret c2 resp" "net_inv t c2"
    "c2 = c1\<lparr> fol := (fol c1)(p := f), resps := insert (p, ?ni, length (aeEntries req), resp) (resps c1) \<rparr>"
    by (rule net_deliver_cases[OF c1(2) in1, of dial now]) (use jo c1(3) in \<open>auto simp: joins_only_def\<close>)
  have in2: "(p, ?ni, length (aeEntries req), resp) \<in> resps c2" using c2(3) by simp
  obtain c3 where c3: "net_answer now t p ?ni (length (aeEntries req)) resp c2 = Ret c3 ()" "net_inv t c3"
    "cmLog (cm (ldr c3)) = cmLog (cm (ldr c2))" "peerIds (cm (ldr c3)) = peerIds (cm (ldr c2))" "cmId (cm (ldr c3)) = cmId (cm (ldr c2))"
    "\<forall>q. q \<noteq> p \<longrightarrow> next_of (ldr c3) q = next_of (ldr c2) q \<and> map_get (matchIndex (cm (ldr c3))) q = map_get (matchIndex (cm (ldr c2))) q"
    "arSuccess resp \<longrightarrow> unat (map_get (matchIndex (cm (ldr c3))) p) = unat ?ni + length (aeEntries req) - 1"
    "\<not> arSuccess resp \<longrightarrow> unat (next_of (ldr c3) p) = unat ?ni - 1 \<and>
       map_get (matchIndex (cm (ldr c3))) p = map_get (matchIndex (cm (ldr c2))) p"
    by (rule net_answer_ok[OF c2(2) in2, of now])
  have same: "cmLog (cm (ldr c2)) = cmLog (cm ?l)" "peerIds (cm (ldr c2)) = peerIds (cm ?l)" "cmId (cm (ldr c2)) = cmId (cm ?l)"
    "ldr c2 = ldr c1" using c1(3) c2(3) by simp_all
  have p3: "missing (ldr c3) p \<le> missing ?l p - 1"
  proof (cases "arSuccess resp")
    case True
    with c3(7) c1(4) same(1) c3(3) show ?thesis by (simp add: missing_def)
  next
    case False
    with c3(8) same(1) c3(3) c1(3) c2(3) show ?thesis by (simp add: missing_def entered_match[OF nx(1)])
  qed
  have q3: "missing (ldr c3) q \<le> missing ?l q" if "q \<noteq> p" for q
    using c3(3,6) that same(1) c1(3) c2(3) by (simp add: missing_def entered_match[OF nx(1)])
  have le3: "missing (ldr c3) q \<le> missing ?l q - (if q = p then 1 else 0)" for q using p3 q3 by auto
  show thesis
  proof (cases fate)
    case RequestLost
    then show thesis using c1 m1 by (intro that[of c1]) (auto simp: hb_round_def)
  next
    case AnswerLost
    then show thesis using c1 c2 m1 same by (intro that[of c2]) (auto simp: hb_round_def)
  next
    case Delivered
    then show thesis using c1(1) c2(1) c3(1-5) le3 same by (intro that[of c3]) (auto simp: hb_round_def)
  qed
qed

lemma run_rounds_ok:
  assumes "net_inv t c" "\<forall>(now, p, fate) \<in> set xs. p \<in> set (peerIds (cm (ldr c)))" "joins_only (ldr c)"
  obtains c' where "run_rounds dial t xs c = Ret c' ()" "net_inv t c'"
    "cmLog (cm (ldr c')) = cmLog (cm (ldr c))" "peerIds (cm (ldr c')) = peerIds (cm (ldr c))" "cmId (cm (ldr c')) = cmId (cm (ldr c))"
    "\<forall>q. missing (ldr c') q \<le> missing (ldr c) q - delivered q xs"
  using assms
proof (induction xs arbitrary: c thesis)
  case Nil
  then show ?case by (simp add: delivered_def)
next
  case (Cons x xs)
  obtain now p fate where x: "x = (now, p, fate)" by (cases x)
  have p: "p \<in> set (peerIds (cm (ldr c)))" using Cons.prems(3) x by simp
  obtain c1 where c1: "hb_round dial t x c = Ret c1 ()" "net_inv t c1"
    "cmLog (cm (ldr c1)) = cmLog (cm (ldr c))" "peerIds (cm (ldr c1)) = peerIds (cm (ldr c))" "cmId (cm (ldr c1)) = cmId (cm (ldr c))"
    "\<forall>q. missing (ldr c1) q \<le> missing (ldr c) q - (if q = p \<and> fate = Delivered then 1 else 0)"
    using hb_round_ok[OF Cons.prems(2) p Cons.prems(4), of dial now fate] x by blast
  obtain c2 where c2: "run_rounds dial t xs c1 = Ret c2 ()" "net_inv t c2"
    "cmLog (cm (ldr c2)) = cmLog (cm (ldr c1))" "peerIds (cm (ldr c2)) = peerIds (cm (ldr c1))" "cmId (cm (ldr c2)) = cmId (cm (ldr c1))"
    "\<forall>q. missing (ldr c2) q \<le> missing (ldr c1) q - delivered q xs"
    using Cons.IH[OF _ c1(2)] Cons.prems(3,4) c1(3,4) by (auto simp: joins_only_def)
  have "missing (ldr c2) q \<le> missing (ldr c) q - delivered q (x # xs)" for q
    using c1(6)[rule_format, of q] c2(6)[rule_format, of q] x by (auto simp: delivered_def split: if_splits)
  then show ?case using c1 c2 by (intro Cons.prems(1)[of c2]) auto
qed

text \<open>A peer that misses nothing has every command.\<close>

lemma missing_nothing:
  assumes inv: "net_inv t c" and p: "p \<in> set (peerIds (cm (ldr c)))" and z: "missing (ldr c) p = 0"
  shows "map Command (cmLog (cm (fol c p))) = map Command (cmLog (cm (ldr c)))"
    and "unat (map_get (matchIndex (cm (ldr c))) p) = length (cmLog (cm (ldr c))) - 1"
proof -
  have "1 \<le> unat (next_of (ldr c) p)" using inv by (auto simp: net_inv_def next_ok_def next_of_def split: option.split)
  with z show m: "unat (map_get (matchIndex (cm (ldr c))) p) = length (cmLog (cm (ldr c))) - 1"
    by (auto simp: missing_def split: if_splits)
  have fl: "follows t (ldr c) (fol c p)" and "unat (map_get (matchIndex (cm (ldr c))) p) < length (cmLog (cm (fol c p)))"
    using inv p by (auto simp: net_inv_def commit_ok_def)
  with m have "length (cmLog (cm (fol c p))) = length (cmLog (cm (ldr c)))" by (simp add: follows_def)
  with follows_commands[OF fl] show "map Command (cmLog (cm (fol c p))) = map Command (cmLog (cm (ldr c)))" by simp
qed


section \<open>Properties\<close>

text \<open>C5. Replication is safe under a stable leader.  Whatever the network does (delays, reorderings, losses and
  duplicates of requests and answers), and whatever masters with new ids register and
  storage nodes report in between, every peer's commands are
  a prefix of the leader's, and the commit index points into the log.  In each further step the leader's log, its list of peers, the logs of
  the peers and the commit index only grow, and when the commit index grows, every entry up to it is held, with the same command, by a majority of
  the cluster as it is at that moment.  No heartbeat and no answer panics or hangs; a peer answers every request, unless an \<open>AddNode\<close> entry has
  stopped it for ever or is among the entries sent to it.\<close>
theorem replicated_logs_agree:
  assumes "stable_start t c0" "(net_step t)\<^sup>*\<^sup>* c0 c"
  shows "(\<forall>p \<in> set (peerIds (cm (ldr c))). \<exists>n. map Command (cmLog (cm (fol c p))) = take n (map Command (cmLog (cm (ldr c))))) \<and>
    unat (commitIndex (cm (ldr c))) < length (cmLog (cm (ldr c))) \<and>
    (\<forall>d. net_step t c d \<longrightarrow>
       (\<exists>es. cmLog (cm (ldr d)) = cmLog (cm (ldr c)) @ es) \<and> (\<exists>ps. peerIds (cm (ldr d)) = peerIds (cm (ldr c)) @ ps) \<and>
       (\<forall>p. length (cmLog (cm (fol c p))) \<le> length (cmLog (cm (fol d p)))) \<and> commitIndex (cm (ldr c)) \<le> commitIndex (cm (ldr d)) \<and>
       (commitIndex (cm (ldr c)) < commitIndex (cm (ldr d)) \<longrightarrow>
         (\<forall>i \<le> unat (commitIndex (cm (ldr d))). majority (cm (ldr d)) (has_entry d i)))) \<and>
    (\<forall>p \<in> set (peerIds (cm (ldr c))). \<exists>c' x. net_tick t p c = Ret c' x) \<and>
    (\<forall>p ni n resp. (p, ni, n, resp) \<in> resps c \<longrightarrow> (\<exists>c' x. net_answer now t p ni n resp c = Ret c' x)) \<and>
    (\<forall>p req ni. (p, req, ni) \<in> reqs c \<longrightarrow> (\<exists>c' x. net_deliver dial now p req ni c = Ret c' x) \<or>
       (\<exists>c'. net_deliver dial now p req ni c = Block c') \<and>
       (cmu (cm (fol c p)) \<or> (\<exists>e \<in> set (aeEntries req). eType e = 3)))"
proof -
  have inv: "net_inv t c" by (rule reachable_net_inv[OF assms(2,1)])
  then have "\<exists>n. map Command (cmLog (cm (fol c p))) = take n (map Command (cmLog (cm (ldr c))))"
    if "p \<in> set (peerIds (cm (ldr c)))" for p
    using that follows_commands unfolding net_inv_def by blast
  moreover have "unat (commitIndex (cm (ldr c))) < length (cmLog (cm (ldr c)))"
    using inv by (simp add: net_inv_def commit_ok_def)
  moreover have "grows c d" if "net_step t c d" for d using net_step_inv[OF that inv] by simp
  moreover have "\<exists>c' x. net_tick t p c = Ret c' x" if "p \<in> set (peerIds (cm (ldr c)))" for p
    using net_tick_ok[OF inv that] by metis
  moreover have "(\<exists>c' x. net_deliver dial now p req ni c = Ret c' x) \<or>
      (\<exists>c'. net_deliver dial now p req ni c = Block c') \<and> meets_node req (fol c p)" if "(p, req, ni) \<in> reqs c" for p req ni
    by (rule net_deliver_cases[OF inv that, of dial now]) auto
  moreover have "\<exists>c' x. net_answer now t p ni n resp c = Ret c' x" if "(p, ni, n, resp) \<in> resps c" for p ni n resp
    using net_answer_ok[OF inv that, of now] by metis
  ultimately show ?thesis unfolding grows_def meets_node_def by blast
qed

definition small_net :: net where
  "small_net = \<lparr> ldr = upd_cm (\<lambda>c. c\<lparr> cmState := LEADER, currentTerm := 1 \<rparr>)
       (with_log [\<lparr> Command = join_cmd 3, Term = 1 \<rparr>] (fresh_server 1 [2, 3])),
     fol = (\<lambda>p. fresh_server p [1]), reqs = {}, resps = {}, subs = [] \<rparr>"

lemma small_net_start: "stable_start 1 small_net"
  by (auto simp: stable_start_def small_net_def leads_def log_ok_def follows_def with_log_def zeroed_def join_cmd_def
      fresh_server_def NewConsensusModule_def)

lemma small_net_cm:
  "peerIds (cm (ldr small_net)) = [2, 3]" "cmId (cm (ldr small_net)) = 1"
  "map Command (cmLog (cm (ldr small_net))) = [CNil, join_cmd 3]" "length (cmLog (cm (ldr small_net))) = 2"
  by (simp_all add: small_net_def with_log_def)

lemma small_net_joins: "joins_only (ldr small_net)"
  by (simp add: joins_only_def small_net_def with_log_def is_join_def join_cmd_def)

theorem replicated_logs_agree_witness:
  "let c = final_state (net_tick 1 2 (final_state (net_register (\<lambda>_. True) ''d'' 4 small_net))) in
     (\<exists>n. map Command (cmLog (cm (fol c 4))) = take n (map Command (cmLog (cm (ldr c))))) \<and> (\<exists>c' x. net_tick 1 4 c = Ret c' x)"
proof -
  let ?b = "final_state (net_register (\<lambda>_. True) ''d'' 4 small_net)"
  let ?c = "final_state (net_tick 1 2 ?b)"
  have new: "4 \<notin> cluster (cm (ldr small_net))" "new_master 1 (fol small_net 4)"
    by (simp_all add: cluster_def small_net_def with_log_def new_master_def)
  have b: "net_inv 1 ?b" "peerIds (cm (ldr ?b)) = [2, 3, 4]"
    by (rule net_register_ok[where dial = "\<lambda>_. True" and masterAddr = "''d''", OF stable_start_inv[OF small_net_start] new]; simp add: small_net_cm)+
  have "(net_step 1)\<^sup>*\<^sup>* small_net ?b" by (rule r_into_rtranclp, rule net_step.register[OF new])
  moreover have "net_step 1 ?b ?c" by (rule net_step.tick) (simp add: b(2))
  ultimately have "(net_step 1)\<^sup>*\<^sup>* small_net ?c" by (rule rtranclp.rtrancl_into_rtrancl)
  moreover have "peerIds (cm (ldr ?c)) = [2, 3, 4]"
    by (rule net_tick_ok[OF b(1), of 2]) (simp_all add: b(2))
  ultimately show ?thesis using replicated_logs_agree[OF small_net_start, of ?c] by (simp add: Let_def)
qed

text \<open>Enough delivered rounds bring a majority up to date.\<close>

lemma rounds_converge:
  assumes inv: "net_inv t c" and "\<forall>(now, p, fate) \<in> set xs. p \<in> set (peerIds (cm (ldr c)))"
    and "Q \<subseteq> set (peerIds (cm (ldr c)))" "majority (cm (ldr c)) (insert (cmId (cm (ldr c))) Q)" "peerIds (cm (ldr c)) \<noteq> []"
    and "\<forall>p \<in> Q. length (cmLog (cm (ldr c))) \<le> delivered p xs" and jo: "joins_only (ldr c)"
  shows "\<exists>c'. run_rounds dial t xs c = Ret c' () \<and> cmLog (cm (ldr c')) = cmLog (cm (ldr c)) \<and>
    (\<forall>p \<in> Q. map Command (cmLog (cm (fol c' p))) = map Command (cmLog (cm (ldr c)))) \<and>
    unat (commitIndex (cm (ldr c'))) = length (cmLog (cm (ldr c))) - 1"
proof -
  obtain c' where c': "run_rounds dial t xs c = Ret c' ()" "net_inv t c'" "cmLog (cm (ldr c')) = cmLog (cm (ldr c))"
    "peerIds (cm (ldr c')) = peerIds (cm (ldr c))" "cmId (cm (ldr c')) = cmId (cm (ldr c))"
    "\<forall>q. missing (ldr c') q \<le> missing (ldr c) q - delivered q xs"
    by (rule run_rounds_ok[OF inv assms(2) jo])
  let ?k = "cm (ldr c')"
  have "missing (ldr c) p \<le> length (cmLog (cm (ldr c)))" for p
    using inv leads_log[of t "ldr c"] by (auto simp: net_inv_def next_ok_def missing_def next_of_def Suc_le_eq split: option.split)
  then have z: "missing (ldr c') p = 0" if "p \<in> Q" for p
    using c'(6)[rule_format, of p] assms(6) that by (metis diff_is_0_eq le_trans le_zero_eq)
  have d: "distinct (peerIds ?k)" "cmId ?k \<notin> set (peerIds ?k)" "cmLog ?k \<noteq> []"
    using c'(2) by (simp_all add: net_inv_def leads_def log_ok_def)
  have "insert (cmId ?k) Q \<subseteq> holders ?k (length (cmLog ?k) - 1)"
    using missing_nothing(2)[OF c'(2) _ z] assms(3) c'(4) by (auto simp: holders_def)
  moreover have "majority ?k (insert (cmId ?k) Q)" using assms(4) majority_cong[OF c'(4,5)] c'(5) by metis
  moreover have "holders ?k (length (cmLog ?k) - 1) \<subseteq> cluster ?k" by (auto simp: holders_def cluster_def)
  ultimately have "quorum_at ?k (length (cmLog ?k) - 1)"
    using majority_mono majority_holders[OF d(1,2)] by metis
  moreover have "length (cmLog ?k) - 1 < length (cmLog ?k)" using d(3) by simp
  ultimately have "unat (commitIndex ?k) = length (cmLog ?k) - 1"
    using c'(2,4) assms(5) unfolding net_inv_def commit_ok_def by (metis One_nat_def Suc_pred d(3) le_antisym length_greater_0_conv less_Suc_eq_le)
  then show ?thesis using c' missing_nothing(1)[OF c'(2) _ z] assms(3) by (intro exI[of _ c']) auto
qed

text \<open>C8. Replication makes progress while the log holds registrations of masters only (an \<open>AddNode\<close> entry stops the followers).
  From every state a stable leader can reach with such a log, through any registrations of masters and any behaviour of the
  network, a schedule of heartbeat rounds in which each peer of some majority of the cluster has as many delivered rounds as the leader's log
  has entries (in any order, with any losses and
  any rounds of other peers in between) runs to its end without a panic or a hang; then these peers have all commands of
  the leader, and everything is committed.\<close>
theorem replication_converges:
  assumes "stable_start t c0" "(net_step t)\<^sup>*\<^sup>* c0 c" "\<forall>(now, p, fate) \<in> set xs. p \<in> set (peerIds (cm (ldr c)))"
    and "Q \<subseteq> set (peerIds (cm (ldr c)))" "majority (cm (ldr c)) (insert (cmId (cm (ldr c))) Q)" "peerIds (cm (ldr c)) \<noteq> []"
    and "\<forall>p \<in> Q. length (cmLog (cm (ldr c))) \<le> delivered p xs" and jo: "joins_only (ldr c)"
  shows "\<exists>c'. run_rounds dial t xs c = Ret c' () \<and> cmLog (cm (ldr c')) = cmLog (cm (ldr c)) \<and>
    (\<forall>p \<in> Q. map Command (cmLog (cm (fol c' p))) = map Command (cmLog (cm (ldr c)))) \<and>
    unat (commitIndex (cm (ldr c'))) = length (cmLog (cm (ldr c))) - 1"
  by (rule rounds_converge[OF reachable_net_inv[OF assms(2,1)] assms(3-8)])

theorem replication_converges_witness:
  "\<exists>c'. run_rounds (\<lambda>_. True) 1 [(0, 2, AnswerLost), (1, 2, Delivered), (2, 3, RequestLost), (3, 2, Delivered)] small_net = Ret c' () \<and>
     map Command (cmLog (cm (fol c' 2))) = [CNil, join_cmd 3] \<and> unat (commitIndex (cm (ldr c'))) = 1"
  using replication_converges[OF small_net_start rtranclp.rtrancl_refl,
      of "[(0, 2, AnswerLost), (1, 2, Delivered), (2, 3, RequestLost), (3, 2, Delivered)]" "{2}" "\<lambda>_. True"] small_net_joins
  by (auto simp: small_net_cm majority_def cluster_def delivered_def simp del: run_rounds.simps)

end
