(* ===== verification/Cluster.thy ===== *)
theory Cluster
  imports Replication_Props
begin

text \<open>
  The life of a cluster from its first election: the goroutine of a candidate for one peer (\<open>startElection\<close> of \<open>raft/raft.go\<close>) runs from
  its request over the handler of the peer to the reply; further masters register with the elected leader (\<open>RegisterMaster\<close>), which
  replicates the registrations.  \<open>ldr\<close> of the network is the candidate.
\<close>

section \<open>Elections\<close>

definition net_vote :: "int \<Rightarrow> nat \<Rightarrow> i32 \<Rightarrow> net \<Rightarrow> (net, unit) outcome" where
  "net_vote now el p c = (case vote_request p el (ldr c) of
       Panic l \<Rightarrow> Panic (c\<lparr> ldr := l \<rparr>)
     | Block l \<Rightarrow> Block (c\<lparr> ldr := l \<rparr>)
     | Ret l req \<Rightarrow> (case Server_RequestVote now req (fol c p) of
           Panic f \<Rightarrow> Panic (c\<lparr> ldr := l, fol := (fol c)(p := f) \<rparr>)
         | Block f \<Rightarrow> Block (c\<lparr> ldr := l, fol := (fol c)(p := f) \<rparr>)
         | Ret f reply \<Rightarrow> (case vote_reply now p el reply l of
               Panic l \<Rightarrow> Panic (c\<lparr> ldr := l, fol := (fol c)(p := f) \<rparr>)
             | Block l \<Rightarrow> Block (c\<lparr> ldr := l, fol := (fol c)(p := f) \<rparr>)
             | Ret l u \<Rightarrow> Ret (c\<lparr> ldr := l, fol := (fol c)(p := f) \<rparr>) ())))"

fun net_votes :: "int \<Rightarrow> nat \<Rightarrow> i32 list \<Rightarrow> net \<Rightarrow> (net, unit) outcome" where
  "net_votes now el [] c = Ret c ()"
| "net_votes now el (p # ps) c = obind (net_vote now el p c) (\<lambda>c1 _. net_votes now el ps c1)"

text \<open>An election in which exactly the peers \<open>ps\<close> are reached, in this order.\<close>

definition net_election :: "int \<Rightarrow> i32 list \<Rightarrow> net \<Rightarrow> (net, unit) outcome" where
  "net_election now ps c = (case startElection now (ldr c) of
       Panic l \<Rightarrow> Panic (c\<lparr> ldr := l \<rparr>)
     | Block l \<Rightarrow> Block (c\<lparr> ldr := l \<rparr>)
     | Ret l tasks \<Rightarrow> net_votes now (length (elections (cm (ldr c)))) ps (c\<lparr> ldr := l \<rparr>))"

text \<open>Masters register one after the other: \<open>RegisterMaster\<close> with both of its critical sections.\<close>

abbreviation join_of :: "string \<times> i32 \<Rightarrow> command" where
  "join_of x \<equiv> CAddServer \<lparr> ServerAddr = fst x, ServerId = snd x \<rparr>"

fun net_registers :: "(string \<Rightarrow> bool) \<Rightarrow> (string \<times> i32) list \<Rightarrow> net \<Rightarrow> (net, unit) outcome" where
  "net_registers dial [] c = Ret c ()"
| "net_registers dial (x # xs) c = obind (net_register dial (fst x) (snd x) c) (\<lambda>c1 _.
     obind (net_submit (join_of x) c1) (\<lambda>c2 _. net_registers dial xs c2))"

lemma net_registers_RegisterMaster:
  assumes "RegisterMaster_locked dial a i (ldr c) = Ret l1 (resp, err, Some (join_of (a, i)))" "Submit (join_of (a, i)) l1 = Ret l2 r"
  shows "RegisterMaster dial a i (ldr c) = Ret l2 (resp, err)"
    "net_registers dial ((a, i) # xs) c = net_registers dial xs (c\<lparr> ldr := l2, subs := remove1 (join_of (a, i)) (subs c @ [join_of (a, i)]) \<rparr>)"
  using assms by (simp_all add: RegisterMaster_def net_register_def net_submit_def)

section \<open>New masters\<close>

abbreviation "sentinel \<equiv> \<lparr> Command = CNil, Term = 0 \<rparr>"

text \<open>A master that has not seen an election: as a voter, and as the candidate that knows its peers.\<close>

definition new_voter :: "server \<Rightarrow> bool" where
  "new_voter f \<longleftrightarrow> \<not> cmu (cm f) \<and> cmLog (cm f) = [sentinel] \<and> currentTerm (cm f) = 0 \<and> votedFor (cm f) = -1"

definition new_peer :: "server \<Rightarrow> bool" where
  "new_peer l \<longleftrightarrow> \<not> cmu (cm l) \<and> cmLog (cm l) = [sentinel] \<and> nextIndex (cm l) = Map.empty \<and> matchIndex (cm l) = Map.empty \<and>
     commitIndex (cm l) = 0 \<and> distinct (peerIds (cm l)) \<and> cmId (cm l) \<notin> set (peerIds (cm l)) \<and>
     (\<forall>p \<in> set (peerIds (cm l)). \<exists>a. peers l p = Some (Some a))"

definition new_cluster :: "net \<Rightarrow> bool" where
  "new_cluster c \<longleftrightarrow> new_peer (ldr c) \<and> currentTerm (cm (ldr c)) = 0 \<and> peerIds (cm (ldr c)) \<noteq> [] \<and>
     (\<forall>p \<in> set (peerIds (cm (ldr c))). new_voter (fol c p)) \<and> reqs c = {} \<and> resps c = {} \<and> subs c = []"

text \<open>A candidate that has \<open>v\<close> votes in its election \<open>el\<close>, or already leads; and a server that has voted.\<close>

definition tally :: "nat \<Rightarrow> nat \<Rightarrow> server \<Rightarrow> bool" where
  "tally el v l \<longleftrightarrow> new_peer l \<and> currentTerm (cm l) = 1 \<and> el < length (elections (cm l)) \<and> fst (elections (cm l) ! el) = 1 \<and>
     (cmState (cm l) = LEADER \<or>
      cmState (cm l) = CANDIDATE \<and> snd (elections (cm l) ! el) = v \<and> 2 * v \<le> length (peerIds (cm l)) + 1)"

definition has_voted :: "server \<Rightarrow> bool" where
  "has_voted f \<longleftrightarrow> \<not> cmu (cm f) \<and> cmLog (cm f) = [sentinel] \<and> currentTerm (cm f) = 1"

lemma new_voter_grants:
  assumes "new_voter f" "rvTerm req = 1" "rvLastLogIndex req = 0" "rvLastLogTerm req = 0"
  shows "\<exists>f'. Server_RequestVote now req f = Ret f' \<lparr> vrTerm = 1, vrGranted = True \<rparr> \<and> has_voted f'"
proof -
  have "up_to_date req (cm f)" using assms by (simp add: up_to_date_def lastLogIndexAndTerm_def new_voter_def)
  then obtain f' reply where f': "RequestVote now req f = Ret f' reply" "vrTerm reply = 1" "vrGranted reply" "has_voted f'"
    using RequestVote_free[of f now req] assms(1,2) by (auto simp: new_voter_def has_voted_def)
  then have "reply = \<lparr> vrTerm = 1, vrGranted = True \<rparr>" by (cases reply) simp
  with f' show ?thesis by (simp add: Server_RequestVote_def)
qed

lemma granted_counts:
  assumes "tally el v l"
  shows "\<exists>l'. vote_reply now p el \<lparr> vrTerm = 1, vrGranted = True \<rparr> l = Ret l' () \<and> tally el (Suc v) l' \<and>
    peerIds (cm l') = peerIds (cm l) \<and> cmId (cm l') = cmId (cm l)"
  using assms by (auto simp: vote_reply_def tally_def new_peer_def startLeader_def Let_def)

lemma net_vote_ok:
  assumes "tally el v (ldr c)" "new_voter (fol c p)" "p \<in> set (peerIds (cm (ldr c)))"
  shows "\<exists>l f. net_vote now el p c = Ret (c\<lparr> ldr := l, fol := (fol c)(p := f) \<rparr>) () \<and> tally el (Suc v) l \<and> has_voted f \<and>
    peerIds (cm l) = peerIds (cm (ldr c)) \<and> cmId (cm l) = cmId (cm (ldr c))"
proof -
  let ?req = "\<lparr> rvTerm = 1, rvCandidateId = cmId (cm (ldr c)), rvLastLogIndex = 0, rvLastLogTerm = 0 \<rparr>"
  have "vote_request p el (ldr c) = Ret (ldr c) ?req"
    using assms(1,3) by (fastforce simp: vote_request_def tally_def new_peer_def lastLogIndexAndTerm_def)
  moreover obtain f where "Server_RequestVote now ?req (fol c p) = Ret f \<lparr> vrTerm = 1, vrGranted = True \<rparr>" "has_voted f"
    using new_voter_grants[OF assms(2), of ?req now] by auto
  moreover obtain l where "vote_reply now p el \<lparr> vrTerm = 1, vrGranted = True \<rparr> (ldr c) = Ret l ()" "tally el (Suc v) l"
    "peerIds (cm l) = peerIds (cm (ldr c))" "cmId (cm l) = cmId (cm (ldr c))"
    using granted_counts[OF assms(1), of now p] by blast
  ultimately show ?thesis by (intro exI[of _ l] exI[of _ f]) (simp add: net_vote_def)
qed

lemma net_votes_ok:
  assumes "tally el v (ldr c)" "distinct ps" "set ps \<subseteq> set (peerIds (cm (ldr c)))" "\<forall>p \<in> set ps. new_voter (fol c p)"
  shows "\<exists>c'. net_votes now el ps c = Ret c' () \<and> tally el (v + length ps) (ldr c') \<and>
    (\<forall>p. if p \<in> set ps then has_voted (fol c' p) else fol c' p = fol c p) \<and>
    peerIds (cm (ldr c')) = peerIds (cm (ldr c)) \<and> cmId (cm (ldr c')) = cmId (cm (ldr c)) \<and> reqs c' = reqs c \<and> resps c' = resps c \<and> subs c' = subs c"
  using assms
proof (induction ps arbitrary: v c)
  case (Cons p ps)
  obtain l f where l: "net_vote now el p c = Ret (c\<lparr> ldr := l, fol := (fol c)(p := f) \<rparr>) ()" "tally el (Suc v) l" "has_voted f"
    "peerIds (cm l) = peerIds (cm (ldr c))" "cmId (cm l) = cmId (cm (ldr c))"
    using net_vote_ok[of el v c p now] Cons.prems by auto
  let ?c = "c\<lparr> ldr := l, fol := (fol c)(p := f) \<rparr>"
  have "\<exists>c'. net_votes now el ps ?c = Ret c' () \<and> tally el (Suc v + length ps) (ldr c') \<and>
    (\<forall>q. if q \<in> set ps then has_voted (fol c' q) else fol c' q = fol ?c q) \<and>
    peerIds (cm (ldr c')) = peerIds (cm (ldr ?c)) \<and> cmId (cm (ldr c')) = cmId (cm (ldr ?c)) \<and> reqs c' = reqs ?c \<and> resps c' = resps ?c \<and> subs c' = subs ?c"
    using Cons.prems l by (intro Cons.IH) auto
  then show ?case using l Cons.prems(2) by (auto split: if_splits)
qed (simp)

lemma new_cluster_elects:
  assumes "new_cluster c" "distinct ps" "set ps \<subseteq> set (peerIds (cm (ldr c)))" "length (peerIds (cm (ldr c))) < 2 * length ps + 1"
  obtains c1 where "net_election now ps c = Ret c1 ()" "stable_start 1 c1" "cmLog (cm (ldr c1)) = [sentinel]"
    "peerIds (cm (ldr c1)) = peerIds (cm (ldr c))" "cmId (cm (ldr c1)) = cmId (cm (ldr c))" "\<forall>p. p \<notin> set ps \<longrightarrow> fol c1 p = fol c p"
proof -
  let ?el = "length (elections (cm (ldr c)))"
  have nc: "new_peer (ldr c)" "currentTerm (cm (ldr c)) = 0" "peerIds (cm (ldr c)) \<noteq> []" "reqs c = {}" "resps c = {} \<and> subs c = []"
    "\<forall>p \<in> set (peerIds (cm (ldr c))). new_voter (fol c p)"
    using assms(1) by (simp_all add: new_cluster_def)
  obtain l tasks where l: "startElection now (ldr c) = Ret l tasks" "tally ?el 1 l"
    "peerIds (cm l) = peerIds (cm (ldr c))" "cmId (cm l) = cmId (cm (ldr c))"
    using nc(1-3) by (cases "peerIds (cm (ldr c))") (auto simp: startElection_def tally_def new_peer_def Let_def)
  obtain c1 where c1: "net_votes now ?el ps (c\<lparr> ldr := l \<rparr>) = Ret c1 ()" "tally ?el (1 + length ps) (ldr c1)"
    "\<forall>p. if p \<in> set ps then has_voted (fol c1 p) else fol c1 p = fol c p"
    "peerIds (cm (ldr c1)) = peerIds (cm l)" "cmId (cm (ldr c1)) = cmId (cm l)" "reqs c1 = reqs c" "resps c1 = resps c \<and> subs c1 = subs c"
    using net_votes_ok[of ?el 1 "c\<lparr> ldr := l \<rparr>" ps now] l assms(2,3) subsetD[OF assms(3)] nc(6) by auto
  have ld: "new_peer (ldr c1)" "currentTerm (cm (ldr c1)) = 1" "cmState (cm (ldr c1)) = LEADER"
    using c1(2,4) l(3) assms(4) by (auto simp: tally_def)
  have "follows 1 (ldr c1) (fol c1 p)" if "p \<in> set (peerIds (cm (ldr c1)))" for p
  proof -
    have "has_voted (fol c1 p) \<or> new_voter (fol c1 p)" using c1(3,4) l(3) nc(6) that by metis
    then show ?thesis using ld(1) by (auto simp: follows_def has_voted_def new_voter_def new_peer_def zeroed_def)
  qed
  then have "stable_start 1 c1" using ld nc(4,5) c1(6,7) by (auto simp: stable_start_def leads_def log_ok_def new_peer_def)
  then show thesis using that[of c1] c1 l ld(1) by (simp add: net_election_def new_peer_def)
qed

lemma net_registers_ok:
  assumes "net_inv t c" "subs c = []" "length (cmLog (cm (ldr c))) + length as < 2 ^ 63" "distinct (map snd as)" "joins_only (ldr c)"
    and "\<forall>(a, i) \<in> set as. dial a \<and> i \<notin> cluster (cm (ldr c)) \<and> new_master t (fol c i)"
  shows "\<exists>c'. net_registers dial as c = Ret c' () \<and> net_inv t c' \<and> joins_only (ldr c') \<and>
    map Command (cmLog (cm (ldr c'))) = map Command (cmLog (cm (ldr c))) @ map join_of as \<and>
    peerIds (cm (ldr c')) = peerIds (cm (ldr c)) @ map snd as \<and> cmId (cm (ldr c')) = cmId (cm (ldr c))"
  using assms
proof (induction as arbitrary: c)
  case (Cons x as)
  obtain a i where x: "x = (a, i)" by (cases x)
  have new: "i \<notin> cluster (cm (ldr c))" "new_master t (fol c i)" and dl: "dial a" using Cons.prems(6) x by auto
  obtain l where l: "net_register dial a i c = Ret (c\<lparr> ldr := l, subs := [join_of x] \<rparr>) (\<lparr> rrSuccess = True, rrConnectId = cmId (cm (ldr c)) \<rparr>, False)"
    "net_inv t (c\<lparr> ldr := l, subs := [join_of x] \<rparr>)" "cm l = (cm (ldr c))\<lparr> peerIds := peerIds (cm (ldr c)) @ [i] \<rparr>"
    by (rule net_register_ok[where dial = dial and masterAddr = a, OF Cons.prems(1) new dl]) (use x Cons.prems(2) in simp_all)
  let ?c1 = "c\<lparr> ldr := l, subs := [join_of x] \<rparr>"
  obtain l' where l': "net_submit (join_of x) ?c1 = Ret (?c1\<lparr> ldr := l', subs := [] \<rparr>) (True, cmId (cm l))" "net_inv t (?c1\<lparr> ldr := l', subs := [] \<rparr>)"
    "cm l' = (cm l)\<lparr> cmLog := cmLog (cm l) @ [\<lparr> Command = join_of x, Term = t \<rparr>] \<rparr>"
    by (rule net_submit_ok[OF l(2), of "join_of x"]) (use l(3) Cons.prems(3) in simp_all)
  let ?c2 = "?c1\<lparr> ldr := l', subs := [] \<rparr>"
  have ne: "cmLog (cm (ldr c)) \<noteq> []" using Cons.prems(1) leads_log[of t "ldr c"] by (simp add: net_inv_def)
  have c2: "cmLog (cm (ldr ?c2)) = cmLog (cm (ldr c)) @ [\<lparr> Command = join_of x, Term = t \<rparr>]"
    "peerIds (cm (ldr ?c2)) = peerIds (cm (ldr c)) @ [i]" "cmId (cm (ldr ?c2)) = cmId (cm (ldr c))" "fol ?c2 = fol c"
    using l(3) l'(3) by simp_all
  have "\<exists>c'. net_registers dial as ?c2 = Ret c' () \<and> net_inv t c' \<and> joins_only (ldr c') \<and>
    map Command (cmLog (cm (ldr c'))) = map Command (cmLog (cm (ldr ?c2))) @ map join_of as \<and>
    peerIds (cm (ldr c')) = peerIds (cm (ldr ?c2)) @ map snd as \<and> cmId (cm (ldr c')) = cmId (cm (ldr ?c2))"
  proof (rule Cons.IH[OF l'(2)])
    show "joins_only (ldr ?c2)" using Cons.prems(5) ne unfolding joins_only_def c2(1) by (cases "cmLog (cm (ldr c))") (auto simp: is_join_def)
    have "dial b \<and> j \<notin> cluster (cm (ldr ?c2)) \<and> new_master t (fol ?c2 j)" if "(b, j) \<in> set as" for b j
    proof -
      have "j \<noteq> i" using Cons.prems(4) that x by force
      moreover have "dial b" "j \<notin> cluster (cm (ldr c))" "new_master t (fol c j)" using Cons.prems(6) that by auto
      ultimately show ?thesis unfolding cluster_def c2 by simp
    qed
    then show "\<forall>(a, i) \<in> set as. dial a \<and> i \<notin> cluster (cm (ldr ?c2)) \<and> new_master t (fol ?c2 i)" by blast
  qed (use Cons.prems(3,4) l(3) l'(3) in simp_all)
  then show ?case using l(1) l'(1) unfolding c2 by (simp add: x)
qed simp

text \<open>C3. A new cluster comes to work.  When a candidate of a cluster of new masters reaches enough peers for a
  majority, it is elected.  Further new masters (with new ids, reachable) that then register with it one after the other become its peers, and their
  registrations enter its log.  With as many delivered heartbeats to the
  peers of some majority of the enlarged cluster as the log has entries (whatever is lost besides) these peers hold exactly the registrations in their
  order, and all of them are committed.  None of these steps panics or hangs.  No storage node has registered yet: that would put an \<open>AddNode\<close>
  entry into the log.\<close>
theorem new_cluster_commits:
  assumes "new_cluster c" "distinct ps" "set ps \<subseteq> set (peerIds (cm (ldr c)))" "length (peerIds (cm (ldr c))) < 2 * length ps + 1"
    and "length as + 1 < 2 ^ 63" "distinct (map snd as)"
    and "\<forall>(a, i) \<in> set as. dial a \<and> i \<notin> cluster (cm (ldr c)) \<and> new_voter (fol c i)"
    and "\<forall>(now, p, fate) \<in> set xs. p \<in> set (peerIds (cm (ldr c)) @ map snd as)"
    and "Q \<subseteq> set (peerIds (cm (ldr c)) @ map snd as)"
    and "length (peerIds (cm (ldr c)) @ map snd as) + 1 < 2 * card (insert (cmId (cm (ldr c))) Q)"
    and "\<forall>p \<in> Q. Suc (length as) \<le> delivered p xs"
  shows "\<exists>c1 c2 c3. net_election now ps c = Ret c1 () \<and> net_registers dial as c1 = Ret c2 () \<and> run_rounds dial 1 xs c2 = Ret c3 () \<and>
    peerIds (cm (ldr c2)) = peerIds (cm (ldr c)) @ map snd as \<and>
    map Command (cmLog (cm (ldr c3))) = CNil # map join_of as \<and>
    (\<forall>p \<in> Q. map Command (cmLog (cm (fol c3 p))) = CNil # map join_of as) \<and>
    unat (commitIndex (cm (ldr c3))) = length as"
proof -
  obtain c1 where c1: "net_election now ps c = Ret c1 ()" "stable_start 1 c1" "cmLog (cm (ldr c1)) = [sentinel]"
    "peerIds (cm (ldr c1)) = peerIds (cm (ldr c))" "cmId (cm (ldr c1)) = cmId (cm (ldr c))" "\<forall>p. p \<notin> set ps \<longrightarrow> fol c1 p = fol c p"
    by (rule new_cluster_elects[OF assms(1-4)])
  have "\<forall>(a, i) \<in> set as. dial a \<and> i \<notin> cluster (cm (ldr c1)) \<and> new_master 1 (fol c1 i)"
    using assms(3,7) c1(4-6) by (fastforce simp: cluster_def new_voter_def new_master_def)
  then obtain c2 where c2: "net_registers dial as c1 = Ret c2 ()" "net_inv 1 c2" "joins_only (ldr c2)"
    "map Command (cmLog (cm (ldr c2))) = CNil # map join_of as"
    "peerIds (cm (ldr c2)) = peerIds (cm (ldr c)) @ map snd as" "cmId (cm (ldr c2)) = cmId (cm (ldr c))"
    using net_registers_ok[OF stable_start_inv[OF c1(2)], of as dial] c1(2-5) assms(5,6)
    by (auto simp: stable_start_def joins_only_def)
  have len: "length (cmLog (cm (ldr c2))) = Suc (length as)" using arg_cong[OF c2(4), of length] by simp
  have ne: "peerIds (cm (ldr c2)) \<noteq> []" using assms(1) c2(5) by (simp add: new_cluster_def)
  have mj: "majority (cm (ldr c2)) (insert (cmId (cm (ldr c2))) Q)"
    using assms(9,10) by (auto simp: majority_def cluster_def c2(5,6))
  have "\<exists>c3. run_rounds dial 1 xs c2 = Ret c3 () \<and> cmLog (cm (ldr c3)) = cmLog (cm (ldr c2)) \<and>
    (\<forall>p \<in> Q. map Command (cmLog (cm (fol c3 p))) = map Command (cmLog (cm (ldr c2)))) \<and>
    unat (commitIndex (cm (ldr c3))) = length (cmLog (cm (ldr c2))) - 1"
    by (rule rounds_converge[OF c2(2) _ _ mj ne _ c2(3)]) (use assms(8,9,11) in \<open>simp_all only: c2(5) len\<close>)
  then show ?thesis using c1(1) c2(1,4,5) len by auto
qed

theorem new_cluster_commits_witness:
  "\<exists>c1 c2 c3. net_election 0 [3] \<lparr> ldr = fresh_server 1 [2, 3], fol = (\<lambda>p. fresh_server p [1]), reqs = {}, resps = {}, subs = [] \<rparr> = Ret c1 () \<and>
     net_registers (\<lambda>_. True) [(''a'', 4)] c1 = Ret c2 () \<and>
     run_rounds (\<lambda>_. True) 1 [(0, 2, Delivered), (1, 3, RequestLost), (2, 4, Delivered), (3, 2, Delivered), (4, 4, Delivered)] c2 = Ret c3 () \<and>
     peerIds (cm (ldr c2)) = [2, 3, 4] \<and>
     map Command (cmLog (cm (ldr c3))) = [CNil, CAddServer \<lparr> ServerAddr = ''a'', ServerId = 4 \<rparr>] \<and>
     map Command (cmLog (cm (fol c3 2))) = [CNil, CAddServer \<lparr> ServerAddr = ''a'', ServerId = 4 \<rparr>] \<and>
     map Command (cmLog (cm (fol c3 4))) = [CNil, CAddServer \<lparr> ServerAddr = ''a'', ServerId = 4 \<rparr>] \<and> unat (commitIndex (cm (ldr c3))) = 1"
proof -
  let ?c = "\<lparr> ldr = fresh_server 1 [2, 3], fol = (\<lambda>p. fresh_server p [1]), reqs = {}, resps = {}, subs = [] \<rparr>"
  let ?xs = "[(0, 2, Delivered), (1, 3, RequestLost), (2, 4, Delivered), (3, 2, Delivered), (4, 4, Delivered)]"
  have c: "new_cluster ?c" "peerIds (cm (ldr ?c)) = [2, 3]" "cmId (cm (ldr ?c)) = 1"
    by (auto simp: new_cluster_def new_peer_def new_voter_def fresh_server_def NewConsensusModule_def)
  have d: "delivered 2 ?xs = 2" "delivered 4 ?xs = 2" by (simp_all add: delivered_def)
  show ?thesis
    using new_cluster_commits[OF c(1), of "[3]" "[(''a'', 4)]" "\<lambda>_. True" ?xs "{2, 4}" 0] c(2,3) d
    by (simp add: cluster_def new_voter_def del: run_rounds.simps net_registers.simps)
qed

end
