(* ===== verification/Log_Types.thy ===== *)
theory Log_Types
  imports Server_Inv Raft_Props
begin

text \<open>
  The log holds values of the Go type \<open>interface{}\<close>, and the converters of \<open>raft/types.go\<close> are looked up by their dynamic type; a type
  without a converter is a nil function and a panic.  This theory shows that the commands of a log conform to the tables: a typing
  invariant of the states a master reaches when commands come from the program itself.
\<close>

definition typed_log :: "log_entry list \<Rightarrow> bool" where
  "typed_log lg \<longleftrightarrow> (\<forall>v \<in> set (tl lg). registered (Command v))"

lemma typed_log_append: "typed_log lg \<Longrightarrow> \<forall>v \<in> set vs. registered (Command v) \<Longrightarrow> typed_log (lg @ vs)"
  by (cases lg; cases vs) (auto simp: typed_log_def)

lemma typed_log_take: "typed_log lg \<Longrightarrow> typed_log (take n lg)"
  by (auto simp: typed_log_def tl_take dest: in_set_takeD)

section \<open>Entries of other masters\<close>

text \<open>What \<open>Deserialize\<close> returns has a type that is registered.\<close>

lemma Deserialize_registered: "Deserialize e = Some c \<Longrightarrow> registered c"
  by (auto simp: Deserialize_def decoder_of EntryToAddServerStruct_def EntryToAddNodeStruct_def Let_def split: if_splits option.splits prod.splits)

lemma Execute_typed:
  "cmLog (cm (final_state (Execute dial e s))) = cmLog (cm s)"
  "Execute dial e s = Ret t c \<Longrightarrow> registered c"
proof -
  have "cmLog (cm (final_state (AddServerExecutor dial c s))) = cmLog (cm s)" for c by (cases c) (simp_all add: Let_def)
  moreover have "cmLog (cm (final_state (AddNodeExecutor c s))) = cmLog (cm s)" for c
    by (cases c) (simp_all add: with_cm_lock_def add_node_obj_def)
  moreover have "final_state (obind r (\<lambda>s1 _. Ret s1 c)) = final_state r" for r :: "(server, unit) outcome" and c :: command
    by (cases r) simp_all
  ultimately show "cmLog (cm (final_state (Execute dial e s))) = cmLog (cm s)"
    by (auto simp: Execute_def executor_of split: option.split)
  show "Execute dial e s = Ret t c \<Longrightarrow> registered c"
    by (auto simp: Execute_def obind_Ret_iff split: option.splits intro: Deserialize_registered)
qed

lemma apply_entries_typed:
  "cmLog (cm (final_state (apply_entries dial es s))) = cmLog (cm s)"
  "apply_entries dial es s = Ret t vs \<Longrightarrow> v \<in> set vs \<Longrightarrow> registered (Command v)"
proof (induction es arbitrary: s vs)
  case (Cons e es)
  {
    case 1
    let ?s = "s\<lparr> logFile := logFile s @ [e] \<rparr>"
    show ?case
    proof (cases "Execute dial e ?s")
      case (Ret s1 og)
      then have "cmLog (cm s1) = cmLog (cm s)" using Execute_typed(1)[of dial e ?s] by simp
      with Cons.IH(1)[of s1] show ?thesis by (cases "apply_entries dial es s1") (simp_all add: Ret)
    qed (use Execute_typed(1)[of dial e ?s] in simp_all)
  next
    case 2
    then show ?case using Cons.IH(2) Execute_typed(2)[of dial e "s\<lparr> logFile := logFile s @ [e] \<rparr>"]
      by (fastforce simp: obind_Ret_iff)
  }
qed simp_all

lemma append_new_typed:
  assumes "typed_log (cmLog (cm s))"
  shows "typed_log (cmLog (cm (final_state (append_new dial req s))))"
proof -
  obtain i j where m: "match_entries (cmLog (cm s)) (aeEntries req) (unat (aePrevLogIndex req + 1)) 0 = (i, j)" by force
  let ?r = "apply_entries dial (drop j (aeEntries req)) s"
  have "typed_log (cmLog (cm (final_state ?r)))" using assms by (simp add: apply_entries_typed(1))
  moreover have "typed_log (take i (cmLog (cm s)) @ vs)" if "?r = Ret t vs" for t vs
    using that assms by (intro typed_log_append typed_log_take) (auto dest: apply_entries_typed(2))
  ultimately show ?thesis using assms by (cases ?r) (simp_all add: append_new_def m)
qed

lemma lock_typed:
  assumes "\<And>s. typed_log (cmLog (cm s)) \<Longrightarrow> typed_log (cmLog (cm (final_state (bdy s))))" "typed_log (cmLog (cm s))"
  shows "typed_log (cmLog (cm (final_state (with_cm_lock bdy s))))"
  using assms(1)[of "upd_cm (cmu_update (\<lambda>_. True)) s"] assms(2)
  by (cases "bdy (upd_cm (cmu_update (\<lambda>_. True)) s)") (simp_all add: with_cm_lock_def)

lemma AppendEntries_typed:
  assumes "typed_log (cmLog (cm s))"
  shows "typed_log (cmLog (cm (final_state (AppendEntries dial now req s))))"
  unfolding AppendEntries_def
proof (rule lock_typed[OF _ assms])
  fix s :: server assume "typed_log (cmLog (cm s))"
  then have s1: "typed_log (cmLog (cm (upd_cm (AE_terms now req) s)))" by simp
  from append_new_typed[OF s1, of dial req]
  show "typed_log (cmLog (cm (final_state (let s1 = upd_cm (AE_terms now req) s;
          leader = (if aeTerm req < currentTerm (cm s1) then currentLeader (cm s1) else 0);
          resp = (\<lambda>ok t. \<lparr> arTerm = currentTerm (cm t), arSuccess = ok, arLeaderId = leader \<rparr>) in
       if prev_ok req (cmLog (cm s1)) then
         obind (append_new dial req s1) (\<lambda>s2 _. obind (follow_commit req s2) (\<lambda>s3 _. Ret s3 (resp True s3)))
       else Ret s1 (resp False s1)))))"
    using s1 by (cases "append_new dial req (upd_cm (AE_terms now req) s)") (auto simp: Let_def follow_commit_def)
qed

section \<open>Commands of the program\<close>

lemma Submit_typed:
  assumes "registered cmd" "typed_log (cmLog (cm s))"
  shows "typed_log (cmLog (cm (final_state (Submit cmd s))))"
  unfolding Submit_def
  by (rule lock_typed[OF _ assms(2)]) (use assms(1) in \<open>auto simp: Let_def intro!: typed_log_append split: option.split\<close>)

lemma RegisterMaster_typed:
  assumes "typed_log (cmLog (cm s))"
  shows "typed_log (cmLog (cm (final_state (RegisterMaster dial a i s))))"
proof -
  have f: "final_state (obind r (\<lambda>s2 _. Ret s2 x)) = final_state r"
    for r :: "(server, bool \<times> i32) outcome" and x :: "register_response \<times> bool"
    by (cases r) simp_all
  show ?thesis using assms by (auto simp: RegisterMaster_def RegisterMaster_locked_def Let_def f intro!: Submit_typed)
qed

text \<open>The steps of a master in this program: the two calls of \<open>Submit\<close> are those of \<open>RegisterMaster\<close> and \<open>UpdateNode\<close>.\<close>

inductive app_step :: "server \<Rightarrow> server \<Rightarrow> bool" where
  quiet: "server_step s t \<Longrightarrow> cmLog (cm t) = cmLog (cm s) \<Longrightarrow> app_step s t"
| append: "length (cmLog (cm s)) < 2 ^ 63 \<Longrightarrow> app_step s (final_state (AppendEntries dial now req s))"
| register: "app_step s (final_state (RegisterMaster dial a i s))"
| add_node: "app_step s (final_state (Submit (CAddNode n) s))"

inductive app_reachable :: "server \<Rightarrow> bool" where
  start: "app_reachable (blank_server rnd addr)"
| step: "app_reachable s \<Longrightarrow> app_step s t \<Longrightarrow> app_reachable t"

lemma app_step_server: "app_step s t \<Longrightarrow> server_step s t"
  by (induction rule: app_step.induct) (auto intro: server_step.intros)

lemma app_step_typed: "app_step s t \<Longrightarrow> typed_log (cmLog (cm s)) \<Longrightarrow> typed_log (cmLog (cm t))"
  by (induction rule: app_step.induct) (simp_all add: AppendEntries_typed RegisterMaster_typed Submit_typed)

lemma app_reachable_inv: "app_reachable s \<Longrightarrow> srv_inv s \<and> typed_log (cmLog (cm s))"
proof (induction rule: app_reachable.induct)
  case (start rnd addr)
  show ?case using srv_inv_start by (simp add: blank_server_def NewConsensusModule_def typed_log_def)
next
  case (step s t)
  then show ?case using app_step_server app_step_typed server_step_keeps by blast
qed

text \<open>C14. The log is well-typed: in every state a master reaches with the commands the program submits and whatever entries other
  masters send, each suffix of the log behind the sentinel can be sent (no lookup of a converter fails), and the receiver
  decodes the same commands from it; a request that includes the sentinel, which has no command, would panic.\<close>
theorem reachable_log_is_typed:
  assumes "app_reachable s" "0 < i"
  shows "(\<exists>es. serialize_all (drop i (cmLog (cm s))) = Some es \<and>
      map Deserialize es = map (\<lambda>v. Some (Command v)) (drop i (cmLog (cm s)))) \<and>
    serialize_all (cmLog (cm s)) = None"
proof -
  have inv: "log_ok (cmLog (cm s))" "typed_log (cmLog (cm s))" using app_reachable_inv[OF assms(1)] by (simp_all add: srv_inv_def)
  obtain vs where vs: "cmLog (cm s) = \<lparr> Command = CNil, Term = 0 \<rparr> # vs" "\<forall>v \<in> set vs. registered (Command v)"
    using inv by (cases "cmLog (cm s)") (auto simp: log_ok_def typed_log_def)
  have "\<forall>v \<in> set (drop i (cmLog (cm s))). registered (Command v)"
    using vs assms(2) by (cases i) (auto dest: in_set_dropD)
  from serialize_all_registered[OF this] vs(1) show ?thesis by (auto simp: Serialize_cases)
qed

theorem reachable_log_is_typed_witness:
  "\<exists>s es. app_reachable s \<and> length (cmLog (cm s)) = 2 \<and> serialize_all (drop 1 (cmLog (cm s))) = Some es \<and> length es = 1"
proof -
  let ?s = "final_state (AppendEntries (\<lambda>_. True) 0 first_append (blank_server 5 ''a''))"
  have r: "app_reachable ?s" by (rule app_reachable.step[OF app_reachable.start app_step.append]) (simp add: blank_server_def NewConsensusModule_def)
  obtain t resp where t: "AppendEntries (\<lambda>_. True) 0 first_append (blank_server 5 ''a'') = Ret t resp"
    "cmLog (cm t) = merged first_append (cmLog (cm (blank_server 5 ''a'')))"
    by (rule AppendEntries_merges[of "blank_server 5 ''a''" first_append "\<lambda>_. True" 0])
      (auto simp: ae_evals blank_server_def NewConsensusModule_def)
  then have l: "length (cmLog (cm ?s)) = 2" by (simp add: ae_evals blank_server_def NewConsensusModule_def)
  obtain es where es: "serialize_all (drop 1 (cmLog (cm ?s))) = Some es"
    "map Deserialize es = map (\<lambda>v. Some (Command v)) (drop 1 (cmLog (cm ?s)))"
    using reachable_log_is_typed[OF r, of 1] by auto
  have "length es = 1" using arg_cong[OF es(2), of length] l by simp
  with r l es(1) show ?thesis by blast
qed

end
