(* ===== verification/Service.thy ===== *)
theory Service
  imports System
begin

text \<open>
  What the master relies on when it talks to a storage node: the locale \<open>storage_service\<close> has the laws of the three
  requests (registering an upload, handing out a link, removing a file) and the facts about the master's handlers that follow
  from them.  It is interpreted on the router of a node behind its URLs.
\<close>

section \<open>Requests to the master\<close>

lemma master_route_table:
  "master_routes (''GET'' @ ''/api/sdfs/upload'') = Some MUpload"
  "master_routes (''GET'' @ ''/api/sdfs/download'') = Some MDownload"
  "master_routes (''GET'' @ ''/api/sdfs/delete'') = Some MDelete"
  "master_routes (''POST'' @ ''/api/sdfs/heartbeat'') = Some MHeartbeat"
  "master_routes (''POST'' @ ''/api/callback/upload'') = Some MUploadCallback"
  "master_routes (''GET'' @ ''/api/debug/printfs'') = Some MDebugPrintFS"
  "master_routes (''GET'' @ ''/api/sdfs/replica/callback'') = None"
  by (simp_all add: master_routes_def addRoute_def)

lemma master_serve_route:
  "master_routes (meth @ path) = Some h \<Longrightarrow> master_serve get q meth path mw = master_handler get q h start_ctx mw"
  by (simp add: master_dispatch.routed start_ctx_def)

lemma Query_path: "token path \<Longrightarrow> Query (''path='' @ path) ''path'' = path"
  using Query_one[of "''path''" path] by (simp add: token_def blanked_id)

lemma serve_path:
  assumes "token path" "mqRaw q = ''path='' @ path"
  shows "master_serve get q ''GET'' ''/api/sdfs/upload'' (m, w) = MasterRequestUpload (mqDraws q) get path start_ctx (m, w)"
    "master_serve get q ''GET'' ''/api/sdfs/download'' (m, w) = MasterDownload get path start_ctx (m, w)"
    "master_serve get q ''GET'' ''/api/sdfs/delete'' (m, w) = MasterDelete get path start_ctx (m, w)"
  using Query_path[OF assms(1)] assms(2)
  by (simp_all add: master_serve_route[OF master_route_table(1)] master_serve_route[OF master_route_table(2)]
      master_serve_route[OF master_route_table(3)] master_handler_def del: append.simps)

text \<open>The client's query for a path.\<close>

definition path_request :: "(nat \<Rightarrow> string) \<Rightarrow> string \<Rightarrow> master_request" where
  "path_request draws path = \<lparr> mqRaw = ''path='' @ path, mqBody = BodyError, mqHeartbeat = HBodyError, mqNodeIds = (0, 0),
     mqDraws = draws, mqFiles = \<lambda>_. [], mqSubDirs = \<lambda>_. [] \<rparr>"

section \<open>The contract\<close>

locale storage_service =
  fixes get :: "'w \<Rightarrow> string \<Rightarrow> 'w \<times> http_reply"
    and ready :: "'w \<Rightarrow> bool"
    and taken :: "'w \<Rightarrow> string \<Rightarrow> bool"
    and content :: "'w \<Rightarrow> string \<rightharpoonup> byte list"
    and disk :: "'w \<Rightarrow> 'd"
    and refs :: "'w \<Rightarrow> string \<Rightarrow> nat"
    and busy :: "'w \<Rightarrow> string \<Rightarrow> bool"
    and link :: "'w \<Rightarrow> string \<Rightarrow> byte list \<Rightarrow> bool"
  assumes register: "ready w \<Longrightarrow> token i \<Longrightarrow> \<not> taken w i \<Longrightarrow> CHR ''/'' \<notin> set host \<Longrightarrow>
      \<exists>w' t. get w (upload_url host i) = (w', Reply 200 t) \<and> ready w' \<and> content w' = content w \<and> refs w' = refs w \<and>
        (\<forall>j. taken w' j \<longleftrightarrow> taken w j \<or> j = i)"
    and hand_out: "ready w \<Longrightarrow> token k \<Longrightarrow> content w k = Some b \<Longrightarrow> CHR ''/'' \<notin> set host \<Longrightarrow>
      \<exists>w' i. get w (link_url host k n) = (w', Reply 200 i) \<and> link w' i b \<and> content w' = content w \<and> refs w' = refs w"
    and remove: "ready w \<Longrightarrow> token k \<Longrightarrow> content w k = Some b \<Longrightarrow> \<not> busy w k \<Longrightarrow> CHR ''/'' \<notin> set host \<Longrightarrow>
      \<exists>w' t. get w (URLSDFSScheme @ host @ ''/api/sdfs/delete'' @ ''?hash='' @ k) = (w', Reply 200 t) \<and> ready w' \<and>
        refs w' = (refs w)(k := refs w k - 1) \<and> disk w' = disk w \<and>
        content w' = (if refs w k = 1 then (content w)(k := None) else content w)"
begin

text \<open>The node grants every upload with a new id.\<close>

lemma grants_new: "ready w \<Longrightarrow> token i \<Longrightarrow> \<not> taken w i \<Longrightarrow> CHR ''/'' \<notin> set host \<Longrightarrow> grants get w host i"
  using register[of w i host] by (auto simp: grants_def reply_status_def StatusOK_def)

lemma upload_granted:
  assumes "um_free m" "path \<notin> pending (upm m)" "First (uploadNodes (upm m)) = Some (Some r)"
    and "uploads (upm m) (draws k) = None" "path \<noteq> []"
    and "ready w" "\<forall>j. token (draws j) \<and> \<not> taken w (draws j)" "CHR ''/'' \<notin> set (nAddr (nodeObjs (svr m) ! r))"
  obtains j w' where "uploads (upm m) (draws j) = None"
    "MasterRequestUpload draws get path c (m, w) =
       Ret (placed (draws j) (nAddr (nodeObjs (svr m) ! r)) path m, w')
         (JSON 200 [(''id'', draws j), (''node'', nAddr (nodeObjs (svr m) ! r))] c)"
    "w' = fst (get w (upload_url (nAddr (nodeObjs (svr m) ! r)) (draws j)))"
    "ready w'" "content w' = content w" "refs w' = refs w"
proof -
  let ?a = "nAddr (nodeObjs (svr m) ! r)"
  have g: "\<forall>j. grants get w ?a (draws j)" using grants_new assms(6-8) by blast
  obtain j where j: "uploads (upm m) (draws j) = None" "AddUpload draws get path (m, w) =
      Ret (placed (draws j) ?a path m, fst (get w (upload_url ?a (draws j)))) (Inr (draws j, ?a))"
    by (rule AddUpload_ok[of m path r draws k get w, OF assms(1-4) g])
  obtain w' t where w': "get w (upload_url ?a (draws j)) = (w', Reply 200 t)" "ready w'" "content w' = content w" "refs w' = refs w"
    using register[OF assms(6) _ _ assms(8), of "draws j"] assms(7) by blast
  have "MasterRequestUpload draws get path c (m, w) =
      Ret (placed (draws j) ?a path m, w') (JSON 200 [(''id'', draws j), (''node'', ?a)] c)"
    using j(2) w'(1) assms(5) by (simp add: MasterRequestUpload_def)
  then show thesis by (rule that[OF j(1) _ _ w'(2-4)]) (simp add: w'(1))
qed

text \<open>A file that its first host holds can be downloaded.\<close>

lemma download_linked:
  assumes "\<not> cmu (cm (svr m))" "fs_inv (gfs m)" "canonical path" "lookup (gfs m) (resolve path) = Some f"
    and "Host (files (gfs m) ! f) = v # vs" "token (Checksum (files (gfs m) ! f))" "CHR ''/'' \<notin> set (node_host (svr m) v)"
    and "ready w" "content w (Checksum (files (gfs m) ! f)) = Some b"
  obtains w' i where "MasterDownload get path c (m, w) =
      Ret (m, w') (String 200 (URLSDFSScheme @ node_host (svr m) v @ ''/api/download'' @ ''?id='' @ i) c)" "link w' i b"
    "content w' = content w" "refs w' = refs w"
proof -
  obtain w' i where w': "get w (link_url (node_host (svr m) v) (Checksum (files (gfs m) ! f)) (ParseFileName path)) = (w', Reply 200 i)"
    "link w' i b" "content w' = content w" "refs w' = refs w"
    using hand_out[OF assms(8,6,9,7)] by blast
  show thesis by (rule that[OF MasterDownload_link[OF assms(1-5), of get w, OF w'(1)] w'(2-4)])
qed

text \<open>A file with one host is removed from the namespace and from what the node finds; the disk of the node is not touched.\<close>

lemma delete_accepted:
  assumes "\<not> cmu (cm (svr m))" "fs_inv (gfs m)" "canonical path" "lookup (gfs m) (resolve path) = Some f"
    and "Host (files (gfs m) ! f) = [v]" "token (Checksum (files (gfs m) ! f))" "CHR ''/'' \<notin> set (node_host (svr m) v)"
    and "ready w" "content w (Checksum (files (gfs m) ! f)) = Some b" "\<not> busy w (Checksum (files (gfs m) ! f))"
  obtains m' w' where "MasterDelete get path c (m, w) = Ret (m', w') (String 200 ''Success'' c)" "fs_inv (gfs m')"
    "svr m' = svr m" "ns (gfs m') = (ns (gfs m))(resolve path := None)" "ready w'" "disk w' = disk w"
    "refs w' = (refs w)(Checksum (files (gfs m) ! f) := refs w (Checksum (files (gfs m) ! f)) - 1)"
    "content w' = (if refs w (Checksum (files (gfs m) ! f)) = 1 then (content w)(Checksum (files (gfs m) ! f) := None) else content w)"
proof -
  let ?k = "Checksum (files (gfs m) ! f)"
  obtain w' t where w': "get w (delete_url (svr m) ?k v) = (w', Reply 200 t)" "ready w'" "disk w' = disk w"
    "refs w' = (refs w)(?k := refs w ?k - 1)" "content w' = (if refs w ?k = 1 then (content w)(?k := None) else content w)"
    using remove[OF assms(8,6,9,10,7)] unfolding delete_url_def by blast
  have ask: "ask_hosts get (delete_url (svr m) ?k) (Host (files (gfs m) ! f)) w = (w', [])"
    using w'(1) assms(5) by (simp add: accepted_def)
  have "ns (gfs m) (resolve path) \<noteq> None" using assms(4) by (simp add: ns_def)
  then obtain t where t: "DeleteFile path (gfs m) = Ret t (Inr ())" "fs_inv t" "ns t = (ns (gfs m))(resolve path := None)"
    using DeleteFile_spec[OF assms(2,3)] by auto
  have "MasterDelete get path c (m, w) = Ret (m\<lparr> gfs := t \<rparr>, w') (String 200 ''Success'' c)"
    using MasterDelete_asks[OF assms(1-4) ask] t(1) by (simp add: lift_fs_def with_world_def)
  then show thesis by (rule that) (use t w' in simp_all)
qed

end

text \<open>A download of a path that is not in the namespace.\<close>

lemma MasterDownload_absent:
  assumes "fs_inv (gfs m)" "canonical path" "ns (gfs m) (resolve path) = None"
  shows "MasterDownload get path c (m, w) = Ret (m, w) (String 500 ''Internal Server Error: sdfs error'' c)"
proof -
  have m: "m\<lparr> gfs := gfs m \<rparr> = m" by (cases m) simp
  have "lookup (gfs m) (resolve path) = None" using assms(3) by (simp add: ns_def)
  then have "GetFile path (gfs m) = Ret (gfs m) (Inl FileNotExist)"
    using GetFile_lookup[OF fs_invD(1,2)[OF assms(1)], of path] by simp
  then show ?thesis
    using canonical_nonempty[OF assms(2)] m by (simp add: MasterDownload_def lift_fs_def with_world_def)
qed

section \<open>The storage node keeps it\<close>

text \<open>What the node finds under a name: the bytes on disk, for a name that is in its index.  \<open>Remove\<close> takes the name out of the index
  and leaves the bytes on disk.\<close>

definition node_finds :: "node_state \<Rightarrow> string \<rightharpoonup> byte list" where
  "node_finds s k = (if hs_s (hs s) k = None then None else hs_disk (hs s) (DataPathPrefix @ k))"

definition node_busy :: "node_state \<Rightarrow> string \<Rightarrow> bool" where
  "node_busy s k = (case hs_s (hs s) k of None \<Rightarrow> False | Some i \<Rightarrow> OpenCount (hs_files (hs s) ! i) \<noteq> 0)"

lemma node_get_register:
  assumes "CHR ''/'' \<notin> set host" "token i"
  shows "node_get t rnd s (upload_url host i) = answer (NR_AddUpload i start_ctx s)"
proof -
  have "url_parts (URLSDFSScheme @ host @ ''/api/sdfs/upload'' @ ''?id='' @ i) = (host, ''/api/sdfs/upload'', ''id='' @ i)"
    using url_parts_query[OF assms(1), of "''api/sdfs/upload''" "''id='' @ i"] by (simp add: URLSDFSScheme_def)
  then show ?thesis
    unfolding node_get_def upload_url_def
    by (simp only: prod.case node_serve_route[OF routes(4)] node_handler_def node_route.case Query_token[OF assms(2)] answer_with_w)
qed

lemma node_register:
  assumes "node_inv digest s" "link_ready t rnd s" "token i" "i \<notin> rUploads (rt s)" "CHR ''/'' \<notin> set host"
  shows "\<exists>s' x. node_get t rnd s (upload_url host i) = (s', Reply 200 x) \<and> (node_inv digest s' \<and> link_ready t rnd s') \<and>
    node_finds s' = node_finds s \<and> copies (hs s') = copies (hs s) \<and>
    (\<forall>j. j \<in> rUploads (rt s') \<longleftrightarrow> j \<in> rUploads (rt s) \<or> j = i) \<and> hs s' = hs s \<and> MasterAddr (rt s') = MasterAddr (rt s)"
proof -
  let ?s = "s\<lparr> rt := (rt s)\<lparr> rUploads := insert i (rUploads (rt s)) \<rparr> \<rparr>"
  have fr: "\<not> wlock (rt s)" "\<not> wwait (rt s)" "rlocks (rt s) = 0" using assms(2) by (simp_all add: link_ready_def rt_free_def)
  have "NR_AddUpload i start_ctx s = Ret ?s (String 200 ''Success'' start_ctx)"
    using fr assms(4) by (cases "rt s") (simp add: NR_AddUpload_def lift_rt_def rt_Lock_def rt_Unlock_def)
  then have "node_get t rnd s (upload_url host i) = (?s, Reply 200 ''Success'')"
    by (simp add: node_get_register[OF assms(5,3)] answer_String)
  moreover have "node_inv digest ?s" using assms(1) by (simp add: node_inv_def links_ok_def)
  moreover have "link_ready t rnd ?s" using assms(2) by (simp add: link_ready_def links_ok_def rt_free_def overrun_def)
  ultimately show ?thesis by (intro exI[of _ ?s]) (auto simp: node_finds_def fun_eq_iff)
qed

lemma node_hand_out:
  assumes "node_inv digest s" "link_ready t rnd s" "token k" "node_finds s k = Some b" "CHR ''/'' \<notin> set host"
  shows "\<exists>s' i. node_get t rnd s (link_url host k n) = (s', Reply 200 i) \<and>
    (\<exists>k. serves i k b s' \<and> hs_inv digest (hs s') \<and> i = rnd) \<and>
    node_finds s' = node_finds s \<and> copies (hs s') = copies (hs s)"
proof -
  let ?name = "Query (''hash='' @ k @ ''&name='' @ n) ''name''"
  have lr: "rt_free (rt s)" "links_ok (rt s)" "\<not> overrun t (rt s)" "downloads (rt s) rnd = None" "rnd \<noteq> []"
    using assms(2) by (simp_all add: link_ready_def)
  have k: "hs_s (hs s) k \<noteq> None" "hs_disk (hs s) (DataPathPrefix @ k) = Some b" "plain_query k" "blanked k = k"
    using assms(3,4) by (auto simp: node_finds_def token_def blanked_id split: if_splits)
  obtain s1 where s1: "NR_AddDownload t rnd k ?name start_ctx s = Ret s1 (String 200 rnd start_ctx)" "serves rnd k b s1" "hs s1 = hs s"
    using AddDownload_serves[OF lr k(1,2)] by blast
  have "node_get t rnd s (link_url host k n) = (s1, Reply 200 rnd)"
    unfolding link_url_def node_get_link[OF assms(5) k(3)] k(4) s1(1) by (rule answer_String)
  then show ?thesis using s1(2,3) assms(1) by (auto simp: node_finds_def node_inv_def fun_eq_iff)
qed

lemma node_remove:
  assumes "node_inv digest s" "link_ready t rnd s" "token k" "node_finds s k = Some b" "\<not> node_busy s k" "CHR ''/'' \<notin> set host"
  shows "\<exists>s' x. node_get t rnd s (URLSDFSScheme @ host @ ''/api/sdfs/delete'' @ ''?hash='' @ k) = (s', Reply 200 x) \<and>
    (node_inv digest s' \<and> link_ready t rnd s') \<and> copies (hs s') = (copies (hs s))(k := copies (hs s) k - 1) \<and>
    hs_disk (hs s') = hs_disk (hs s) \<and>
    node_finds s' = (if copies (hs s) k = 1 then (node_finds s)(k := None) else node_finds s)"
proof -
  have inv: "hs_inv digest (hs s)" using assms(1) by (simp add: node_inv_def)
  obtain i where i: "hs_s (hs s) k = Some i" using assms(4) by (auto simp: node_finds_def split: if_splits)
  have oc: "OpenCount (hs_files (hs s) ! i) = 0" using assms(5) i by (simp add: node_busy_def)
  obtain h where h: "HS_Remove k (hs s) = (h, Inr ())" "hs_disk h = hs_disk (hs s)"
      "hs_s h = (if 1 < sint (ReplicaCount (hs_files (hs s) ! i)) then hs_s (hs s) else (hs_s (hs s))(k := None))"
    using i oc by (cases "1 < sint (ReplicaCount (hs_files (hs s) ! i))") (simp_all add: HS_Remove_def Let_def upd_hs_def)
  have cp: "hs_inv digest h" "0 < copies (hs s) k" "copies h = (copies (hs s))(k := copies (hs s) k - 1)"
    using HS_Remove_ok[OF inv h(1)] by simp_all
  have one: "1 < sint (ReplicaCount (hs_files (hs s) ! i)) \<longleftrightarrow> copies (hs s) k \<noteq> 1"
    using copies_Some[OF inv i] by auto
  let ?s = "s\<lparr> hs := h \<rparr>"
  have "blanked k = k" "k \<noteq> []" "plain_query k" using assms(3) by (simp_all add: token_def blanked_id)
  then have "node_get t rnd s (URLSDFSScheme @ host @ ''/api/sdfs/delete'' @ ''?hash='' @ k) = (?s, Reply 200 ''Success'')"
    using node_get_delete[OF assms(6), of k t rnd s] h(1) by (simp add: NR_Delete_def answer_String)
  moreover have "node_finds ?s = (if copies (hs s) k = 1 then (node_finds s)(k := None) else node_finds s)"
    using h(2,3) one by (auto simp: node_finds_def fun_eq_iff)
  moreover have "node_inv digest ?s" "link_ready t rnd ?s" using assms(1,2) cp(1) by (simp_all add: node_inv_def link_ready_def)
  ultimately show ?thesis using cp(3) h(2) by (intro exI[of _ ?s] exI[of _ "''Success''"]) simp
qed

interpretation node_service: storage_service "node_get t rnd" "\<lambda>s. node_inv digest s \<and> link_ready t rnd s"
  "\<lambda>s i. i \<in> rUploads (rt s)" node_finds "\<lambda>s. hs_disk (hs s)" "\<lambda>s. copies (hs s)" node_busy
  "\<lambda>s i b. \<exists>k. serves i k b s \<and> hs_inv digest (hs s) \<and> i = rnd" for t rnd digest
proof (unfold_locales, goal_cases)
  case (1 w i host)
  then show ?case using node_register[of digest w t rnd i host] by blast
next
  case (2 w k b host n)
  then show ?case using node_hand_out[of digest w t rnd k b host n] by blast
next
  case (3 w k b host)
  then show ?case using node_remove[of digest w t rnd k b host] by blast
qed

section \<open>Files that are in place\<close>

lemma object_name_token:
  assumes "d \<noteq> []" "CHR ''+'' \<notin> set (object_name d)"
  shows "token (object_name d)"
proof -
  have "length (object_name d) \<noteq> 0" using assms(1) by (cases d) (simp_all add: object_name_def replace_all_def length_EncodeToString)
  then show ?thesis using object_name_chars(1) assms(2) by (simp add: token_def)
qed

lemma sha_sized_nonempty: "sha_sized digest \<Longrightarrow> digest b \<noteq> []"
  by (metis list.size(3) sha_sized_def zero_neq_numeral)

text \<open>The master has \<open>path\<close> as a file with the one host \<open>v\<close>, and the node holds its contents \<open>b\<close> under the name the master has.\<close>

definition in_place :: "string \<Rightarrow> i32 \<Rightarrow> string \<Rightarrow> byte list \<Rightarrow> master \<Rightarrow> node_state \<Rightarrow> bool" where
  "in_place path v k b m s \<longleftrightarrow> \<not> cmu (cm (svr m)) \<and> fs_inv (gfs m) \<and> canonical path \<and>
     (\<exists>f. lookup (gfs m) (resolve path) = Some f \<and> Checksum (files (gfs m) ! f) = k \<and> Host (files (gfs m) ! f) = [v]) \<and>
     CHR ''/'' \<notin> set (node_host (svr m) v) \<and> token k \<and> node_finds s k = Some b"

lemma one_file_in_place:
  obtains m where "in_place ''/a/b'' 7 (object_name (len_digest [7])) [7] m small_node"
    "\<not> node_busy small_node (object_name (len_digest [7]))"
proof -
  obtain m r where m: "um_free m" "nodes (svr m) 7 = Some r" "nAddr (nodeObjs (svr m) ! r) = ''n:1''" "gfs m = NewFS"
    by (rule one_node_leader)
  let ?k = "object_name (len_digest [7])"
  have "ns NewFS (resolve ''/a/b'') = None" by (simp add: NewFS_inv)
  then obtain g f where g: "fs_inv g" "lookup g (resolve ''/a/b'') = Some f" "Checksum (files g ! f) = ?k"
    using AddFile_fresh[OF NewFS_inv(1) canonical_examples(1) _ NewFS_index] by metis
  let ?m = "m\<lparr> gfs := upd_file f (Host_update (\<lambda>_. [7])) g \<rparr>"
  have f: "\<not> cmu (cm (svr ?m))" "fs_inv (gfs ?m)" "lookup (gfs ?m) (resolve ''/a/b'') = Some f"
    "Host (files (gfs ?m) ! f) = [7]" "Checksum (files (gfs ?m) ! f) = ?k" "node_host (svr ?m) 7 = ''n:1''"
    using m host_update[OF g(1), of f "\<lambda>_. [7]"] g lookup_file(1)[OF g(1,2)] by (simp_all add: um_free_def node_host_def)
  have "CHR ''+'' \<notin> set ?k" by code_simp
  then have "token ?k" by (intro object_name_token) (simp add: len_digest_def)
  moreover have "CHR ''/'' \<notin> set (node_host (svr ?m) 7)" unfolding f(6) by simp
  moreover have "node_finds small_node ?k = Some [7]" using small_node_ok(6,7) by (simp add: node_finds_def)
  ultimately have "in_place ''/a/b'' 7 ?k [7] ?m small_node"
    unfolding in_place_def using f(1-5) canonical_examples(1) by blast
  then show thesis by (rule that) (simp add: node_busy_def small_node_ok(6,9))
qed

text \<open>An upload puts a file in place: the master's half of the request, the node's, and the report.\<close>

lemma upload_in_place:
  assumes "master_ready r path (object_name (digest (body env))) m" "node_ready digest env t rnd s"
    and "uploads (upm m) (draws j) = None" "\<forall>n. token (draws n) \<and> draws n \<notin> rUploads (rt s)"
  obtains i m1 m2 s0 s1 where
    "MasterRequestUpload draws (node_get t rnd) path start_ctx (m, s) =
      Ret (m1, s0) (JSON 200 [(''id'', i), (''node'', nAddr (nodeObjs (svr m) ! r))] start_ctx)"
    "node_serve (master_post (MasterAddr (rt s))) digest t0 r0 env (''id='' @ i) [] ''POST'' ''/api/upload'' (s0, m1) =
      Ret (s1, m2) (String 202 ''Success'' start_ctx)"
    "in_place path (nID (nodeObjs (svr m) ! r)) (object_name (digest (body env))) (body env) m2 s1"
    "node_host (svr m2) (nID (nodeObjs (svr m) ! r)) = nAddr (nodeObjs (svr m) ! r)" "node_inv digest s1" "link_ready t rnd s1"
proof -
  let ?k = "object_name (digest (body env))" and ?a = "nAddr (nodeObjs (svr m) ! r)"
  have m: "um_free m" "path \<notin> pending (upm m)" "First (uploadNodes (upm m)) = Some (Some r)"
    "cmState (cm (svr m)) = LEADER" "nodeAddr (svr m) ?a = Some r" "canonical path" "fs_inv (gfs m)"
    "ns (gfs m) (resolve path) = None" "ChecksumDB (gfs m) ?k = None" "nodes (svr m) (nID (nodeObjs (svr m) ! r)) = Some r"
    "CHR ''/'' \<notin> set ?a" using assms(1) by (simp_all add: master_ready_def)
  have n: "CHR ''+'' \<notin> set ?k" "node_inv digest s \<and> link_ready t rnd s" "digest (body env) \<noteq> []"
    using assms(2) sha_sized_nonempty by (simp_all add: node_ready_def)
  obtain j s0 where j: "MasterRequestUpload draws (node_get t rnd) path start_ctx (m, s) =
       Ret (placed (draws j) ?a path m, s0) (JSON 200 [(''id'', draws j), (''node'', ?a)] start_ctx)"
    "s0 = fst (node_get t rnd s (upload_url ?a (draws j)))"
    by (rule node_service.upload_granted[OF m(1-3) assms(3) canonical_nonempty[OF m(6)] n(2) assms(4) m(11), where c = start_ctx]) blast
  let ?m1 = "placed (draws j) ?a path m"
  have tok: "token (draws j)" "draws j \<notin> rUploads (rt s)" using assms(4) by simp_all
  have s0: "hs s0 = hs s" "MasterAddr (rt s0) = MasterAddr (rt s)" "node_inv digest s0" "link_ready t rnd s0"
    using node_register[OF conjunct1[OF n(2)] conjunct2[OF n(2)] tok m(11)] j(2) by auto
  have nr: "node_ready digest env t rnd s0" using assms(2) s0 by (simp add: node_ready_def room_def)
  obtain g f where g: "AddFile path ?k (gfs m) = Ret g (Inr f)" "fs_inv g" "lookup g (resolve path) = Some f"
    "Checksum (files g ! f) = ?k" "Host (files g ! f) = []"
    by (rule AddFile_fresh[OF m(7,6,8,9)])
  have m1: "um_free ?m1" "cmState (cm (svr ?m1)) = LEADER" using m(1,4) by simp_all
  obtain m2 where m2: "FinishUpload (draws j) ?k ?m1 = Ret m2 (Inr ())" "fs_inv (gfs m2)" "lookup (gfs m2) (resolve path) = Some f"
    "Checksum (files (gfs m2) ! f) = ?k" "Host (files (gfs m2) ! f) = [nID (nodeObjs (svr m) ! r)]" "svr m2 = svr m" "um_free m2"
    by (rule FinishUpload_run[of ?m1 "draws j" "\<lparr> upID = draws j, upHost = ?a, upPath = path, upHash = [], upSize = 0 \<rparr>" ?k g "Inr f" f r])
      (use m1 g m(5) in simp_all)
  obtain h where h: "node_serve (master_post (MasterAddr (rt s))) digest t0 r0 env (''id='' @ draws j) [] ''POST'' ''/api/upload''
      (s0, ?m1) = Ret (s0\<lparr> hs := h \<rparr>, m2) (String 202 ''Success'' start_ctx)" "hs_inv digest h" "hs_s h ?k \<noteq> None"
    "hs_disk h (DataPathPrefix @ ?k) = Some (body env)"
    using upload_step[OF m1 m2(1) nr tok(1)] unfolding s0(2) by blast
  have host: "node_host (svr m2) (nID (nodeObjs (svr m) ! r)) = ?a" using m(10) m2(6) by (simp add: node_host_def)
  have "in_place path (nID (nodeObjs (svr m) ! r)) ?k (body env) m2 (s0\<lparr> hs := h \<rparr>)"
    unfolding in_place_def host using m2 h(3,4) m(6,11) object_name_token[OF n(3,1)] by (auto simp: node_finds_def um_free_def)
  moreover have "node_inv digest (s0\<lparr> hs := h \<rparr>)" "link_ready t rnd (s0\<lparr> hs := h \<rparr>)"
    using s0(3,4) h(2) by (simp_all add: node_inv_def link_ready_def)
  ultimately show thesis using that[OF j(1) h(1) _ host] by blast
qed

text \<open>A file in place can be downloaded.\<close>

lemma in_place_linked:
  assumes "in_place path v k b m s" "node_inv digest s" "link_ready t rnd s"
  obtains s' k' where "MasterDownload (node_get t rnd) path start_ctx (m, s) =
      Ret (m, s') (String 200 (URLSDFSScheme @ node_host (svr m) v @ ''/api/download'' @ ''?id='' @ rnd) start_ctx)"
    "serves rnd k' b s'" "hs_inv digest (hs s')"
proof -
  obtain f where f: "lookup (gfs m) (resolve path) = Some f" "Checksum (files (gfs m) ! f) = k" "Host (files (gfs m) ! f) = [v]"
    using assms(1) by (auto simp: in_place_def)
  have m: "\<not> cmu (cm (svr m))" "fs_inv (gfs m)" "canonical path" "CHR ''/'' \<notin> set (node_host (svr m) v)"
    "token (Checksum (files (gfs m) ! f))" "node_finds s (Checksum (files (gfs m) ! f)) = Some b"
    using assms(1) f(2) by (simp_all add: in_place_def)
  show thesis
    using that node_service.download_linked[OF m(1-3) f(1,3) m(5,4) conjI[OF assms(2,3)] m(6), where c = start_ctx] by blast
qed

end
