(* ===== verification/Master_Inv.thy ===== *)
theory Master_Inv
  imports Service
begin

text \<open>
  The master as a state machine: requests of clients and nodes through its router, with arbitrary answers of the nodes it calls, and
  the steps of the consensus module (\<open>server_step\<close>) in between.  A panic of a handler ends only its connection (\<open>net/http\<close> recovers it), so the
  state it leaves counts as well.

  Some steps of the consensus module leave its mutex held for ever (an \<open>AddNode\<close> entry, a commit index beyond the log, a master that registers
  twice).  From then on the mutex stays held, and handlers that need it wait; what is shown here is for the states
  in which that has not happened.
\<close>

section \<open>The invariant\<close>

definition master_inv :: "master \<Rightarrow> bool" where
  "master_inv m \<longleftrightarrow> um_free m \<and> fs_inv (gfs m) \<and> (\<forall>i u. uploads (upm m) i = Some u \<longrightarrow> canonical (upPath u))"

text \<open>The call returns or panics and leaves a state with the invariant; it does not wait.\<close>

fun served :: "(master \<times> 'w, 'a) outcome \<Rightarrow> bool" where
  "served (Ret (m, w) a) = master_inv m"
| "served (Panic (m, w)) = master_inv m"
| "served (Block mw) = False"

fun local_served :: "(master, 'a) outcome \<Rightarrow> bool" where
  "local_served (Ret m a) = master_inv m"
| "local_served (Panic m) = master_inv m"
| "local_served (Block m) = False"

lemma served_with_world: "served (with_world r w) = local_served r"
  by (cases r) (simp_all add: with_world_def)

lemma local_served_obind:
  "local_served r \<Longrightarrow> (\<And>m a. r = Ret m a \<Longrightarrow> master_inv m \<Longrightarrow> local_served (f m a)) \<Longrightarrow> local_served (obind r f)"
  by (cases r) simp_all

lemma master_invD:
  assumes "master_inv m"
  shows "\<not> umu (upm m)" "\<not> cmu (cm (svr m))" "fs_inv (gfs m)" "um_free m" "\<And>i u. uploads (upm m) i = Some u \<Longrightarrow> canonical (upPath u)"
  using assms by (auto simp: master_inv_def um_free_def)

text \<open>Only the locks, the namespace and the uploads matter.\<close>

lemma master_inv_cong:
  "master_inv m \<Longrightarrow> gfs m' = gfs m \<Longrightarrow> uploads (upm m') = uploads (upm m) \<Longrightarrow> um_free m' \<Longrightarrow> master_inv m'"
  by (simp add: master_inv_def)

text \<open>What is asked of a request: its path is empty or canonical, the ids drawn for an upload are not all taken, and the counters of
  locations have room.\<close>

definition request_ok :: "master_request \<Rightarrow> master \<Rightarrow> bool" where
  "request_ok q m \<longleftrightarrow> (Query (mqRaw q) ''path'' = [] \<or> canonical (Query (mqRaw q) ''path'')) \<and>
     (\<exists>k. uploads (upm m) (mqDraws q k) = None) \<and> (\<forall>h. card {k. ns (gfs m) k = Some h} < 2 ^ 32 - 1)"

section \<open>The handlers\<close>

lemma self_updates [simp]: "(m :: master)\<lparr> gfs := gfs m \<rparr> = m" "(m :: master)\<lparr> svr := svr m \<rparr> = m"
  by (cases m; simp)+

lemma download_served:
  assumes "master_inv m"
  shows "served (MasterDownload get path c (m, w))"
proof -
  note i = master_invD[OF assms]
  obtain r where r: "GetFile path (gfs m) = Ret (gfs m) r" using sdfs_ns.get_law[OF i(3), of path] by blast
  show ?thesis
    using assms i(2) r
    by (auto simp: MasterDownload_def lift_fs_def lift_svr_def with_world_def Server_NodeAddr_def Let_def
        split: sum.split list.split prod.split option.split)
qed

lemma upload_served:
  assumes "master_inv m" "path = [] \<or> canonical path" "uploads (upm m) (draws k) = None"
  shows "served (MasterRequestUpload draws get path c (m, w))"
proof -
  note i = master_invD[OF assms(1)]
  obtain x where x: "free_id draws (uploads (upm m)) 0 = Some x" using free_id_found[of "uploads (upm m)" draws 0 k] assms(3) by fastforce
  have "served (AddUpload draws get path (m, w))" if "canonical path"
    using assms(1) i(1) x that
    by (auto simp: AddUpload_def AddUpload_locked_def set_umu_def Let_def master_inv_def um_free_def
        split: option.split prod.split)
  then show ?thesis
    using assms(1,2) by (cases "AddUpload draws get path (m, w)") (auto simp: MasterRequestUpload_def split: sum.split)
qed

lemma delete_served:
  assumes "master_inv m" "path = [] \<or> canonical path"
  shows "served (MasterDelete get path c (m, w))"
proof -
  note i = master_invD[OF assms(1)]
  consider "path = []" | "canonical path" "lookup (gfs m) (resolve path) = None"
    | f where "canonical path" "lookup (gfs m) (resolve path) = Some f" using assms(2) by (cases "lookup (gfs m) (resolve path)") auto
  then show ?thesis
  proof cases
    case 2
    then have "GetFile path (gfs m) = Ret (gfs m) (Inl FileNotExist)"
      using GetFile_lookup[OF fs_invD(1,2)[OF i(3)], of path] by simp
    then show ?thesis using assms(1) by (simp add: MasterDelete_def lift_fs_def with_world_def)
  next
    case (3 f)
    obtain w' bad where a: "ask_hosts get (delete_url (svr m) (Checksum (files (gfs m) ! f))) (Host (files (gfs m) ! f)) w = (w', bad)" by force
    obtain t r where "DeleteFile path (gfs m) = Ret t r" "fs_inv t" using DeleteFile_spec[OF i(3) 3(1)] by blast
    then show ?thesis
      using MasterDelete_asks[OF i(2,3) 3 a] assms(1) host_update(1)[OF i(3)]
      by (auto simp: lift_fs_def with_world_def master_inv_def um_free_def split: sum.split)
  qed (use assms(1) in \<open>simp add: MasterDelete_def\<close>)
qed

lemma finish_served:
  assumes "master_inv m" "\<forall>h. card {k. ns (gfs m) k = Some h} < 2 ^ 32 - 1"
  shows "local_served (FinishUpload i h m)"
proof (cases "uploads (upm m) i")
  case None
  then show ?thesis using assms(1) by (simp add: FinishUpload_def with_um_lock_def master_inv_def um_free_def)
next
  case (Some u)
  note iv = master_invD[OF assms(1)]
  obtain g x where g: "AddFile (upPath u) h (gfs m) = Ret g x" "fs_inv g" using sdfs_ns.add_law[OF iv(3) iv(5)[OF Some]] assms(2) by metis
  obtain r where r: "GetFile (upPath u) g = Ret g r" using sdfs_ns.get_law[OF g(2), of "upPath u"] by blast
  have "fs_inv (upd_file f (Host_update k) g)" for f k using host_update(1)[OF g(2)] .
  then show ?thesis
    using assms(1) iv(1,2) Some g r
    by (cases r) (auto simp: FinishUpload_def with_um_lock_def lift_fs_def lift_svr_def NodeID_def master_inv_def um_free_def split: if_splits)
qed

lemma callback_served:
  assumes "master_inv m" "\<forall>h. card {k. ns (gfs m) k = Some h} < 2 ^ 32 - 1"
  shows "local_served (HTTPUploadCallbackServer b c m)"
  using assms master_invD(2)[OF assms(1)] finish_served[OF assms]
  by (auto simp: HTTPUploadCallbackServer_def CM_State_def CurrentLeader_def lift_svr_def intro!: local_served_obind
      split: json_body.split option.split sum.split prod.split)

lemma Submit_free:
  assumes "\<not> cmu (cm s)" "registered cmd"
  shows "\<exists>t x. Submit cmd s = Ret t x \<and> \<not> cmu (cm t)"
proof -
  obtain e where "Serialize \<lparr> Command = cmd, Term = currentTerm (cm s) \<rparr> = Some e" using Serialize_registered[OF assms(2)] by blast
  then show ?thesis using assms(1) by (auto simp: Submit_def with_cm_lock_def Let_def)
qed

lemma update_served:
  assumes "master_inv m"
  shows "local_served (UpdateNode addr cpu memory sz disk r1 r2 m)"
proof -
  note i = master_invD[OF assms]
  have inv: "master_inv (m\<lparr> svr := s \<rparr>)" "master_inv (m\<lparr> svr := s, upm := (upm m)\<lparr> uploadNodes := q \<rparr> \<rparr>)" if "\<not> cmu (cm s)" for s q
    using that i by (auto intro!: master_inv_cong[OF assms] simp: um_free_def)
  show ?thesis
  proof (cases "nodeAddr (svr m) addr")
    case None
    let ?cmd = "CAddNode \<lparr> asnID = draw_id r1 r2 (svr m), NodeAddr = addr \<rparr>"
    let ?s = "add_node_obj \<lparr> nAddr = addr, nID = draw_id r1 r2 (svr m), CpuUsage = cpu, MemUsage = memory, nSize = sz, Disk = disk,
        LastHeartbeat = 0 \<rparr> (svr m)"
    obtain t ok l where t: "Submit ?cmd ?s = Ret t (ok, l)" "\<not> cmu (cm t)"
      using Submit_free[of ?s ?cmd] i(2) by auto
    then show ?thesis
      using None i(2) inv
      by (auto simp: UpdateNode_def UpdateNode_local_def lift_svr_def PeerAddr_def Let_def split: option.split)
  qed (use i(2) inv in \<open>simp add: UpdateNode_def UpdateNode_local_def lift_svr_def\<close>)
qed

lemma heartbeat_served:
  assumes "master_inv m"
  shows "local_served (HeartbeatHandler r1 r2 b c m)"
  using assms master_invD(2)[OF assms] update_served[OF assms]
  by (auto simp: HeartbeatHandler_def CM_State_def CurrentLeader_def PeerAddr_def lift_svr_def intro!: local_served_obind
      split: heartbeat_body.split)

lemma print_served:
  assumes "master_inv m"
  shows "local_served (DebugPrintFS fk sk c m)"
proof -
  have "GetDir ''/'' (gfs m) = Ret (gfs m) (Inr 0)"
    using fs_invD(1,2)[OF master_invD(3)[OF assms]] by (intro GetDir_walk) (simp_all add: unlocked_def dirs_free_def comps_def)
  then show ?thesis using assms by (auto simp: DebugPrintFS_def lift_fs_def split: option.split)
qed

lemma handler_served:
  assumes "master_inv m" "request_ok q m"
  shows "served (master_handler get q h c (m, w))"
proof -
  obtain k where "uploads (upm m) (mqDraws q k) = None" using assms(2) by (auto simp: request_ok_def)
  then show ?thesis
    using assms
    by (cases h) (auto simp: master_handler_def served_with_world request_ok_def
        intro: download_served upload_served delete_served callback_served heartbeat_served print_served)
qed

lemma request_served: "master_inv m \<Longrightarrow> request_ok q m \<Longrightarrow> served (master_serve get q meth path (m, w))"
  by (rule master_dispatch.every_request) (simp_all add: handler_served)

section \<open>The mutex of the consensus module\<close>

text \<open>Once it is left held it stays held: every step that takes it waits, and no other step releases it.\<close>

lemma server_step_held: "server_step s t \<Longrightarrow> cmu (cm s) \<Longrightarrow> cmu (cm t)"
proof (induction rule: server_step.induct)
  case (timer_tick s now i)
  then show ?case by (cases "timers (cm s) ! i") (simp_all add: timer_tick_def)
next
  case (deferred s now d)
  then show ?case by (cases d) (auto simp: run_deferred_def becomeFollower_def)
qed (simp_all add: cm_ready_def timer_start_def vote_request_def vote_reply_def hb_request_def hb_response_def hb_loop_check_def
    AppendEntries_def RequestVote_locked_def Submit_def with_cm_lock_def RegisterMaster_def RegisterMaster_locked_def join_peer_def
    UpdateNode_local_def)

text \<open>No handler of the router changes the server while the mutex is held.\<close>

definition keeps_svr :: "server \<Rightarrow> (master \<times> 'w, 'a) outcome \<Rightarrow> bool" where
  "keeps_svr s r \<longleftrightarrow> svr (fst (final_state r)) = s"

lemma keeps_svr_obind:
  "keeps_svr s r \<Longrightarrow> (\<And>m w a. svr m = s \<Longrightarrow> keeps_svr s (f (m, w) a)) \<Longrightarrow> keeps_svr s (obind r f)"
  by (cases r) (auto simp: keeps_svr_def)

lemma keeps_svr_simps [simp]:
  "keeps_svr s (Ret (m, w) a) \<longleftrightarrow> svr m = s" "keeps_svr s (Panic (m, w)) \<longleftrightarrow> svr m = s" "keeps_svr s (Block (m, w)) \<longleftrightarrow> svr m = s"
  "keeps_svr s (with_world (lift_fs r m) w) \<longleftrightarrow> svr m = s"
  by (cases r; simp add: keeps_svr_def with_world_def lift_fs_def)+

lemma keeps_svr_addr: "svr m = s \<Longrightarrow> cmu (cm s) \<Longrightarrow> keeps_svr s (with_world (lift_svr (Server_NodeAddr v s) m) w)"
  by (simp add: keeps_svr_def with_world_def lift_svr_def Server_NodeAddr_def)

lemma delete_hosts_held: "svr m = s \<Longrightarrow> cmu (cm s) \<Longrightarrow> keeps_svr s (delete_hosts get k vs failed (m, w))"
  by (cases vs) (simp_all add: with_world_def lift_svr_def Server_NodeAddr_def)

lemma handler_held:
  assumes "cmu (cm (svr m))"
  shows "keeps_svr (svr m) (master_handler get q h c (m, w))"
proof (cases h)
  case MHeartbeat
  then show ?thesis
    using assms by (simp add: master_handler_def HeartbeatHandler_def CM_State_def lift_svr_def with_world_def)
next
  case MUploadCallback
  then show ?thesis
    using assms by (simp add: master_handler_def HTTPUploadCallbackServer_def CM_State_def lift_svr_def with_world_def)
next
  case MDebugPrintFS
  then show ?thesis
    by (cases "GetDir ''/'' (gfs m)")
      (auto simp: master_handler_def DebugPrintFS_def lift_fs_def with_world_def split: sum.split option.split)
next
  case MDownload
  then show ?thesis
    using assms
    by (auto simp: master_handler_def MasterDownload_def Let_def intro!: keeps_svr_obind keeps_svr_addr split: sum.split list.split prod.split option.split)
next
  case MUpload
  have "keeps_svr (svr m) (AddUpload draws get path (m, w))" for draws get path
    by (auto simp: AddUpload_def AddUpload_locked_def set_umu_def Let_def split: option.split prod.split)
  with MUpload show ?thesis
    by (auto simp: master_handler_def MasterRequestUpload_def intro!: keeps_svr_obind split: sum.split)
next
  case MDelete
  then show ?thesis
    using assms
    by (auto simp: master_handler_def MasterDelete_def Let_def intro!: keeps_svr_obind delete_hosts_held split: sum.split)
qed

lemma request_held: "cmu (cm (svr m)) \<Longrightarrow> svr (fst (final_state (master_serve get q meth path (m, w)))) = svr m"
  using master_dispatch.every_request[of "keeps_svr (svr m)" get q "(m, w)" meth path] handler_held
  by (fastforce simp: keeps_svr_def)

section \<open>Runs\<close>

text \<open>The world behind the HTTP client is a number, which can count the calls: any sequence of answers is possible.\<close>

inductive master_reachable :: "master \<Rightarrow> bool" where
  start: "master_reachable \<lparr> svr = blank_server rnd addr, upm = newUploadManager, gfs = NewFS \<rparr>"
| request: "master_reachable m \<Longrightarrow> request_ok q m \<Longrightarrow>
    master_reachable (fst (final_state (master_serve (get :: nat \<Rightarrow> string \<Rightarrow> nat \<times> http_reply) q meth path (m, w))))"
| consensus: "master_reachable m \<Longrightarrow> server_step (svr m) s \<Longrightarrow> master_reachable (m\<lparr> svr := s \<rparr>)"

lemma served_final: "served r \<Longrightarrow> master_inv (fst (final_state r))"
  by (cases r) auto

lemma master_reachable_inv: "master_reachable m \<Longrightarrow> cmu (cm (svr m)) \<or> master_inv m"
proof (induction rule: master_reachable.induct)
  case (start rnd addr)
  then show ?case
    by (simp add: master_inv_def um_free_def newUploadManager_def NewFS_inv blank_server_def NewConsensusModule_def)
next
  case (request m q get meth path w)
  then show ?case using request_held[of m get q meth path w] served_final[OF request_served[of m q get meth path w]] by auto
next
  case (consensus m s)
  then show ?case using server_step_held by (auto intro!: master_inv_cong[of m] simp: master_inv_def um_free_def)
qed

text \<open>C4. Whatever clients, nodes and the other masters do, the master's namespace and upload table stay sound, and it serves its
  clients as long as no step of the consensus module has left the consensus mutex held: after any sequence of
  requests with canonical paths, any answers of the nodes and any steps of the consensus module in between, if the consensus mutex is free,
  then the namespace is well-formed and its locks and the upload mutex are free, every registered upload has a canonical path, and the next request does not
  wait for ever (it is answered, or its handler panics, which ends its connection only) and leaves the consensus mutex and
  the upload mutex free and the namespace well-formed.\<close>
theorem requests_keep_master:
  assumes "master_reachable m" "\<not> cmu (cm (svr m))" "request_ok q m"
  shows "fs_inv (gfs m) \<and> \<not> umu (upm m) \<and> (\<forall>i u. uploads (upm m) i = Some u \<longrightarrow> canonical (upPath u)) \<and>
    (\<exists>m' w'. ((\<exists>c. master_serve get q meth path (m, w) = Ret (m', w') c) \<or> master_serve get q meth path (m, w) = Panic (m', w')) \<and>
      \<not> cmu (cm (svr m')) \<and> \<not> umu (upm m') \<and> fs_inv (gfs m'))"
proof -
  have inv: "master_inv m" using master_reachable_inv[OF assms(1)] assms(2) by blast
  have "served (master_serve get q meth path (m, w))" by (rule request_served[OF inv assms(3)])
  then show ?thesis using master_invD[OF inv] by (cases "master_serve get q meth path (m, w)") (auto dest: master_invD)
qed

theorem requests_keep_master_witness:
  "\<exists>m' w'. ((\<exists>c. master_serve (\<lambda>w u. (w, NetError)) (path_request (\<lambda>_. ''i'') ''/a/b'') ''GET'' ''/api/sdfs/upload''
      (\<lparr> svr = blank_server 1 ''m'', upm = newUploadManager, gfs = NewFS \<rparr>, 0 :: nat) = Ret (m', w') c) \<or>
    master_serve (\<lambda>w u. (w, NetError)) (path_request (\<lambda>_. ''i'') ''/a/b'') ''GET'' ''/api/sdfs/upload''
      (\<lparr> svr = blank_server 1 ''m'', upm = newUploadManager, gfs = NewFS \<rparr>, 0 :: nat) = Panic (m', w')) \<and> fs_inv (gfs m')"
proof -
  let ?m = "\<lparr> svr = blank_server 1 ''m'', upm = newUploadManager, gfs = NewFS \<rparr>" and ?q = "path_request (\<lambda>_. ''i'') ''/a/b''"
  have "master_reachable ?m" by (rule master_reachable.start)
  moreover have "\<not> cmu (cm (svr ?m))" by (simp add: blank_server_def NewConsensusModule_def)
  moreover have "request_ok ?q ?m"
    using Query_path[of "''/a/b''"] canonical_examples(1)
    by (simp add: request_ok_def path_request_def token_def plain_query_def newUploadManager_def NewFS_inv)
  ultimately show ?thesis
    using requests_keep_master[of ?m ?q "\<lambda>w u. (w, NetError)" "''GET''" "''/api/sdfs/upload''" "0 :: nat"] by blast
qed

end
