(* ===== verification/NodeProc.thy ===== *)
theory NodeProc
  imports System
begin

text \<open>
  \<open>node/node.go\<close>: the storage node process, that is the start of a node and its heartbeats, and
  \<open>master/master.go\<close>, the start of a master.

  The package variable \<open>HS\<close> of \<open>node.go\<close> is an argument of \<open>NewNode\<close>.  It is not the store \<open>sdfs.Hs\<close> that the
  handlers of the router use.  The entries \<open>filepath.WalkDir\<close> visits in the data directory (the directory itself
  first) and the measurements of a heartbeat are arguments.
\<close>

section \<open>Start\<close>

datatype walk_entry = WalkError | WalkEntry string i64

fun LoadHS :: "walk_entry list \<Rightarrow> hash_store \<Rightarrow> hash_store" where
  "LoadHS [] h = h"
| "LoadHS (WalkError # es) h = h"
| "LoadHS (WalkEntry name sz # es) h = LoadHS es (AddLocal name sz h)"

record node_proc =
  npRouter :: router
  npPort :: string
  npHS :: hash_store
  npAddr :: string

definition NewNode :: "string \<Rightarrow> string \<Rightarrow> string \<Rightarrow> walk_entry list \<Rightarrow> hash_store option \<Rightarrow> node_proc" where
  "NewNode port masterAddr addr visited g =
     (let h = (case g of None \<Rightarrow> NewHashStore | Some h \<Rightarrow> h) in
      \<lparr> npRouter = NewRouter masterAddr (addr @ '':'' @ port), npPort = port, npHS = LoadHS visited h, npAddr = addr \<rparr>)"

section \<open>Heartbeats\<close>

text \<open>The memory in use, the free disk space and the CPU load.\<close>

record measured =
  mMemory :: u64
  mDisk :: i64
  mCPU :: u64

definition heartbeat_of :: "node_proc \<Rightarrow> measured \<Rightarrow> heartbeat" where
  "heartbeat_of n p = \<lparr> hbHost = npAddr n @ '':'' @ npPort n, hbCPU = mCPU p, hbSize = GetSize (npHS n),
     hbMemory = mMemory p, hbDisk = mDisk p \<rparr>"

text \<open>\<open>probe i\<close> is the \<open>i\<close>-th measurement, \<open>None\<close> if it (or the encoding of its numbers) fails.  A redirect sends the
  heartbeat to the text of the answer as it is.  The result says whether no error is returned.\<close>

partial_function (option) SendHeartbeat ::
  "('w \<Rightarrow> string \<Rightarrow> heartbeat \<Rightarrow> 'w \<times> http_reply) \<Rightarrow> (nat \<Rightarrow> measured option) \<Rightarrow> node_proc \<Rightarrow> nat \<Rightarrow> string \<Rightarrow> 'w \<Rightarrow> ('w \<times> bool) option" where
  "SendHeartbeat post probe n i url w = (case probe i of
       None \<Rightarrow> Some (w, False)
     | Some p \<Rightarrow> (case post w url (heartbeat_of n p) of (w1, rep) \<Rightarrow> (case rep of
           NetError \<Rightarrow> Some (w1, False)
         | Broken st \<Rightarrow> Some (w1, st \<noteq> 307)
         | Reply st u \<Rightarrow> if st = 307 then SendHeartbeat post probe n (Suc i) u w1 else Some (w1, True))))"

text \<open>\<open>StartHeartbeat\<close> sends to this URL once a second; it is computed once, and errors are only logged.  The loop is run for as many
  ticks as there are elements of the list, each with the measurements of its tick.\<close>

definition heartbeat_url :: "node_proc \<Rightarrow> string" where
  "heartbeat_url n = URLSDFSScheme @ MasterAddr (npRouter n) @ URLSDFSHeartbeat"

fun StartHeartbeat ::
  "('w \<Rightarrow> string \<Rightarrow> heartbeat \<Rightarrow> 'w \<times> http_reply) \<Rightarrow> node_proc \<Rightarrow> (nat \<Rightarrow> measured option) list \<Rightarrow> 'w \<Rightarrow> 'w option" where
  "StartHeartbeat post n [] w = Some w"
| "StartHeartbeat post n (probe # ticks) w =
     (case SendHeartbeat post probe n 0 (heartbeat_url n) w of
        None \<Rightarrow> None
      | Some (w1, ok) \<Rightarrow> StartHeartbeat post n ticks w1)"

text \<open>\<open>Start\<close> listens on the port of the node and sends heartbeats beside: the two addresses.\<close>

definition Node_Start :: "node_proc \<Rightarrow> string \<times> string" where
  "Node_Start n = ('':'' @ npPort n, heartbeat_url n)"

section \<open>The master process\<close>

record master_proc =
  mpListen :: string
  mpServer :: server

definition NewMaster ::
  "string \<Rightarrow> string \<Rightarrow> string \<Rightarrow> ns_env \<Rightarrow> server option \<Rightarrow> (server option, ns_error + master_proc) outcome" where
  "NewMaster listenAddr connect addr env raft =
     obind (NewServer RaftRPCListenPort connect addr env raft) (\<lambda>g r. case r of
         Inl e \<Rightarrow> Ret g (Inl e)
       | Inr s \<Rightarrow> Ret g (Inr \<lparr> mpListen = listenAddr, mpServer = s \<rparr>))"

definition Master_Start :: "master_proc \<Rightarrow> string" where
  "Master_Start m = mpListen m"

section \<open>Properties\<close>

lemma GetSize_LoadHS: "GetSize (LoadHS visited h) = GetSize h"
  by (induction visited h rule: LoadHS.induct) (simp_all add: AddLocal_def GetSize_def)

lemma LoadHS_keeps: "hs_s h k \<noteq> None \<Longrightarrow> hs_s (LoadHS visited h) k \<noteq> None"
  by (induction visited h rule: LoadHS.induct) (auto simp: AddLocal_def)

lemma LoadHS_loads:
  "WalkError \<notin> set visited \<Longrightarrow> WalkEntry k z \<in> set visited \<Longrightarrow> hs_s (LoadHS visited h) k \<noteq> None"
proof (induction visited h rule: LoadHS.induct)
  case (3 name sz es h)
  then show ?case using LoadHS_keeps[of "AddLocal name sz h" k es] by (auto simp: AddLocal_def)
qed auto

text \<open>A restarted node has lost its files: it loads every file of its data directory into a store of its own,
  but its handlers look into another, empty store, so that the download of a link to such a file fails with 500
  and so does its deletion; and its heartbeats report the size 0, whatever it holds.\<close>
theorem restart_loses_files:
  assumes "WalkError \<notin> set visited" "WalkEntry k z \<in> set visited" "k \<noteq> []" "link_ready t rnd s" "hs s = NewHashStore"
  shows "hs_s (npHS (NewNode port m a visited None)) k \<noteq> None \<and>
    hbSize (heartbeat_of (NewNode port m a visited None) p) = 0 \<and>
    NR_Delete k c s = Ret s (String 500 ''Internal Server Error: sdfs error'' c) \<and>
    (\<exists>s1 s2 c2. NR_AddDownload t rnd k name start_ctx s = Ret s1 (String 200 rnd start_ctx) \<and>
       NR_Download rnd [] start_ctx s1 = Ret s2 c2 \<and> sentStatus c2 = Some 500)"
proof -
  have none: "hs_s (hs s) k = None" using assms(5) by (simp add: NewHashStore_def)
  have "hs_s (npHS (NewNode port m a visited None)) k \<noteq> None"
    using LoadHS_loads[OF assms(1,2)] by (simp add: NewNode_def)
  moreover have "hbSize (heartbeat_of (NewNode port m a visited None) p) = 0"
    by (simp add: heartbeat_of_def NewNode_def GetSize_LoadHS) (simp add: GetSize_def NewHashStore_def)
  moreover have "NR_Delete k c s = Ret s (String 500 ''Internal Server Error: sdfs error'' c)"
    using none assms(3) by (simp add: NR_Delete_def HS_Remove_def)
  ultimately show ?thesis using link_ready_Add[OF assms(4)] link_to_unknown[OF assms(4) none] by blast
qed

theorem restart_loses_files_witness:
  "hs_s (npHS (NewNode ''1'' ''m'' ''n'' [WalkEntry ''data'' 4096, WalkEntry ''k'' 5] None)) ''k'' \<noteq> None \<and>
   NR_Delete ''k'' NewContext \<lparr> rt = NewRouter ''m'' ''n:1'', hs = NewHashStore \<rparr> =
     Ret \<lparr> rt = NewRouter ''m'' ''n:1'', hs = NewHashStore \<rparr> (String 500 ''Internal Server Error: sdfs error'' NewContext)"
proof -
  have "link_ready 0 ''abcdefgh'' \<lparr> rt = NewRouter ''m'' ''n:1'', hs = NewHashStore \<rparr>"
    by (simp add: link_ready_def rt_free_def overrun_def NewRouter_def links_ok_def)
  from restart_loses_files[OF _ _ _ this, of "[WalkEntry ''data'' 4096, WalkEntry ''k'' 5]" "''k''" 5 "''1''" "''m''" "''n''" _ NewContext]
  show ?thesis by simp
qed

section \<open>Heartbeats at a master\<close>

text \<open>The master at the address \<open>maddr\<close>; nothing else is listening.\<close>

definition master_heartbeat :: "string \<Rightarrow> i32 \<Rightarrow> i32 \<Rightarrow> master \<Rightarrow> string \<Rightarrow> heartbeat \<Rightarrow> master \<times> http_reply" where
  "master_heartbeat maddr r1 r2 m url hb =
     (if url = URLSDFSScheme @ maddr @ ''/api/sdfs/heartbeat''
      then answer (HeartbeatHandler r1 r2 (HBody hb) start_ctx m) else (m, NetError))"

text \<open>A heartbeat at the leader is one \<open>UpdateNode\<close>.\<close>

lemma heartbeat_at_leader:
  assumes "\<not> cmu (cm (svr m))" "cmState (cm (svr m)) = LEADER" "probe 0 = Some p"
    and "UpdateNode (npAddr n @ '':'' @ npPort n) (mCPU p) (mMemory p) (GetSize (npHS n)) (mDisk p) r1 r2 m = Ret m' ([], False)"
  shows "SendHeartbeat (master_heartbeat (MasterAddr (npRouter n)) r1 r2) probe n 0 (heartbeat_url n) m = Some (m', True)"
proof -
  have m: "m\<lparr> svr := svr m \<rparr> = m" by (cases m) simp
  have "HeartbeatHandler r1 r2 (HBody (heartbeat_of n p)) start_ctx m = Ret m' (String 200 ''Success'' start_ctx)"
    using assms by (simp add: HeartbeatHandler_def CM_State_def lift_svr_def m heartbeat_of_def)
  then have "master_heartbeat (MasterAddr (npRouter n)) r1 r2 m (heartbeat_url n) (heartbeat_of n p) = (m', Reply 200 ''Success'')"
    unfolding master_heartbeat_def heartbeat_url_def by (simp add: answer_String)
  then show ?thesis using assms(3) by (subst SendHeartbeat.simps) simp
qed

text \<open>Heartbeats work with the leader only: the first heartbeat of a node to a leader registers it with its
  address and free space and puts it into the upload queue.  A follower redirects the node to the
  address of the leader, but without the scheme and the path that make it a URL of a heartbeat: the heartbeat fails, the master is
  unchanged, and the next one goes to the same follower again.\<close>
theorem heartbeat_needs_the_leader:
  assumes "um_free m" "probe 0 = Some p" "probe 1 \<noteq> None" "queue_ok m" "nodeAddr (svr m) (npAddr n @ '':'' @ npPort n) = None"
    and "\<forall>l a. peerAddr (svr m) l = Some a \<longrightarrow> take 7 a \<noteq> URLSDFSScheme"
  shows "if cmState (cm (svr m)) = LEADER
    then \<exists>m' r. SendHeartbeat (master_heartbeat (MasterAddr (npRouter n)) r1 r2) probe n 0 (heartbeat_url n) m = Some (m', True) \<and>
      nodeAddr (svr m') (npAddr n @ '':'' @ npPort n) = Some r \<and> Disk (nodeObjs (svr m') ! r) = mDisk p \<and>
      mset (items (uploadNodes (upm m'))) = add_mset r (mset (items (uploadNodes (upm m)))) \<and> queue_ok m'
    else SendHeartbeat (master_heartbeat (MasterAddr (npRouter n)) r1 r2) probe n 0 (heartbeat_url n) m = Some (m, False)"
proof -
  let ?post = "master_heartbeat (MasterAddr (npRouter n)) r1 r2" and ?addr = "npAddr n @ '':'' @ npPort n"
  have m: "m\<lparr> svr := svr m \<rparr> = m" by (cases m) simp
  have mu: "\<not> cmu (cm (svr m))" using assms(1) by (simp add: um_free_def)
  show ?thesis
  proof (cases "cmState (cm (svr m)) = LEADER")
    case True
    obtain m' r where u: "UpdateNode ?addr (mCPU p) (mMemory p) (GetSize (npHS n)) (mDisk p) r1 r2 m = Ret m' ([], False)"
      "nodeAddr (svr m') ?addr = Some r" "Disk (nodeObjs (svr m') ! r) = mDisk p"
      "mset (items (uploadNodes (upm m'))) = add_mset r (mset (items (uploadNodes (upm m))))" "queue_ok m'"
      using UpdateNode_new[OF assms(1) True assms(5,4)] by blast
    have "SendHeartbeat ?post probe n 0 (heartbeat_url n) m = Some (m', True)"
      by (rule heartbeat_at_leader[where n = n and probe = probe, OF mu True assms(2) u(1)])
    with True u show ?thesis by auto
  next
    case False
    let ?a = "case peerAddr (svr m) (currentLeader (cm (svr m))) of Some a \<Rightarrow> a | None \<Rightarrow> []"
    have "HeartbeatHandler r1 r2 (HBody (heartbeat_of n p)) start_ctx m = Ret m (String 307 ?a start_ctx)"
      using mu False by (simp add: HeartbeatHandler_def CM_State_def CurrentLeader_def PeerAddr_def lift_svr_def m)
    then have first: "?post m (heartbeat_url n) (heartbeat_of n p) = (m, Reply 307 ?a)"
      unfolding master_heartbeat_def heartbeat_url_def by (simp add: answer_String)
    have "take 7 ?a \<noteq> URLSDFSScheme" using assms(6) by (auto simp: URLSDFSScheme_def split: option.split)
    then have "?a \<noteq> URLSDFSScheme @ MasterAddr (npRouter n) @ ''/api/sdfs/heartbeat''" by (auto simp: URLSDFSScheme_def)
    then have "?post m ?a hb = (m, NetError)" for hb by (simp add: master_heartbeat_def)
    then have "SendHeartbeat ?post probe n 1 ?a m = Some (m, False)"
      by (subst SendHeartbeat.simps) (auto split: option.split)
    with first assms(2) have "SendHeartbeat ?post probe n 0 (heartbeat_url n) m = Some (m, False)"
      by (subst SendHeartbeat.simps) simp
    with False show ?thesis by simp
  qed
qed

theorem heartbeat_needs_the_leader_witness:
  "\<exists>m' r. SendHeartbeat (master_heartbeat ''m'' 7 8) (\<lambda>_. Some \<lparr> mMemory = 0, mDisk = 500, mCPU = 0 \<rparr>)
       (NewNode ''1'' ''m'' ''n'' [] None) 0 ''http://m/api/sdfs/heartbeat'' leader_master = Some (m', True) \<and>
     nodeAddr (svr m') ''n:1'' = Some r \<and> Disk (nodeObjs (svr m') ! r) = 500"
proof -
  let ?n = "NewNode ''1'' ''m'' ''n'' [] None" and ?p = "\<lparr> mMemory = 0, mDisk = 500, mCPU = 0 \<rparr>"
  have n: "npAddr ?n @ '':'' @ npPort ?n = ''n:1''" "MasterAddr (npRouter ?n) = ''m''"
    "heartbeat_url ?n = ''http://m/api/sdfs/heartbeat''"
    by (simp_all add: NewNode_def NewRouter_def heartbeat_url_def URLSDFSScheme_def)
  have peers: "\<forall>l a. peerAddr (svr leader_master) l = Some a \<longrightarrow> take 7 a \<noteq> URLSDFSScheme"
    by (simp add: leader_master_def fresh_server_def)
  from heartbeat_needs_the_leader[of leader_master "\<lambda>_. Some ?p" ?p ?n 7 8, OF leader_master_ok(1) _ _
      leader_master_ok(4) leader_master_ok(3) peers] leader_master_ok(2)
  show ?thesis unfolding n by auto
qed

section \<open>A node at work\<close>

text \<open>The measurements that succeed, one per tick.\<close>

definition measures :: "(nat \<Rightarrow> measured option) list \<Rightarrow> measured list" where
  "measures ticks = concat (map (\<lambda>probe. case probe 0 of None \<Rightarrow> [] | Some p \<Rightarrow> [p]) ticks)"

text \<open>The node at \<open>addr\<close> has the object \<open>r\<close> with the free space \<open>d\<close>, and \<open>q\<close> are the queued nodes.\<close>

definition on_duty :: "string \<Rightarrow> nat \<Rightarrow> i64 \<Rightarrow> nat multiset \<Rightarrow> master \<Rightarrow> bool" where
  "on_duty addr r d q m \<longleftrightarrow> \<not> cmu (cm (svr m)) \<and> cmState (cm (svr m)) = LEADER \<and> nodeAddr (svr m) addr = Some r \<and>
     r < length (nodeObjs (svr m)) \<and> Disk (nodeObjs (svr m) ! r) = d \<and> mset (items (uploadNodes (upm m))) = q"

lemma UpdateNode_known:
  assumes "on_duty addr r d q m"
  obtains m' where "UpdateNode addr cpu memory sz d' r1 r2 m = Ret m' ([], False)" "on_duty addr r d' q m'"
    "cmLog (cm (svr m')) = cmLog (cm (svr m))"
proof -
  let ?s = "svr m"
  let ?s' = "?s\<lparr> nodeObjs := (nodeObjs ?s)[r := (nodeObjs ?s ! r)\<lparr> CpuUsage := cpu, MemUsage := memory, nSize := sz, Disk := d' \<rparr>] \<rparr>"
  have "UpdateNode addr cpu memory sz d' r1 r2 m = Ret (m\<lparr> svr := ?s' \<rparr>) ([], False)"
    using assms by (simp add: on_duty_def UpdateNode_def UpdateNode_local_def lift_svr_def)
  then show thesis by (rule that) (use assms in \<open>simp_all add: on_duty_def\<close>)
qed

lemma heartbeats_on_duty:
  assumes "on_duty (npAddr n @ '':'' @ npPort n) r d q m"
  shows "\<exists>m'. StartHeartbeat (master_heartbeat (MasterAddr (npRouter n)) r1 r2) n ticks m = Some m' \<and>
    on_duty (npAddr n @ '':'' @ npPort n) r (last (d # map mDisk (measures ticks))) q m' \<and> cmLog (cm (svr m')) = cmLog (cm (svr m))"
  using assms
proof (induction ticks arbitrary: d m)
  case (Cons probe ticks)
  show ?case
  proof (cases "probe 0")
    case None
    then have "SendHeartbeat (master_heartbeat (MasterAddr (npRouter n)) r1 r2) probe n 0 (heartbeat_url n) m = Some (m, False)"
      by (subst SendHeartbeat.simps) simp
    with Cons None show ?thesis by (simp add: measures_def)
  next
    case (Some p)
    obtain m1 where m1: "UpdateNode (npAddr n @ '':'' @ npPort n) (mCPU p) (mMemory p) (GetSize (npHS n)) (mDisk p) r1 r2 m = Ret m1 ([], False)"
      "on_duty (npAddr n @ '':'' @ npPort n) r (mDisk p) q m1" "cmLog (cm (svr m1)) = cmLog (cm (svr m))"
      by (rule UpdateNode_known[OF Cons.prems])
    have "SendHeartbeat (master_heartbeat (MasterAddr (npRouter n)) r1 r2) probe n 0 (heartbeat_url n) m = Some (m1, True)"
      using Cons.prems by (intro heartbeat_at_leader[where n = n and probe = probe, OF _ _ Some m1(1)]) (simp_all add: on_duty_def)
    with Cons.IH[OF m1(2)] m1(3) Some show ?thesis by (simp add: measures_def)
  qed
qed (simp add: measures_def)

text \<open>C18. A node that runs becomes and stays available, provided that its own master leads and does not know it yet, and that
  the network delivers its reports: whatever measurements fail, once one succeeds the node is registered at that master with
  the free space it measured last, and it stands in the upload queue exactly once, however often it reports.\<close>
theorem heartbeats_register_once:
  assumes "um_free m" "queue_ok m" "cmState (cm (svr m)) = LEADER" "nodeAddr (svr m) (npAddr n @ '':'' @ npPort n) = None"
    and "measures ticks \<noteq> []"
  shows "\<exists>m' r. StartHeartbeat (master_heartbeat (MasterAddr (npRouter n)) r1 r2) n ticks m = Some m' \<and>
    nodeAddr (svr m') (npAddr n @ '':'' @ npPort n) = Some r \<and> Disk (nodeObjs (svr m') ! r) = mDisk (last (measures ticks)) \<and>
    mset (items (uploadNodes (upm m'))) = add_mset r (mset (items (uploadNodes (upm m))))"
  using assms(5)
proof (induction ticks)
  case (Cons probe ticks)
  let ?post = "master_heartbeat (MasterAddr (npRouter n)) r1 r2" and ?a = "npAddr n @ '':'' @ npPort n"
  show ?case
  proof (cases "probe 0")
    case None
    then have "SendHeartbeat ?post probe n 0 (heartbeat_url n) m = Some (m, False)" by (subst SendHeartbeat.simps) simp
    with Cons None show ?thesis by (simp add: measures_def)
  next
    case (Some p)
    have mu: "\<not> cmu (cm (svr m))" using assms(1) by (simp add: um_free_def)
    obtain m1 r where u: "UpdateNode ?a (mCPU p) (mMemory p) (GetSize (npHS n)) (mDisk p) r1 r2 m = Ret m1 ([], False)"
      "nodeAddr (svr m1) ?a = Some r" "Disk (nodeObjs (svr m1) ! r) = mDisk p" "queue_ok m1" "um_free m1"
      "mset (items (uploadNodes (upm m1))) = add_mset r (mset (items (uploadNodes (upm m))))" "cmState (cm (svr m1)) = LEADER"
      using UpdateNode_new[OF assms(1,3,4,2)] by blast
    have "r \<in> set (items (uploadNodes (upm m1)))" using arg_cong[OF u(6), of set_mset] by simp
    then have "on_duty ?a r (mDisk p) (add_mset r (mset (items (uploadNodes (upm m))))) m1"
      using u by (simp add: on_duty_def um_free_def queue_ok_def)
    from heartbeats_on_duty[OF this, of r1 r2 ticks] heartbeat_at_leader[where n = n and probe = probe, OF mu assms(3) Some u(1)] Some
    show ?thesis by (auto simp: on_duty_def measures_def last_map split: if_splits)
  qed
qed (simp add: measures_def)

theorem heartbeats_register_once_witness:
  "\<exists>m' r. StartHeartbeat (master_heartbeat ''m'' 7 8) (NewNode ''1'' ''m'' ''n'' [] None)
      [\<lambda>_. None, \<lambda>_. Some \<lparr> mMemory = 0, mDisk = 500, mCPU = 0 \<rparr>, \<lambda>_. Some \<lparr> mMemory = 0, mDisk = 400, mCPU = 0 \<rparr>]
      leader_master = Some m' \<and>
    nodeAddr (svr m') ''n:1'' = Some r \<and> Disk (nodeObjs (svr m') ! r) = 400 \<and> mset (items (uploadNodes (upm m'))) = {#r#}"
proof -
  let ?n = "NewNode ''1'' ''m'' ''n'' [] None"
  have n: "npAddr ?n @ '':'' @ npPort ?n = ''n:1''" "MasterAddr (npRouter ?n) = ''m''"
    by (simp_all add: NewNode_def NewRouter_def)
  from heartbeats_register_once[OF leader_master_ok(1,4,2), of ?n
      "[\<lambda>_. None, \<lambda>_. Some \<lparr> mMemory = 0, mDisk = 500, mCPU = 0 \<rparr>, \<lambda>_. Some \<lparr> mMemory = 0, mDisk = 400, mCPU = 0 \<rparr>]" 7 8]
  show ?thesis unfolding n by (simp add: leader_master_ok(3,8) measures_def)
qed

end
