(* ===== verification/Commands.thy ===== *)
theory Commands
  imports NodeProc
begin

text \<open>
  \<open>cmd/master\<close> and \<open>cmd/node\<close>: the flags of the two programs and what they start.  \<open>flag.Parse\<close> is modelled for string flags:
  one or two dashes, the value behind an equals sign or in the next argument, the end of the flags at \<open>--\<close> or at the first other
  argument, and the exit of the process with status 2 on an error and 0 on a request for help.
\<close>

section \<open>Flags\<close>

datatype flag_error = BadSyntax string | NotDefined string | NeedsArgument string | HelpWanted

text \<open>\<open>name=value\<close>, where the equals sign cannot be first.\<close>

definition cut_value :: "string \<Rightarrow> string \<times> string option" where
  "cut_value s = (let rest = dropWhile (\<lambda>c. c \<noteq> CHR ''='') (tl s) in
     if rest = [] then (s, None) else (hd s # takeWhile (\<lambda>c. c \<noteq> CHR ''='') (tl s), Some (tl rest)))"

fun parse_flags :: "(string \<rightharpoonup> string) \<Rightarrow> string list \<Rightarrow> flag_error + (string \<rightharpoonup> string)" where
  "parse_flags fl [] = Inr fl"
| "parse_flags fl (s # args) =
     (if length s < 2 \<or> hd s \<noteq> CHR ''-'' \<or> s = ''--'' then Inr fl
      else
        let arg = (if s ! 1 = CHR ''-'' then drop 2 s else drop 1 s) in
        if arg = [] \<or> hd arg = CHR ''-'' \<or> hd arg = CHR ''='' then Inl (BadSyntax s)
        else case cut_value arg of (name, val) \<Rightarrow>
          if fl name = None then Inl (if name = ''help'' \<or> name = ''h'' then HelpWanted else NotDefined name)
          else case val of
            Some v \<Rightarrow> parse_flags (fl(name \<mapsto> v)) args
          | None \<Rightarrow> (case args of
                [] \<Rightarrow> Inl (NeedsArgument name)
              | v # args' \<Rightarrow> parse_flags (fl(name \<mapsto> v)) args'))"

definition exit_status :: "flag_error \<Rightarrow> nat" where
  "exit_status e = (if e = HelpWanted then 0 else 2)"

section \<open>The programs\<close>

text \<open>A program ends or listens on an address.\<close>

datatype 'p program = Exited nat | Serving string 'p

definition node_flags :: "string \<rightharpoonup> string" where
  "node_flags = [''m'' \<mapsto> '''', ''a'' \<mapsto> '''', ''p'' \<mapsto> ''8080'']"

definition node_main :: "string list \<Rightarrow> walk_entry list \<Rightarrow> hash_store option \<Rightarrow> loggers \<Rightarrow> loggers \<times> node_proc program" where
  "node_main args visited g l = (case parse_flags node_flags args of
       Inl e \<Rightarrow> (l, Exited (exit_status e))
     | Inr fl \<Rightarrow>
         let n = NewNode (the (fl ''p'')) (the (fl ''m'')) (the (fl ''a'')) visited g in
         (SetLevel DEBUG l, Serving (fst (Node_Start n)) n))"

definition master_flags :: "string \<rightharpoonup> string" where
  "master_flags = [''c'' \<mapsto> '''', ''l'' \<mapsto> '':8080'', ''a'' \<mapsto> '''']"

text \<open>An error of \<open>NewMaster\<close> is logged and the program returns.\<close>

definition master_main ::
  "string list \<Rightarrow> ns_env \<Rightarrow> server option \<Rightarrow> loggers \<Rightarrow> loggers \<times> (server option, master_proc program) outcome" where
  "master_main args env raft l = (SetLevel INFO l,
     (case parse_flags master_flags args of
        Inl e \<Rightarrow> Ret raft (Exited (exit_status e))
      | Inr fl \<Rightarrow>
          obind (NewMaster (the (fl ''l'')) (the (fl ''c'')) (the (fl ''a'')) env raft) (\<lambda>g r. case r of
              Inl e \<Rightarrow> Ret g (Exited 0)
            | Inr m \<Rightarrow> Ret g (Serving (Master_Start m) m))))"

section \<open>Settings on the command line\<close>

text \<open>A setting with the way it is written.\<close>

record setting =
  sName :: string
  sValue :: string
  sTwoDashes :: bool
  sEquals :: bool

definition written :: "setting \<Rightarrow> string list" where
  "written s = (let dash = (if sTwoDashes s then ''--'' else ''-'') in
     if sEquals s then [dash @ sName s @ ''='' @ sValue s] else [dash @ sName s, sValue s])"

definition apply_settings :: "setting list \<Rightarrow> (string \<rightharpoonup> string) \<Rightarrow> (string \<rightharpoonup> string)" where
  "apply_settings ss fl = fold (\<lambda>s fl. fl(sName s \<mapsto> sValue s)) ss fl"

definition plain_name :: "string \<Rightarrow> bool" where
  "plain_name n \<longleftrightarrow> n \<noteq> [] \<and> hd n \<noteq> CHR ''-'' \<and> CHR ''='' \<notin> set n"

lemma cut_value_written:
  assumes "plain_name n"
  shows "cut_value (n @ CHR ''='' # v) = (n, Some v)" "cut_value n = (n, None)"
proof -
  obtain c cs where n: "n = c # cs" "\<And>x. x \<in> set cs \<Longrightarrow> x \<noteq> CHR ''=''" using assms by (cases n) (auto simp: plain_name_def)
  have "dropWhile (\<lambda>c. c \<noteq> CHR ''='') cs = []" "dropWhile (\<lambda>c. c \<noteq> CHR ''='') (cs @ CHR ''='' # v) = CHR ''='' # v"
    "takeWhile (\<lambda>c. c \<noteq> CHR ''='') (cs @ CHR ''='' # v) = cs"
    using n(2) by (simp_all add: dropWhile_append2 takeWhile_append2)
  then show "cut_value (n @ CHR ''='' # v) = (n, Some v)" "cut_value n = (n, None)"
    by (simp_all add: cut_value_def n(1))
qed

lemma parse_written:
  assumes "plain_name (sName s)" "fl (sName s) \<noteq> None"
  shows "parse_flags fl (written s @ args) = parse_flags (fl(sName s \<mapsto> sValue s)) args"
proof -
  obtain c cs where n: "sName s = c # cs" "c \<noteq> CHR ''-''" "c \<noteq> CHR ''=''"
    using assms(1) by (cases "sName s") (auto simp: plain_name_def)
  show ?thesis
    using n assms(2)[unfolded n(1)] cut_value_written[OF assms(1)]
    by (cases "fl (c # cs)"; cases "sTwoDashes s"; cases "sEquals s") (simp_all add: written_def Let_def)
qed

text \<open>However the settings are written, each flag has its last value.\<close>

lemma parse_settings:
  assumes "\<forall>s \<in> set ss. plain_name (sName s) \<and> fl (sName s) \<noteq> None"
  shows "parse_flags fl (concat (map written ss)) = Inr (apply_settings ss fl)"
  using assms
proof (induction ss arbitrary: fl)
  case (Cons s ss)
  then show ?case by (simp add: parse_written apply_settings_def)
qed (simp add: apply_settings_def)

lemma apply_settings_other: "n \<notin> sName ` set ss \<Longrightarrow> apply_settings ss fl n = fl n"
  by (induction ss arbitrary: fl) (simp_all add: apply_settings_def)

text \<open>The value of a flag: that of the last setting with its name, or the default.\<close>

definition flag_value :: "setting list \<Rightarrow> string \<Rightarrow> string \<Rightarrow> string" where
  "flag_value ss n d = (case filter (\<lambda>s. sName s = n) (rev ss) of [] \<Rightarrow> d | s # _ \<Rightarrow> sValue s)"

lemma apply_settings_value: "fl n = Some d \<Longrightarrow> apply_settings ss fl n = Some (flag_value ss n d)"
proof (induction ss arbitrary: fl rule: rev_induct)
  case (snoc s ss)
  then show ?case by (auto simp: apply_settings_def flag_value_def)
qed (simp add: apply_settings_def flag_value_def)

text \<open>C39. The flags configure the programs: for any sequence of settings of the flags, written with one or two dashes and with
  the value behind an equals sign or as an argument of its own (whatever the value is), a node is built from the
  last value of each flag or its default and listens on its port, at log level \<open>DEBUG\<close>; and a master is built
  from its flags in the same way at level \<open>INFO\<close>, and ends with status 0 when it cannot be created.\<close>
theorem flags_configure_programs:
  assumes "\<forall>s \<in> set cs. sName s \<in> {''m'', ''a'', ''p''}" "\<forall>s \<in> set ms. sName s \<in> {''c'', ''l'', ''a''}"
  shows "node_main (concat (map written cs)) visited g l =
      (SetLevel DEBUG l, Serving ('':'' @ flag_value cs ''p'' ''8080'')
         (NewNode (flag_value cs ''p'' ''8080'') (flag_value cs ''m'' '''') (flag_value cs ''a'' '''') visited g)) \<and>
    master_main (concat (map written ms)) env raft l =
      (SetLevel INFO l, obind (NewMaster (flag_value ms ''l'' '':8080'') (flag_value ms ''c'' '''') (flag_value ms ''a'' '''') env raft)
         (\<lambda>g r. Ret g (case r of Inl e \<Rightarrow> Exited 0 | Inr m \<Rightarrow> Serving (flag_value ms ''l'' '':8080'') m)))"
proof -
  have "parse_flags node_flags (concat (map written cs)) = Inr (apply_settings cs node_flags)"
    by (rule parse_settings) (use assms(1) in \<open>auto simp: plain_name_def node_flags_def\<close>)
  moreover have "apply_settings cs node_flags ''p'' = Some (flag_value cs ''p'' ''8080'')"
    "apply_settings cs node_flags ''m'' = Some (flag_value cs ''m'' '''')"
    "apply_settings cs node_flags ''a'' = Some (flag_value cs ''a'' '''')"
    by (rule apply_settings_value; simp add: node_flags_def)+
  moreover have "parse_flags master_flags (concat (map written ms)) = Inr (apply_settings ms master_flags)"
    by (rule parse_settings) (use assms(2) in \<open>auto simp: plain_name_def master_flags_def\<close>)
  moreover have "apply_settings ms master_flags ''l'' = Some (flag_value ms ''l'' '':8080'')"
    "apply_settings ms master_flags ''c'' = Some (flag_value ms ''c'' '''')"
    "apply_settings ms master_flags ''a'' = Some (flag_value ms ''a'' '''')"
    by (rule apply_settings_value; simp add: master_flags_def)+
  ultimately show ?thesis
    by (cases "NewServer '':9000'' (flag_value ms ''c'' '''') (flag_value ms ''a'' '''') env raft")
      (auto simp: node_main_def master_main_def NewMaster_def Node_Start_def Master_Start_def NewNode_def Let_def split: sum.split)
qed

theorem flags_configure_programs_witness:
  "node_main [''-m'', ''master:8080'', ''--a=-n'', ''-p=1'', ''--p'', ''-2''] [] None \<lparr> debugLog = False, infoLog = True, errorLog = True \<rparr> =
     (SetLevel DEBUG \<lparr> debugLog = False, infoLog = True, errorLog = True \<rparr>, Serving '':-2'' (NewNode ''-2'' ''master:8080'' ''-n'' [] None)) \<and>
   fst (master_main [] \<lparr> ns_rand = 1, ns_open = True, ns_listen = True, ns_dial = True, ns_reply = None \<rparr> None \<lparr> debugLog = False, infoLog = True, errorLog = True \<rparr>) =
     SetLevel INFO \<lparr> debugLog = False, infoLog = True, errorLog = True \<rparr>"
proof -
  let ?ns = "[\<lparr> sName = ''m'', sValue = ''master:8080'', sTwoDashes = False, sEquals = False \<rparr>,
     \<lparr> sName = ''a'', sValue = ''-n'', sTwoDashes = True, sEquals = True \<rparr>,
     \<lparr> sName = ''p'', sValue = ''1'', sTwoDashes = False, sEquals = True \<rparr>,
     \<lparr> sName = ''p'', sValue = ''-2'', sTwoDashes = True, sEquals = False \<rparr>]"
  have "concat (map written ?ns) = [''-m'', ''master:8080'', ''--a=-n'', ''-p=1'', ''--p'', ''-2'']"
    by (simp add: written_def)
  moreover have "flag_value ?ns ''p'' ''8080'' = ''-2''" "flag_value ?ns ''m'' '''' = ''master:8080''" "flag_value ?ns ''a'' '''' = ''-n''"
    by (simp_all add: flag_value_def)
  ultimately show ?thesis
    using flags_configure_programs[of ?ns "[]" "[]" None "\<lparr> debugLog = False, infoLog = True, errorLog = True \<rparr>"
      "\<lparr> ns_rand = 1, ns_open = True, ns_listen = True, ns_dial = True, ns_reply = None \<rparr>" None] by simp
qed

end
