(* ===== verification/LogCollector.thy ===== *)
theory LogCollector
  imports Prelude
begin

text \<open>
  \<open>pkg/logger/logger.go\<close> and \<open>cmd/logger\<close>: a process that accepts TCP connections and copies what they send to a log file and to
  the standard output.

  The operating system is an argument: whether the address can be listened on and the file be opened, what \<open>Accept\<close> returns, and
  the (non-empty) pieces in which the bytes of a connection arrive.  A descriptor is the flags it was opened with; as in Unix its two lowest
  bits decide whether it can be written.  The standard output takes every write.  When \<open>Accept\<close> has no more results it waits, so
  \<open>Serve\<close> is \<open>Block\<close> there.
\<close>

unbundle bit_operations_syntax

section \<open>Files\<close>

definition O_WRONLY :: u32 where "O_WRONLY = 0x1"
definition O_RDWR :: u32 where "O_RDWR = 0x2"
definition O_CREATE :: u32 where "O_CREATE = 0x40"
definition O_APPEND :: u32 where "O_APPEND = 0x400"

definition can_write :: "u32 \<Rightarrow> bool" where
  "can_write flags \<longleftrightarrow> flags AND 3 = O_WRONLY \<or> flags AND 3 = O_RDWR"

section \<open>The collector\<close>

text \<open>\<open>closeChan\<close> is \<open>None\<close> for the nil channel and otherwise has the number of senders that wait.  \<open>logBytes\<close> is the content of
  the log file, \<open>stdout\<close> what was printed, \<open>handled\<close> the connections a goroutine was started for.\<close>

record logger =
  listenAddr :: string
  lgName :: string
  lgFile :: string
  listening :: bool
  closeChan :: "nat option"
  lgDesc :: "u32 option"
  logBytes :: "byte list"
  stdout :: "byte list"
  handled :: "byte list list list"

datatype accepted_conn = AcceptError | Conn "byte list list"

definition NewLogger :: "string \<Rightarrow> string \<Rightarrow> string \<Rightarrow> byte list \<Rightarrow> logger" where
  "NewLogger addr name filePath onDisk = \<lparr> listenAddr = addr, lgName = name, lgFile = filePath, listening = False,
     closeChan = None, lgDesc = None, logBytes = onDisk, stdout = [], handled = [] \<rparr>"

text \<open>\<open>File.Write\<close> on a descriptor in append mode; \<open>False\<close> is an error, after which nothing is written.\<close>

definition file_write :: "byte list \<Rightarrow> logger \<Rightarrow> logger \<times> bool" where
  "file_write bs l = (case lgDesc l of
       None \<Rightarrow> (l, False)
     | Some flags \<Rightarrow> if can_write flags then (l\<lparr> logBytes := logBytes l @ bs \<rparr>, True) else (l, False))"

text \<open>\<open>io.Copy(os.Stdout, io.TeeReader(conn, l.file))\<close>: every piece goes to the file first, and an error there ends the copy.  The
  second result is what is left in the connection.\<close>

fun handleConn :: "byte list list \<Rightarrow> logger \<Rightarrow> logger \<times> byte list list" where
  "handleConn [] l = (l, [])"
| "handleConn (piece # rest) l =
     (case file_write piece l of
        (l1, False) \<Rightarrow> (l1, rest)
      | (l1, True) \<Rightarrow> handleConn rest (l1\<lparr> stdout := stdout l1 @ piece \<rparr>))"

text \<open>The deferred calls: connections, file and listener are closed.\<close>

definition shut_down :: "logger \<Rightarrow> logger" where
  "shut_down l = l\<lparr> listening := False, lgDesc := None \<rparr>"

text \<open>The endless loop.  A failed \<open>Accept\<close> leaves \<open>conn\<close> nil and \<open>conn.Close\<close> panics.\<close>

fun serve_loop :: "accepted_conn list \<Rightarrow> logger \<Rightarrow> (logger, unit) outcome" where
  "serve_loop acs l =
     (case closeChan l of
        Some (Suc n) \<Rightarrow> Ret (shut_down (l\<lparr> closeChan := Some n \<rparr>)) ()
      | _ \<Rightarrow> (case acs of
           [] \<Rightarrow> Block l
         | AcceptError # _ \<Rightarrow> Panic (shut_down l)
         | Conn c # acs \<Rightarrow> serve_loop acs (l\<lparr> handled := handled l @ [c] \<rparr>)))"

declare serve_loop.simps [simp del]

definition Serve :: "bool \<Rightarrow> bool \<Rightarrow> accepted_conn list \<Rightarrow> logger \<Rightarrow> (logger, unit) outcome" where
  "Serve listen_ok open_ok acs l =
     (if \<not> listen_ok then Ret l ()
      else if \<not> open_ok then Ret (l\<lparr> lgDesc := None \<rparr>) ()
      else
        let l1 = l\<lparr> listening := True, lgDesc := Some (O_APPEND OR O_CREATE) \<rparr>;
            (l2, written) = file_write [0x31, 0x32, 0x33] l1 in
        serve_loop acs l2)"

text \<open>\<open>Close\<close> sends on the channel.  A send on the nil channel waits for ever; on another channel it waits until \<open>Serve\<close>
  looks at the channel.\<close>

definition Close :: "logger \<Rightarrow> (logger, unit) outcome" where
  "Close l = (case closeChan l of None \<Rightarrow> Block l | Some n \<Rightarrow> Block (l\<lparr> closeChan := Some (Suc n) \<rparr>))"

definition logger_main :: "bool \<Rightarrow> bool \<Rightarrow> accepted_conn list \<Rightarrow> byte list \<Rightarrow> (logger, unit) outcome" where
  "logger_main listen_ok open_ok acs onDisk =
     Serve listen_ok open_ok acs (NewLogger '':6080'' ''sdfs log'' ''./data/log.txt'' onDisk)"

section \<open>Copying\<close>

text \<open>With a descriptor that can be written, file and terminal get the same bytes, all of them and in order.\<close>

lemma handleConn_copies:
  assumes "lgDesc l = Some flags" "can_write flags"
  shows "handleConn ps l = (l\<lparr> logBytes := logBytes l @ concat ps, stdout := stdout l @ concat ps \<rparr>, [])"
  using assms(1)
proof (induction ps arbitrary: l)
  case (Cons p ps)
  then show ?case using assms(2) by (simp add: file_write_def)
qed simp

text \<open>Without one, the first piece is read and lost, and the rest is never read.\<close>

lemma handleConn_stops:
  assumes "\<And>flags. lgDesc l = Some flags \<Longrightarrow> \<not> can_write flags"
  shows "handleConn ps l = (l, tl ps)"
  using assms by (cases ps) (auto simp: file_write_def split: option.split)

lemma opened_read_only: "\<not> can_write (O_APPEND OR O_CREATE)"
  by (simp add: can_write_def O_APPEND_def O_CREATE_def O_WRONLY_def O_RDWR_def)

section \<open>Serving\<close>

lemma serve_loop_nil:
  assumes "closeChan l = None"
  shows "serve_loop acs l =
    (if AcceptError \<in> set acs
     then Panic (shut_down (l\<lparr> handled := handled l @ map (\<lambda>a. case a of Conn c \<Rightarrow> c) (takeWhile (\<lambda>a. a \<noteq> AcceptError) acs) \<rparr>))
     else Block (l\<lparr> handled := handled l @ map (\<lambda>a. case a of Conn c \<Rightarrow> c) acs \<rparr>))"
  using assms
proof (induction acs arbitrary: l)
  case (Cons a acs)
  then show ?case by (cases a) (simp_all add: serve_loop.simps[of "_ # _"])
qed (simp add: serve_loop.simps)

lemma Serve_opened:
  "Serve True True acs (NewLogger addr name path onDisk) =
     serve_loop acs ((NewLogger addr name path onDisk)\<lparr> listening := True, lgDesc := Some (O_APPEND OR O_CREATE) \<rparr>)"
  using opened_read_only by (simp add: Serve_def file_write_def)

text \<open>C40. The log collector records nothing: its file is opened without write access, so that whatever the clients send, the file keeps
  its old content and nothing is printed, and of every connection at most the first piece is read.  \<open>Serve\<close> returns exactly when the
  address cannot be listened on or the file cannot be opened; otherwise it never comes to a
  regular end: it runs until an \<open>Accept\<close> fails and then panics.  \<open>Close\<close> waits for ever.\<close>
theorem collector_records_nothing:
  "let r = Serve listen_ok open_ok acs (NewLogger addr name path onDisk); l = final_state r in
     (returns r \<longleftrightarrow> \<not> (listen_ok \<and> open_ok)) \<and>
     (r = Panic l \<longleftrightarrow> listen_ok \<and> open_ok \<and> AcceptError \<in> set acs) \<and>
     logBytes l = onDisk \<and> stdout l = [] \<and> handleConn ps l = (l, tl ps) \<and> Close l = Block l"
proof (cases "listen_ok \<and> open_ok")
  case False
  have "handleConn ps (NewLogger addr name path onDisk) = (NewLogger addr name path onDisk, tl ps)"
    by (rule handleConn_stops) (simp add: NewLogger_def)
  moreover have "(NewLogger addr name path onDisk)\<lparr> lgDesc := None \<rparr> = NewLogger addr name path onDisk" by (simp add: NewLogger_def)
  ultimately show ?thesis using False by (auto simp: Serve_def Let_def Close_def) (simp_all add: NewLogger_def)
next
  case True
  let ?l = "(NewLogger addr name path onDisk)\<lparr> listening := True, lgDesc := Some (O_APPEND OR O_CREATE) \<rparr>"
  have nil: "closeChan ?l = None" by (simp add: NewLogger_def)
  have stop: "handleConn ps (?l\<lparr> handled := h \<rparr>) = (?l\<lparr> handled := h \<rparr>, tl ps)"
    "handleConn ps (shut_down (?l\<lparr> handled := h \<rparr>)) = (shut_down (?l\<lparr> handled := h \<rparr>), tl ps)" for h
    by (rule handleConn_stops; use opened_read_only in \<open>auto simp: shut_down_def\<close>)+
  have ok: "listen_ok = True" "open_ok = True" using True by simp_all
  show ?thesis
    unfolding ok Serve_opened serve_loop_nil[OF nil] using stop by (simp add: Let_def shut_down_def Close_def NewLogger_def)
qed

end
