(* ===== verification/Spec2Isabelle.thy ===== *)
theory Spec2Isabelle
  imports Queues Replica Driver Cluster Log_Types Master_Inv Commands LogCollector
begin

text \<open>
  Verification of SDFS, a distributed file system in Go.

  \<^bold>\<open>The program.\<close>  Masters keep the namespace (which path has which contents on which nodes) and agree on
  their membership with a Raft-like consensus module; storage nodes keep the contents in a content-addressed hash
  store.  A client asks the leading master for an upload and gets an id and a node; it sends the bytes to the node, which stores
  them and reports the digest to the master.  For a download the master asks a node that holds the file for
  a link, which the client then uses.  Nodes send heartbeats with their free space; uploads go to the node with
  the most.  A client library reads files through a buffer.

  \<^bold>\<open>Theories and code.\<close>
  \<^item> \<open>Prelude\<close>: outcomes of Go calls (return, panic, waiting for ever; all three with the state left behind),
    strings and slices with their bounds checks.
  \<^item> \<open>Util\<close>: \<open>pkg/util\<close>, \<open>pkg/settings\<close>, the levels of \<open>log\<close>, base64.
  \<^item> \<open>Queues\<close>: \<open>pkg/queue\<close> and \<open>sdfs/pipe.go\<close>.  \<open>PQueue\<close>: \<open>pkg/pqueue\<close>, the array heap.
  \<^item> \<open>FS_Model\<close>: \<open>sdfs/fs.go\<close> and \<open>sdfs/file.go\<close>; directories and files live in explicit stores, pointers are indices, mutexes
    are flags.  \<open>FS_Tree\<close> and \<open>FS_Refine\<close> hold the invariant of the tree and of the checksum index, \<open>FS_Props\<close> the refinement
    of a map from locations to checksums; \<open>FS_Print\<close> the listing of a directory tree.
  \<^item> \<open>HashStore\<close>: \<open>sdfs/hashstore.go\<close> with the data directory.
  \<^item> \<open>Codec\<close>: \<open>raft/types.go\<close>, \<open>raft/addServer.go\<close>, \<open>raft/addNode.go\<close>, \<open>raft/file.go\<close>.
  \<^item> \<open>Raft_Model\<close>: \<open>raft/raft.go\<close>, one definition per critical section of a handler, timer or goroutine;
    \<open>Raft_Log\<close> has the reference merge of a log, quorums and the commit index, \<open>Raft_Props\<close> the properties of one master and
    of votes between masters.
  \<^item> \<open>Replication\<close>: a leader, the other masters and the messages under way, as a step relation over the handlers of
    \<open>Raft_Model\<close> and \<open>Server\<close>: heartbeats and their answers, and the two critical sections of \<open>RegisterMaster\<close> and of
    \<open>UpdateNode\<close> (change of the server, then \<open>Submit\<close>).  \<open>Replication_Props\<close> has agreement and progress, \<open>Cluster\<close> the life of
    a cluster from its first election.
  \<^item> \<open>Server\<close>: \<open>raft/server.go\<close> and \<open>raft/upload.go\<close>; \<open>master\<close> puts the server, the upload manager and the global namespace together.
    \<open>Server_Inv\<close> is its state machine, \<open>Log_Types\<close> the typing of its log, \<open>Server_Props\<close> has uploads and nodes.
  \<^item> \<open>Http\<close>: \<open>router/context.go\<close> and \<open>router/router.go\<close>, with the parts of \<open>net/http\<close>, \<open>net/url\<close>, \<open>strconv\<close> they use.
  \<^item> \<open>NodeRouter\<close>: \<open>router/node.go\<close> and \<open>router/download.go\<close>; the state of a node is its router (table of links, readers-writer lock)
    and its store.  \<open>NodeRouter_Props\<close> has the life of a download, \<open>Node_Inv\<close> the node as a state machine.
  \<^item> \<open>MasterRouter\<close>: \<open>router/master.go\<close> over \<open>master\<close> and the world behind its HTTP client.
  \<^item> \<open>System\<close>: a master and a node connected through URLs; deletion, and names on their way through a query.
    \<open>Service\<close>: what the master relies on when it calls a node (\<open>node_finds\<close> is what the index of the store leads to; the disk is
    kept apart, because \<open>Remove\<close> leaves it alone).  \<open>Master_Inv\<close>: the master as a state machine, whose consensus steps are those
    of \<open>Server_Inv\<close>.
  \<^item> \<open>Replica\<close>: \<open>raft/replica.go\<close> and the executor of \<open>AddFile\<close>.  \<open>NodeProc\<close>: \<open>node/node.go\<close> and \<open>master/master.go\<close>.
    \<open>Driver\<close>: \<open>driver\<close>.  \<open>Commands\<close>: \<open>cmd/master\<close> and \<open>cmd/node\<close> with their flags.  \<open>LogCollector\<close>: \<open>pkg/logger\<close> and \<open>cmd/logger\<close>.

  \<^bold>\<open>Contracts.\<close>  Locales state what a component promises and hold the facts a client needs; each is interpreted on the
  model of the code: \<open>buffer\<close>, \<open>fifo\<close> and \<open>lifo\<close> on the queue and the pipe, the priority queue on the array heap, the
  namespace on \<open>FS\<close>, \<open>ref_counted\<close> on the hash store, \<open>codec\<close> on the three converters, \<open>quorums\<close> on majorities,
  \<open>dispatcher\<close> on the routers of node and master, \<open>storage_service\<close> (register an upload, hand out a link, remove a file) on the
  router of a node behind its URLs.

  \<^bold>\<open>What the theorems show.\<close>
  \<^item> Whole system: what is uploaded is downloaded again, byte for byte, and what is deleted can no longer be reached (below, each
    with the conditions it needs); a file disappears when all its hosts agree; a running node is registered once at the leader;
    no sequence of requests with canonical paths damages the namespace of a master or leaves one of its locks held, and
    requests are served as long as no consensus step has left the consensus mutex held.
  \<^item> Namespace: histories of \<open>AddFile\<close> and \<open>DeleteFile\<close> refine a map; \<open>SemaphoreReplica\<close> counts locations.
  \<^item> Heap and queues: popping yields descending priority; first in, first out under every interleaving.
  \<^item> Hash store: size, names and reference counts along every history of client requests (loading a data directory breaks the
    size); read back; the last reference waits for readers.
  \<^item> Consensus: \<open>AppendEntries\<close> is the reference merge and idempotent on requests that register masters; the commit index is
    the greatest a majority holds when peers are distinct (\<open>duplicate_peer_is_counted_twice\<close> otherwise); elections need a
    majority; the exact rule of votes and of terms; invariants of reachable servers; every log entry has a type that can be sent.
  \<^item> Several masters with a stable leader: followers hold prefixes of the leader's log, and what is committed is held by a majority of
    the cluster at that moment, whatever the network does and whoever registers; a follower that gets an \<open>AddNode\<close> entry stops.
    As long as only masters register, enough delivered heartbeats replicate and commit everything.  A cluster of new masters in
    which a candidate reaches a majority gets there, and grows.
  \<^item> Nodes: the table of links and the store stay well-formed; links deliver the stored bytes; the clean-up of links is a
    reference function; call backs end when redirects do.
  \<^item> Errors: for the places where the code does not do what it means to, the theorem states what it does (two leaders in a
    term, deadlock on \<open>AddNode\<close> entries, leaked locks and counters, names with a plus sign, and others).  \<open>commitChanSender\<close>
    never gets past its first receive: no code makes its channels (\<open>commitChanSender_never_runs\<close>).

  \<^bold>\<open>Loops, bounds and fuel.\<close>  Loops are structural recursion or \<open>function\<close> with a measure.  Loops that may not end
  (drawing a free id, following redirects, the walk to the root of the namespace) are \<open>partial_function (option)\<close>, and \<open>None\<close>
  becomes \<open>Block\<close> in the caller; theorems prove that they return.  Machine integers are words; the bounds in
  hypotheses (\<open>2 ^ 31\<close> references of one name, \<open>2 ^ 32\<close> locations of one file, \<open>2 ^ 63\<close> bytes) are those of the types.
  Fuel is taken by the drain of a queue (the number of its elements) and by the listing of directories (their number, which
  \<open>PrintDir_lists_namespace\<close> shows to be enough).

  \<^bold>\<open>Concurrency.\<close>  A method that holds one mutex for its whole body is one atomic step.  Where the code releases a mutex in
  between (elections, heartbeats, registrations, the deferred step down), each critical section is a definition of its own and statements about
  interleavings order them explicitly.

  \<^bold>\<open>Arguments.\<close>  Random numbers, the clock, SHA-256, the operating system, gRPC and HTTP peers are arguments of the
  definitions.  Hypotheses name what is needed of them: a digest has 32 bytes, a name of a temporary file 16 characters, an id no
  special characters.

  \<^bold>\<open>Not modelled.\<close>  The listeners of HTTP and gRPC and the text of log messages (I/O), \<open>pkg/monitor\<close> (no code of its own) and generated
  code; the goroutines that \<open>Start\<close> of the replica manager and \<open>init\<close> functions launch are the definitions they run.  The
  \<open>Content-Length\<close> check of \<open>net/http\<close> and format verbs in addresses are left out.  In \<open>Replication\<close> the leader does not
  change and masters register with new ids (a duplicate stops the leader, \<open>duplicate_master_blocks_server\<close>); what goes wrong between
  candidates is in \<open>Raft_Props\<close>.
\<close>

section \<open>From the upload to the download\<close>

text \<open>C1. What is uploaded can be downloaded, under these conditions: the master leads and has a node in its queue; the path is
  canonical, free, not being uploaded and needs no escaping in a query; the contents are not empty, not in the namespace yet
  under another path, collide with no other contents, and the name made from their digest has no plus sign; the node has room, can write and can hand out a link; the ids that are drawn need no escaping
  and are new.  The client asks the master for an upload, which registers it at the node; sends the bytes to the
  node it is told, which stores them and reports to the master; asks the master for a download and gets a link of that node; and
  the link delivers exactly the bytes that were sent.  All requests go through the routers, and the addresses, paths and
  names through URLs.\<close>
theorem uploaded_file_is_downloaded:
  assumes "master_ready r path (object_name (digest (body env))) m" "node_ready digest env t rnd s"
    and "uploads (upm m) (mqDraws q j) = None" "\<forall>n. token (mqDraws q n) \<and> mqDraws q n \<notin> rUploads (rt s)"
    and "token path" "mqRaw q = ''path='' @ path"
  shows "\<exists>i m1 m2 s0 s1 s2 s3 c1 c3.
    master_serve (node_get t rnd) q ''GET'' ''/api/sdfs/upload'' (m, s) =
      Ret (m1, s0) (JSON 200 [(''id'', i), (''node'', nAddr (nodeObjs (svr m) ! r))] start_ctx) \<and>
    node_serve (master_post (MasterAddr (rt s))) digest t0 r0 env (''id='' @ i) [] ''POST'' ''/api/upload'' (s0, m1) =
      Ret (s1, m2) c1 \<and> sentStatus c1 = Some 202 \<and>
    master_serve (node_get t rnd) q ''GET'' ''/api/sdfs/download'' (m2, s1) =
      Ret (m2, s2) (String 200 (''http://'' @ nAddr (nodeObjs (svr m) ! r) @ ''/api/download?id='' @ rnd) start_ctx) \<and>
    node_serve (master_post (MasterAddr (rt s))) digest t1 r1 env1 (''id='' @ rnd) [] ''GET'' ''/api/download'' (s2, m2) =
      Ret (s3, m2) c3 \<and> sentStatus c3 = Some 200 \<and> sentBody c3 = [Bytes (body env)]"
proof -
  let ?a = "nAddr (nodeObjs (svr m) ! r)"
  have n: "body env \<noteq> []" "token rnd" using assms(2) by (simp_all add: node_ready_def)
  obtain i m1 m2 s0 s1 where u: "MasterRequestUpload (mqDraws q) (node_get t rnd) path start_ctx (m, s) =
      Ret (m1, s0) (JSON 200 [(''id'', i), (''node'', ?a)] start_ctx)"
    "node_serve (master_post (MasterAddr (rt s))) digest t0 r0 env (''id='' @ i) [] ''POST'' ''/api/upload'' (s0, m1) =
      Ret (s1, m2) (String 202 ''Success'' start_ctx)"
    and p: "in_place path (nID (nodeObjs (svr m) ! r)) (object_name (digest (body env))) (body env) m2 s1"
      "node_inv digest s1" "link_ready t rnd s1"
    and host: "node_host (svr m2) (nID (nodeObjs (svr m) ! r)) = ?a"
    by (rule upload_in_place[OF assms(1-4), of t0 r0]) blast
  obtain s2 k where s2: "MasterDownload (node_get t rnd) path start_ctx (m2, s1) =
      Ret (m2, s2) (String 200 (URLSDFSScheme @ ?a @ ''/api/download'' @ ''?id='' @ rnd) start_ctx)"
    "serves rnd k (body env) s2" "hs_inv digest (hs s2)"
    using in_place_linked[OF p] unfolding host by blast
  obtain s3 c3 where "node_serve (master_post (MasterAddr (rt s))) digest t1 r1 env1 (''id='' @ rnd) [] ''GET'' ''/api/download'' (s2, m2) =
      Ret (s3, m2) c3" "sentStatus c3 = Some 200" "sentBody c3 = [Bytes (body env)]"
    using download_step[OF s2(2,3) n, of "master_post (MasterAddr (rt s))" digest t1 r1 env1 m2] by blast
  moreover have "URLSDFSScheme @ ?a @ ''/api/download'' @ ''?id='' @ rnd = ''http://'' @ ?a @ ''/api/download?id='' @ rnd"
    by (simp add: URLSDFSScheme_def)
  note s2(1)[unfolded this]
  moreover have "sentStatus (String 202 ''Success'' start_ctx) = Some 202" by (simp add: String_sent)
  ultimately show ?thesis unfolding serve_path[OF assms(5,6), of "node_get t rnd"] using u by blast
qed

theorem uploaded_file_is_downloaded_witness:
  "\<exists>m s i m1 s0 s1 m2 c1 s2 s3 c3.
    master_serve (node_get 0 ''abcdefgh'') (path_request (\<lambda>k. RandomString (\<lambda>_. k mod 52) 8) ''/a/b'')
        ''GET'' ''/api/sdfs/upload'' (m, s) = Ret (m1, s0) (JSON 200 [(''id'', i), (''node'', ''n:1'')] start_ctx) \<and>
    node_serve (master_post ''m'') one_digest 0 [] (plain_env [7]) (''id='' @ i) [] ''POST'' ''/api/upload'' (s0, m1) = Ret (s1, m2) c1 \<and>
    node_serve (master_post ''m'') one_digest 0 [] (plain_env []) (''id='' @ ''abcdefgh'') [] ''GET'' ''/api/download'' (s2, m2) =
      Ret (s3, m2) c3 \<and> sentBody c3 = [Bytes [7]]"
proof -
  obtain m r where m: "um_free m" "cmState (cm (svr m)) = LEADER" "First (uploadNodes (upm m)) = Some (Some r)"
    "nodeAddr (svr m) ''n:1'' = Some r" "nodes (svr m) 7 = Some r" "nAddr (nodeObjs (svr m) ! r) = ''n:1''"
    "nID (nodeObjs (svr m) ! r) = 7" "gfs m = NewFS" "uploads (upm m) = Map.empty" "pending (upm m) = {}"
    by (rule one_node_leader)
  have mr: "master_ready r ''/a/b'' (object_name (one_digest (body (plain_env [7])))) m"
    unfolding master_ready_def m(6-10) using m canonical_examples(1) NewFS_inv by (simp add: NewFS_index)
  let ?s = "\<lparr> rt = NewRouter ''m'' ''n'', hs = NewHashStore \<rparr>"
  let ?q = "path_request (\<lambda>k. RandomString (\<lambda>_. k mod 52) 8) ''/a/b''"
  have addr: "nAddr (nodeObjs (svr m) ! r) = ''n:1''" "MasterAddr (rt ?s) = ''m''" using m(6) by (simp_all add: NewRouter_def)
  have nr: "node_ready one_digest (plain_env [7]) 0 ''abcdefgh'' ?s" by (rule fresh_node_ready)
  have "token (RandomString (\<lambda>_. n mod 52) 8)" for n by (rule RandomString_token) simp
  then have q: "\<forall>n. token (mqDraws ?q n) \<and> mqDraws ?q n \<notin> rUploads (rt ?s)" "mqRaw ?q = ''path='' @ ''/a/b''"
    by (simp_all add: path_request_def NewRouter_def)
  have up: "uploads (upm m) (mqDraws ?q 0) = None" using m(9) by simp
  have b: "body (plain_env [7]) = [7]" "token ''/a/b''" by (simp_all add: plain_env_def token_def plain_query_def)
  from uploaded_file_is_downloaded[OF mr nr up q(1) b(2) q(2), of 0 "[]" 0 "[]" "plain_env []", unfolded addr b(1)]
  show ?thesis by blast
qed

section \<open>From the deletion to the failing download\<close>

text \<open>C2. A deleted file can no longer be reached: when the master has a path with exactly one host, the node has the contents under a name
  without a plus sign and nobody reads
  them, a request to delete the path succeeds; the path leaves the namespace and every other path keeps its entry; the node
  drops one reference, and with the last one it no longer finds the contents under their name (other names are not touched), although their bytes stay
  on its disk; and a request to download the path is refused from then on, without a request to the node.\<close>
theorem deleted_file_is_gone:
  assumes "in_place path v k b m s" "\<not> node_busy s k" "node_inv digest s" "link_ready t rnd s" "token path" "mqRaw q = ''path='' @ path"
  shows "\<exists>m1 s1. master_serve (node_get t rnd) q ''GET'' ''/api/sdfs/delete'' (m, s) =
      Ret (m1, s1) (String 200 ''Success'' start_ctx) \<and>
    ns (gfs m1) = (ns (gfs m))(resolve path := None) \<and> copies (hs s1) = (copies (hs s))(k := copies (hs s) k - 1) \<and>
    hs_disk (hs s1) = hs_disk (hs s) \<and>
    node_finds s1 = (if copies (hs s) k = 1 then (node_finds s)(k := None) else node_finds s) \<and>
    master_serve (node_get t rnd) q ''GET'' ''/api/sdfs/download'' (m1, s1) =
      Ret (m1, s1) (String 500 ''Internal Server Error: sdfs error'' start_ctx)"
proof -
  note p = assms(1)[unfolded in_place_def]
  obtain f where f: "lookup (gfs m) (resolve path) = Some f" "Checksum (files (gfs m) ! f) = k" "Host (files (gfs m) ! f) = [v]"
    using p by blast
  have m: "\<not> cmu (cm (svr m))" "fs_inv (gfs m)" "canonical path" "CHR ''/'' \<notin> set (node_host (svr m) v)"
    and n: "token (Checksum (files (gfs m) ! f))" "node_finds s (Checksum (files (gfs m) ! f)) = Some b"
      "\<not> node_busy s (Checksum (files (gfs m) ! f))" "node_inv digest s \<and> link_ready t rnd s"
    using p f(2) assms(2-4) by simp_all
  obtain m1 s1 where d: "MasterDelete (node_get t rnd) path start_ctx (m, s) = Ret (m1, s1) (String 200 ''Success'' start_ctx)"
    "fs_inv (gfs m1)" "ns (gfs m1) = (ns (gfs m))(resolve path := None)"
    "copies (hs s1) = (copies (hs s))(k := copies (hs s) k - 1)" "hs_disk (hs s1) = hs_disk (hs s)"
    "node_finds s1 = (if copies (hs s) k = 1 then (node_finds s)(k := None) else node_finds s)"
    using node_service.delete_accepted[OF m(1-3) f(1,3) n(1) m(4) n(4,2,3), where c = start_ctx] unfolding f(2) by blast
  have "MasterDownload (node_get t rnd) path start_ctx (m1, s1) =
      Ret (m1, s1) (String 500 ''Internal Server Error: sdfs error'' start_ctx)"
    by (rule MasterDownload_absent[OF d(2) m(3)]) (simp add: d(3))
  with d show ?thesis unfolding serve_path[OF assms(5,6), of "node_get t rnd"] by blast
qed

theorem deleted_file_is_gone_witness:
  "\<exists>m m1 s1. ns (gfs m) (resolve ''/a/b'') = Some (object_name (len_digest [7])) \<and>
    master_serve (node_get 0 ''abcdefgh'') (path_request (\<lambda>_. []) ''/a/b'') ''GET'' ''/api/sdfs/delete'' (m, small_node) =
      Ret (m1, s1) (String 200 ''Success'' start_ctx) \<and>
    node_finds s1 (object_name (len_digest [7])) = None \<and> ns (gfs m1) (resolve ''/a/b'') = None"
proof -
  obtain m where m: "in_place ''/a/b'' 7 (object_name (len_digest [7])) [7] m small_node"
    "\<not> node_busy small_node (object_name (len_digest [7]))" by (rule one_file_in_place)
  have n: "node_inv len_digest small_node" "link_ready 0 ''abcdefgh'' small_node"
    using small_node_ok by (simp_all add: node_inv_def link_ready_def rt_free_def)
  have q: "token ''/a/b''" "mqRaw (path_request (\<lambda>_. []) ''/a/b'') = ''path='' @ ''/a/b''"
    by (simp_all add: token_def plain_query_def path_request_def)
  have "ns (gfs m) (resolve ''/a/b'') = Some (object_name (len_digest [7]))" using m(1) by (auto simp: in_place_def ns_def)
  then show ?thesis using deleted_file_is_gone[OF m n q] small_node_ok(8) by fastforce
qed

end
